(* ===== verification/Prelude.thy ===== *)
theory Prelude
  imports Main "HOL-Library.Word"
begin

text \<open>
  Shared vocabulary of the development: machine integer types, the collections of
  simplification rules that the component theories fill, and generic facts on words and
  lists that several components use.
\<close>

section \<open>Machine integers\<close>

type_synonym u32 = "32 word"
type_synonym u64 = "64 word"

text \<open>
  \<open>prog_simps\<close> collects the facts that run a routine symbolically, \<open>layout_simps\<close>
  the facts on addresses of the shared memory layout.
\<close>

named_theorems prog_simps
named_theorems layout_simps

section \<open>Words\<close>

lemma unat_u32_bound: "unat (x :: u32) < 4294967296"
proof -
  have "unat x < 2 ^ LENGTH(32)" by (rule unsigned_less)
  then show ?thesis by simp
qed

lemma unat_u64_bound: "unat (x :: u64) < 18446744073709551616"
proof -
  have "unat x < 2 ^ LENGTH(64)" by (rule unsigned_less)
  then show ?thesis by simp
qed

lemma unat_ucast_u32_u64 [simp]: "unat (ucast (x :: u32) :: u64) = unat x"
  using unat_u32_bound [of x]
  by (simp add: unsigned_ucast_eq take_bit_nat_eq_self_iff)

lemma ucast_u32_u64_inj [simp]: "(ucast (x :: u32) :: u64) = ucast y \<longleftrightarrow> x = y"
  by (metis unat_ucast_u32_u64 word_unat_eq_iff)

lemma unat_add_no_overflow:
  "unat (a :: u64) + unat b < 18446744073709551616 \<Longrightarrow> unat (a + b) = unat a + unat b"
  by (simp add: unat_word_ariths)

lemma unat_mult_no_overflow:
  "unat (a :: u64) * unat b < 18446744073709551616 \<Longrightarrow> unat (a * b) = unat a * unat b"
  by (simp add: unat_word_ariths)

lemma u32_less_unat: "(x :: u32) < y \<longleftrightarrow> unat x < unat y"
  by (simp add: word_less_nat_alt)

lemma u32_le_unat: "(x :: u32) \<le> y \<longleftrightarrow> unat x \<le> unat y"
  by (simp add: word_le_nat_alt)

lemma unat_u32_max: "unat (- 1 :: u32) = 4294967295"
  by (simp add: unsigned_minus_1_eq_mask mask_eq_exp_minus_1)

lemma u32_numeral_less_max [simp]: "(0 :: u32) < - 1" "(1 :: u32) < - 1"
  by (simp_all add: u32_less_unat unat_u32_max)

lemma u32_less_succ: "(k :: u32) < - 1 \<Longrightarrow> x < k + 1 \<longleftrightarrow> x \<le> k"
proof -
  assume "k < - 1"
  then have "unat k < 4294967295" using unat_u32_max by (simp add: u32_less_unat)
  then have "unat (k + 1) = unat k + 1" by (simp add: unat_word_ariths)
  then show ?thesis by (simp add: u32_less_unat u32_le_unat less_Suc_eq_le)
qed

section \<open>Two-dimensional indices\<close>

lemma table_index_inj:
  assumes "(l :: nat) * c + n = l' * c + n'" and "n < c" and "n' < c"
  shows "l = l' \<and> n = n'"
proof -
  have "l = (l * c + n) div c" "n = (l * c + n) mod c" using assms(2) by simp_all
  moreover have "l' = (l' * c + n') div c" "n' = (l' * c + n') mod c" using assms(3) by simp_all
  ultimately show ?thesis using assms(1) by metis
qed

section \<open>Counted loops over 32-bit indices\<close>

text \<open>The indices of a loop \<open>for (uint32_t i = 0; i < n; ++i)\<close>, in order.\<close>

definition u32_upto :: "u32 \<Rightarrow> u32 list" where
  "u32_upto n = map of_nat [0..<unat n]"

lemma of_nat_less_u32: "i < unat (n :: u32) \<Longrightarrow> (of_nat i :: u32) < n"
  by (simp add: u32_less_unat unat_of_nat take_bit_nat_eq_self unat_u32_bound [THEN less_trans [rotated]])

lemma set_u32_upto [simp]: "set (u32_upto n) = {i. i < n}"
proof -
  have "i \<in> of_nat ` {0..<unat n}" if "i < n" for i :: u32
    using that by (intro image_eqI [of _ _ "unat i"]) (simp_all add: u32_less_unat)
  then show ?thesis
    by (auto simp: u32_upto_def of_nat_less_u32)
qed

lemma length_u32_upto [simp]: "length (u32_upto n) = unat n"
  by (simp add: u32_upto_def)

lemma nth_u32_upto [simp]: "i < unat n \<Longrightarrow> u32_upto n ! i = of_nat i"
  by (simp add: u32_upto_def)

lemma u32_upto_Nil [simp]: "u32_upto 0 = []"
  by (simp add: u32_upto_def)

lemma sorted_u32_upto: "sorted_wrt (<) (u32_upto n)"
proof (unfold sorted_wrt_iff_nth_less, intro allI impI)
  fix i j assume "i < j" and "j < length (u32_upto n)"
  then show "u32_upto n ! i < u32_upto n ! j"
    using unat_u32_bound [of n]
    by (simp add: u32_less_unat unat_of_nat take_bit_nat_eq_self)
qed

lemma distinct_u32_upto [simp]: "distinct (u32_upto n)"
  using sorted_u32_upto [of n] strict_sorted_iff by auto

end
