(* ===== verification/Lock_Types.thy ===== *)
theory Lock_Types
  imports Prelude
begin

text \<open>
  The types of \<open>include/lock_types.h\<close>: the state of a per-node lock slot, the result codes,
  the consistency mode, the identifiers (32-bit), the offsets (64-bit), the sentinel values
  and the capacity limits. The enumerations are datatypes with the source's constructors;
  their numeric values are functions, because slot states live in shared memory as numbers.
\<close>

section \<open>Identifiers, sentinels and capacities\<close>

type_synonym NodeId = u32
type_synonym LockId = u32
type_synonym ShmOffset = u64

definition INVALID_NODE_ID :: NodeId where
  "INVALID_NODE_ID = - 1"

definition INVALID_LOCK_ID :: LockId where
  "INVALID_LOCK_ID = - 1"

definition INVALID_OFFSET :: ShmOffset where
  "INVALID_OFFSET = - 1"

definition MAX_NODE_COUNT :: u32 where
  "MAX_NODE_COUNT = 64"

definition MAX_LOCK_COUNT :: u32 where
  "MAX_LOCK_COUNT = 1024"

text \<open>A node id below a legal node count is not the sentinel.\<close>

lemma node_valid: "nc \<le> MAX_NODE_COUNT \<Longrightarrow> n < nc \<Longrightarrow> n \<noteq> INVALID_NODE_ID"
proof
  assume "nc \<le> MAX_NODE_COUNT" and "n < nc" and "n = INVALID_NODE_ID"
  moreover have "unat (- 1 :: u32) = 4294967295"
    by (simp add: unsigned_minus_1_eq_mask mask_eq_exp_minus_1)
  ultimately show False
    by (simp add: u32_le_unat u32_less_unat MAX_NODE_COUNT_def INVALID_NODE_ID_def)
qed

section \<open>Slot states\<close>

text \<open>
  \<open>enum class LockSlotState : uint32_t\<close>. The underlying type is fixed, so a cast of any
  32-bit value is a value of the enumeration; values that name no enumerator are
  \<open>OTHER_SLOT\<close>.
\<close>

datatype LockSlotState = IDLE | WAITING | LOCKED | OTHER_SLOT u32

fun u32_of_slot :: "LockSlotState \<Rightarrow> u32" where
  "u32_of_slot IDLE = 0"
| "u32_of_slot WAITING = 1"
| "u32_of_slot LOCKED = 2"
| "u32_of_slot (OTHER_SLOT v) = v"

definition slot_of_u32 :: "u32 \<Rightarrow> LockSlotState" where
  "slot_of_u32 v =
     (if v = 0 then IDLE else if v = 1 then WAITING else if v = 2 then LOCKED
      else OTHER_SLOT v)"

lemma u32_of_slot_of_u32 [simp]: "u32_of_slot (slot_of_u32 v) = v"
  by (simp add: slot_of_u32_def)

lemma slot_of_u32_eq_simps [simp]:
  "slot_of_u32 v = IDLE \<longleftrightarrow> v = 0"
  "slot_of_u32 v = WAITING \<longleftrightarrow> v = 1"
  "slot_of_u32 v = LOCKED \<longleftrightarrow> v = 2"
  by (simp_all add: slot_of_u32_def)

section \<open>Consistency modes\<close>

datatype ConsistencyMode = SOFTWARE_CONSISTENCY | HARDWARE_CONSISTENCY

section \<open>Result codes\<close>

datatype LockResult =
    SUCCESS
  | ERROR_INVALID_PARAM
  | ERROR_TIMEOUT
  | ERROR_BUSY
  | ERROR_NOT_OWNER
  | ERROR_SHM_FAILURE
  | ERROR_NODE_NOT_REGISTERED
  | ERROR_LOCK_NOT_INITIALIZED
  | ERROR_UNKNOWN

fun lock_result_code :: "LockResult \<Rightarrow> int" where
  "lock_result_code SUCCESS = 0"
| "lock_result_code ERROR_INVALID_PARAM = -1"
| "lock_result_code ERROR_TIMEOUT = -2"
| "lock_result_code ERROR_BUSY = -3"
| "lock_result_code ERROR_NOT_OWNER = -4"
| "lock_result_code ERROR_SHM_FAILURE = -5"
| "lock_result_code ERROR_NODE_NOT_REGISTERED = -6"
| "lock_result_code ERROR_LOCK_NOT_INITIALIZED = -7"
| "lock_result_code ERROR_UNKNOWN = -99"

lemma lock_result_code_inj: "lock_result_code r = lock_result_code r' \<Longrightarrow> r = r'"
  by (cases r; cases r') simp_all

text \<open>Result codes are ordered as the integers that represent them.\<close>

instantiation LockResult :: linorder
begin

definition less_eq_LockResult :: "LockResult \<Rightarrow> LockResult \<Rightarrow> bool" where
  "less_eq_LockResult r r' \<longleftrightarrow> lock_result_code r \<le> lock_result_code r'"

definition less_LockResult :: "LockResult \<Rightarrow> LockResult \<Rightarrow> bool" where
  "less_LockResult r r' \<longleftrightarrow> lock_result_code r < lock_result_code r'"

instance
  by standard (auto simp: less_eq_LockResult_def less_LockResult_def intro: lock_result_code_inj)

end

text \<open>The convention of the header: errors are exactly the negative codes.\<close>

lemma error_iff_negative: "r \<noteq> SUCCESS \<longleftrightarrow> r < SUCCESS"
  by (cases r) (simp_all add: less_LockResult_def)

end
