(* ===== verification/Shared_Memory.thy ===== *)
theory Shared_Memory
  imports Lock_Types "HOL-Library.Sublist"
begin

text \<open>
  \<open>SharedMemoryRegion\<close> (\<open>include/shared_memory.h\<close>, \<open>src/shared_memory.cpp\<close>): the record of
  the private implementation class, mapping and unmapping, the translation between offsets
  and pointers, and the cache-line loop of \<open>flush_cache_region\<close> in
  \<open>include/cxl_memory_pool.h\<close>. The operating system is a parameter: a record of the system
  calls the code makes. Every resource the code acquires or gives back is an event.
\<close>

section \<open>The region and its configuration\<close>

type_synonym ptr = u64

definition MAP_FAILED :: ptr where
  "MAP_FAILED = - 1"

record SharedMemoryRegion =
  shm_fd :: int
  shm_base :: ptr
  shm_size :: u64
  shm_consistency :: ConsistencyMode
  shm_valid :: bool
  shm_path :: string

definition new_region :: SharedMemoryRegion where
  "new_region = \<lparr>shm_fd = -1, shm_base = MAP_FAILED, shm_size = 0,
     shm_consistency = SOFTWARE_CONSISTENCY, shm_valid = False, shm_path = []\<rparr>"

record shm_config =
  cfg_device_path :: string
  cfg_size :: u64
  cfg_consistency :: ConsistencyMode
  cfg_create :: bool

section \<open>The operating system\<close>

datatype mmap_kind = MapSharedSync | MapShared

record os =
  os_is_directory :: "string \<Rightarrow> bool"
  os_open :: "string \<Rightarrow> bool \<Rightarrow> int"             \<comment> \<open>path, \<open>O_CREAT\<close>; negative on failure\<close>
  os_ftruncate :: "int \<Rightarrow> u64 \<Rightarrow> int"            \<comment> \<open>non-zero on failure\<close>
  os_mmap :: "u64 \<Rightarrow> mmap_kind \<Rightarrow> int \<Rightarrow> ptr"    \<comment> \<open>\<open>MAP_FAILED\<close> on failure\<close>

datatype os_event = Opened int | Mapped ptr u64 | Unmapped ptr u64 | Closed int

section \<open>Mapping and unmapping\<close>

definition is_dax_device :: "string \<Rightarrow> bool" where
  "is_dax_device p = sublist ''/dev/dax'' p"

definition cleanup :: "SharedMemoryRegion \<Rightarrow> os_event list \<times> SharedMemoryRegion" where
  "cleanup sh =
     (let unmap = shm_base sh \<noteq> MAP_FAILED \<and> shm_base sh \<noteq> 0;
          close = 0 \<le> shm_fd sh
      in ((if unmap then [Unmapped (shm_base sh) (shm_size sh)] else []) @
          (if close then [Closed (shm_fd sh)] else []),
          sh\<lparr>shm_base := (if unmap then MAP_FAILED else shm_base sh),
             shm_fd := (if close then -1 else shm_fd sh),
             shm_size := 0, shm_valid := False, shm_path := [],
             shm_consistency := SOFTWARE_CONSISTENCY\<rparr>))"

text \<open>
  The mapping step: a real DAX device is first mapped with \<open>MAP_SYNC\<close> and falls back to a
  plain shared mapping (the branch compiled where \<open>MAP_SHARED_VALIDATE\<close> exists).
\<close>

definition map_backing_store :: "os \<Rightarrow> bool \<Rightarrow> u64 \<Rightarrow> int \<Rightarrow> ptr" where
  "map_backing_store os dax sz fd =
     (if dax then
        (let sync_base = os_mmap os sz MapSharedSync fd
         in if sync_base \<noteq> MAP_FAILED then sync_base else os_mmap os sz MapShared fd)
      else os_mmap os sz MapShared fd)"

definition shm_init ::
  "os \<Rightarrow> shm_config \<Rightarrow> SharedMemoryRegion \<Rightarrow> LockResult \<times> os_event list \<times> SharedMemoryRegion"
where
  "shm_init os config sh0 =
     (if cfg_size config = 0 then (ERROR_INVALID_PARAM, [], sh0)
      else
        let (ev0, sh1) = (if shm_valid sh0 then cleanup sh0 else ([], sh0));
            dax0 = is_dax_device (cfg_device_path config);
            dir_sim = (dax0 \<and> os_is_directory os (cfg_device_path config));
            path = (if dir_sim then cfg_device_path config @ ''/shm.bin''
                    else cfg_device_path config);
            dax = (dax0 \<and> \<not> dir_sim);
            sh2 = sh1\<lparr>shm_path := path, shm_size := cfg_size config,
                      shm_consistency := cfg_consistency config\<rparr>;
            fd = os_open os path (\<not> dax);
            sh3 = sh2\<lparr>shm_fd := fd\<rparr>
        in if fd < 0 then
             (let (ev, sh) = cleanup sh3 in (ERROR_SHM_FAILURE, ev0 @ ev, sh))
           else if \<not> dax \<and> os_ftruncate os fd (cfg_size config) \<noteq> 0 then
             (let (ev, sh) = cleanup sh3
              in (ERROR_SHM_FAILURE, ev0 @ [Opened fd] @ ev, sh))
           else
             let base = map_backing_store os dax (cfg_size config) fd;
                 sh4 = sh3\<lparr>shm_base := base\<rparr>
             in if base = MAP_FAILED then
                  (let (ev, sh) = cleanup sh4
                   in (ERROR_SHM_FAILURE, ev0 @ [Opened fd] @ ev, sh))
                else (SUCCESS, ev0 @ [Opened fd, Mapped base (cfg_size config)],
                      sh4\<lparr>shm_valid := True\<rparr>))"

section \<open>Construction, move and destruction\<close>

text \<open>
  A moved-from region is left as a new, unmapped one; assigning to a region and destroying it
  clean it up first. Assigning a region to itself does nothing.
\<close>

definition shm_move_construct :: "SharedMemoryRegion \<Rightarrow> SharedMemoryRegion \<times> SharedMemoryRegion" where
  "shm_move_construct other = (other, new_region)"

definition shm_move_assign ::
  "SharedMemoryRegion \<Rightarrow> SharedMemoryRegion \<Rightarrow> os_event list \<times> SharedMemoryRegion \<times> SharedMemoryRegion"
where
  "shm_move_assign self other = (fst (cleanup self), other, new_region)"

definition shm_destroy :: "SharedMemoryRegion \<Rightarrow> os_event list" where
  "shm_destroy sh = fst (cleanup sh)"

definition is_valid :: "SharedMemoryRegion \<Rightarrow> bool" where
  "is_valid sh = shm_valid sh"

definition get_consistency_mode :: "SharedMemoryRegion \<Rightarrow> ConsistencyMode" where
  "get_consistency_mode sh = shm_consistency sh"

section \<open>Offsets and pointers\<close>

text \<open>A null pointer is \<open>None\<close>.\<close>

definition get_base_address :: "SharedMemoryRegion \<Rightarrow> ptr option" where
  "get_base_address sh = (if shm_valid sh then Some (shm_base sh) else None)"

definition get_size :: "SharedMemoryRegion \<Rightarrow> u64" where
  "get_size sh = (if shm_valid sh then shm_size sh else 0)"

definition offset_to_ptr :: "SharedMemoryRegion \<Rightarrow> ShmOffset \<Rightarrow> ptr option" where
  "offset_to_ptr sh offset =
     (if \<not> shm_valid sh \<or> shm_base sh = MAP_FAILED \<or> shm_base sh = 0 then None
      else if offset \<ge> shm_size sh then None
      else Some (shm_base sh + offset))"

definition ptr_to_offset :: "SharedMemoryRegion \<Rightarrow> ptr option \<Rightarrow> ShmOffset" where
  "ptr_to_offset sh p =
     (case p of
        None \<Rightarrow> INVALID_OFFSET
      | Some cptr \<Rightarrow>
          if \<not> shm_valid sh \<or> shm_base sh = MAP_FAILED then INVALID_OFFSET
          else if cptr < shm_base sh \<or> cptr \<ge> shm_base sh + shm_size sh then INVALID_OFFSET
          else cptr - shm_base sh)"

text \<open>
  A mapping that the operating system returned: usable, not at address 0, and not wrapping
  around the end of the address space.
\<close>

definition region_ok :: "SharedMemoryRegion \<Rightarrow> bool" where
  "region_ok sh \<longleftrightarrow> shm_valid sh \<and> shm_base sh \<noteq> MAP_FAILED \<and> shm_base sh \<noteq> 0 \<and>
     unat (shm_base sh) + unat (shm_size sh) < 18446744073709551616"

lemma region_ok_offset_to_ptr [layout_simps]:
  "region_ok sh \<Longrightarrow>
   offset_to_ptr sh off = (if off < shm_size sh then Some (shm_base sh + off) else None)"
  by (auto simp: region_ok_def offset_to_ptr_def)

section \<open>Flushing cache lines\<close>

text \<open>
  The addresses on which \<open>flush_cache_region\<close> issues \<open>CLFLUSH\<close>: from the start address in
  steps of 64 while below the end. Addresses are natural numbers here: user mappings end far
  below the top of the address space, where the pointer comparison would wrap.
\<close>

function clflush_addrs :: "nat \<Rightarrow> nat \<Rightarrow> nat list" where
  "clflush_addrs p e = (if p < e then p # clflush_addrs (p + 64) e else [])"
  by pat_completeness auto
termination
  by (relation "measure (\<lambda>(p, e). e - p)") auto

declare clflush_addrs.simps [simp del]

definition flush_cache_region :: "nat \<Rightarrow> nat \<Rightarrow> nat list" where
  "flush_cache_region addr sz = clflush_addrs addr (addr + sz)"

text \<open>\<open>CLFLUSH\<close> writes back the 64-byte line that holds its operand.\<close>

definition line_of :: "nat \<Rightarrow> nat" where
  "line_of a = a div 64"

definition flushed_lines :: "nat \<Rightarrow> nat \<Rightarrow> nat set" where
  "flushed_lines addr sz = line_of ` set (flush_cache_region addr sz)"

end
