(* ===== verification/Shm_Prog.thy ===== *)
theory Shm_Prog
  imports Shared_Memory
begin

text \<open>
  Routines that work on CXL shared memory, as trees of memory accesses, and their two
  meanings. A routine of the source is translated once, to a value of \<open>'r prog\<close>: each
  access to a shared 32-bit cell, flush and fence is one node, in the order of the code.
  \<open>run\<close> executes a tree without interference (one call of the API from start to end);
  \<open>pstep\<close> executes its first node only, so that several trees can be interleaved access by
  access. \<open>run_pstep\<close> states that the two agree.

  The shared memory maps the offset of an (aligned) 32-bit cell to its content, so that nodes
  that map the region at different addresses see the same cells. Atomic accesses are
  sequentially consistent, as the source requests everywhere. A dereference of a null pointer
  or an access outside the mapping is \<open>Fault\<close>. Loops without a bound carry fuel; running out
  is \<open>NoFuel\<close>, never a result.
\<close>

section \<open>Access trees\<close>

type_synonym mem = "u64 \<Rightarrow> u32"

datatype 'r prog =
    Ret 'r
  | Load ptr "u32 \<Rightarrow> 'r prog"
  | Store ptr u32 "'r prog"
  | CompareExchange ptr u32 u32 "bool \<Rightarrow> 'r prog"
  | FetchAdd ptr u32 "u32 \<Rightarrow> 'r prog"
  | MemsetZero ptr u64 "'r prog"
  | Flush ptr u64 "'r prog"
  | Fence "'r prog"
  | Crash
  | OutOfFuel

primrec bind :: "'a prog \<Rightarrow> ('a \<Rightarrow> 'b prog) \<Rightarrow> 'b prog" where
  "bind (Ret r) f = f r"
| "bind (Load p k) f = Load p (\<lambda>v. bind (k v) f)"
| "bind (Store p v k) f = Store p v (bind k f)"
| "bind (CompareExchange p e d k) f = CompareExchange p e d (\<lambda>b. bind (k b) f)"
| "bind (FetchAdd p v k) f = FetchAdd p v (\<lambda>x. bind (k x) f)"
| "bind (MemsetZero p n k) f = MemsetZero p n (bind k f)"
| "bind (Flush p n k) f = Flush p n (bind k f)"
| "bind (Fence k) f = Fence (bind k f)"
| "bind Crash f = Crash"
| "bind OutOfFuel f = OutOfFuel"

lemma bind_Ret [simp]: "bind p Ret = p"
  by (induction p) simp_all

lemma bind_assoc: "bind (bind p f) g = bind p (\<lambda>x. bind (f x) g)"
  by (induction p) simp_all

section \<open>The operations of \<open>SharedMemoryRegion\<close> as trees\<close>

text \<open>
  \<open>atomic_load\<close>, \<open>atomic_store\<close>, \<open>compare_exchange\<close> and \<open>fetch_add\<close> at type
  \<open>uint32_t\<close>; \<open>plain_load\<close> and \<open>plain_store\<close> are the accesses to a field that the source
  writes without an atomic operation (\<open>node->locked = 1\<close>). \<open>deref\<close> is the use of a pointer
  that may be null.
\<close>

definition atomic_load :: "ptr \<Rightarrow> u32 prog" where
  "atomic_load addr = Load addr Ret"

definition atomic_store :: "ptr \<Rightarrow> u32 \<Rightarrow> unit prog" where
  "atomic_store addr v = Store addr v (Ret ())"

definition compare_exchange :: "ptr \<Rightarrow> u32 \<Rightarrow> u32 \<Rightarrow> bool prog" where
  "compare_exchange addr expected desired = CompareExchange addr expected desired Ret"

definition fetch_add :: "ptr \<Rightarrow> u32 \<Rightarrow> u32 prog" where
  "fetch_add addr v = FetchAdd addr v Ret"

definition plain_load :: "ptr \<Rightarrow> u32 prog" where
  "plain_load addr = Load addr Ret"

definition plain_store :: "ptr \<Rightarrow> u32 \<Rightarrow> unit prog" where
  "plain_store addr v = Store addr v (Ret ())"

definition memset_zero :: "ptr \<Rightarrow> u64 \<Rightarrow> unit prog" where
  "memset_zero addr n = MemsetZero addr n (Ret ())"

definition flush_cache :: "SharedMemoryRegion \<Rightarrow> ptr \<Rightarrow> u64 \<Rightarrow> unit prog" where
  "flush_cache sh addr n =
     (if \<not> shm_valid sh \<or> n = 0 then Ret ()
      else if shm_consistency sh = HARDWARE_CONSISTENCY then Ret ()
      else Flush addr n (Ret ()))"

definition invalidate_cache :: "SharedMemoryRegion \<Rightarrow> ptr \<Rightarrow> u64 \<Rightarrow> unit prog" where
  "invalidate_cache sh addr n = flush_cache sh addr n"

definition memory_fence :: "unit prog" where
  "memory_fence = Fence (Ret ())"

definition deref :: "ptr option \<Rightarrow> (ptr \<Rightarrow> 'r prog) \<Rightarrow> 'r prog" where
  "deref p f = (case p of None \<Rightarrow> Crash | Some a \<Rightarrow> f a)"

definition seq :: "unit prog \<Rightarrow> 'r prog \<Rightarrow> 'r prog" where
  "seq p q = bind p (\<lambda>_. q)"

lemmas tree_simps = atomic_load_def atomic_store_def plain_load_def plain_store_def
  compare_exchange_def fetch_add_def flush_cache_def memory_fence_def deref_def seq_def

lemma bind_if: "bind (if c then p else q) f = (if c then bind p f else bind q f)"
  by simp

lemma bind_seq: "bind (seq p q) f = seq p (bind q f)"
  by (simp add: seq_def bind_assoc)

lemma seq_seq: "seq (seq p q) r = seq p (seq q r)"
  by (simp add: seq_def bind_assoc)

lemma seq_Ret: "seq (Ret x) q = q"
  by (simp add: seq_def)

lemma bind_deref: "bind (deref p g) f = deref p (\<lambda>a. bind (g a) f)"
  by (simp add: deref_def split: option.splits)

lemma seq_bind: "seq (bind p f) q = bind p (\<lambda>x. seq (f x) q)"
  by (simp add: seq_def bind_assoc)

lemmas prog_assoc = bind_assoc bind_seq seq_seq seq_Ret bind_deref seq_bind

section \<open>Running a tree without interference\<close>

definition in_bounds :: "SharedMemoryRegion \<Rightarrow> ptr \<Rightarrow> nat \<Rightarrow> bool" where
  "in_bounds sh p n \<longleftrightarrow> shm_valid sh \<and> unat (p - shm_base sh) + n \<le> unat (shm_size sh)"

text \<open>The cell of the shared memory that a pointer of this mapping denotes.\<close>

definition cell_of :: "SharedMemoryRegion \<Rightarrow> ptr \<Rightarrow> u64" where
  "cell_of sh p = p - shm_base sh"

definition zero_cells :: "u64 \<Rightarrow> nat \<Rightarrow> mem \<Rightarrow> mem" where
  "zero_cells a n m = (\<lambda>x. if unat a \<le> unat x \<and> unat x < unat a + n then 0 else m x)"

datatype 'r outcome = Result 'r mem | Fault | NoFuel

primrec run :: "SharedMemoryRegion \<Rightarrow> 'r prog \<Rightarrow> mem \<Rightarrow> 'r outcome" where
  "run sh (Ret r) m = Result r m"
| "run sh (Load p k) m =
     (if in_bounds sh p 4 then run sh (k (m (cell_of sh p))) m else Fault)"
| "run sh (Store p v k) m =
     (if in_bounds sh p 4 then run sh k (m(cell_of sh p := v)) else Fault)"
| "run sh (CompareExchange p e d k) m =
     (if in_bounds sh p 4 then
        (if m (cell_of sh p) = e then run sh (k True) (m(cell_of sh p := d))
         else run sh (k False) m)
      else Fault)"
| "run sh (FetchAdd p v k) m =
     (if in_bounds sh p 4
      then run sh (k (m (cell_of sh p))) (m(cell_of sh p := m (cell_of sh p) + v))
      else Fault)"
| "run sh (MemsetZero p n k) m =
     (if in_bounds sh p (unat n) then run sh k (zero_cells (cell_of sh p) (unat n) m) else Fault)"
| "run sh (Flush p n k) m = run sh k m"
| "run sh (Fence k) m = run sh k m"
| "run sh Crash m = Fault"
| "run sh OutOfFuel m = NoFuel"

lemma run_bind:
  "run sh (bind p f) m =
     (case run sh p m of Result r m' \<Rightarrow> run sh (f r) m' | Fault \<Rightarrow> Fault | NoFuel \<Rightarrow> NoFuel)"
  by (induction p arbitrary: m) simp_all

lemma run_bind_Result [prog_simps]:
  "run sh p m = Result r m' \<Longrightarrow> run sh (bind p f) m = run sh (f r) m'"
  by (simp add: run_bind)

lemma run_basic [prog_simps]:
  "run sh (bind (atomic_load p) f) m =
     (if in_bounds sh p 4 then run sh (f (m (cell_of sh p))) m else Fault)"
  "run sh (bind (plain_load p) f) m =
     (if in_bounds sh p 4 then run sh (f (m (cell_of sh p))) m else Fault)"
  "run sh (bind (compare_exchange p e d) g) m =
     (if in_bounds sh p 4 then
        (if m (cell_of sh p) = e then run sh (g True) (m(cell_of sh p := d))
         else run sh (g False) m)
      else Fault)"
  "run sh (bind (fetch_add p v) f) m =
     (if in_bounds sh p 4
      then run sh (f (m (cell_of sh p))) (m(cell_of sh p := m (cell_of sh p) + v))
      else Fault)"
  "run sh (seq (atomic_store p v) q) m =
     (if in_bounds sh p 4 then run sh q (m(cell_of sh p := v)) else Fault)"
  "run sh (seq (plain_store p v) q) m =
     (if in_bounds sh p 4 then run sh q (m(cell_of sh p := v)) else Fault)"
  "run sh (seq (memset_zero p n) q) m =
     (if in_bounds sh p (unat n) then run sh q (zero_cells (cell_of sh p) (unat n) m) else Fault)"
  "run sh (seq (flush_cache sh' p n) q) m = run sh q m"
  "run sh (seq (invalidate_cache sh' p n) q) m = run sh q m"
  "run sh (seq memory_fence q) m = run sh q m"
  by (simp_all add: atomic_load_def plain_load_def compare_exchange_def fetch_add_def
      seq_def atomic_store_def plain_store_def memset_zero_def flush_cache_def
      invalidate_cache_def memory_fence_def)

lemma run_seq_Result [prog_simps]:
  "run sh p m = Result r m' \<Longrightarrow> run sh (seq p q) m = run sh q m'"
  by (simp add: seq_def run_bind)

lemma deref_Some [prog_simps]: "deref (Some a) f = f a"
  by (simp add: deref_def)

lemma deref_None [prog_simps]: "deref None f = Crash"
  by (simp add: deref_def)

section \<open>Pointers into the mapping\<close>

lemma cell_of_base [prog_simps]: "cell_of sh (shm_base sh + off) = off"
  by (simp add: cell_of_def)

lemma cell_of_base_field [prog_simps]: "cell_of sh (shm_base sh + off + f) = off + f"
  by (simp add: cell_of_def)

lemma in_bounds_base:
  "shm_valid sh \<Longrightarrow> unat off + n \<le> unat (shm_size sh) \<Longrightarrow> in_bounds sh (shm_base sh + off) n"
  by (simp add: in_bounds_def)

section \<open>One access at a time\<close>

fun pstep :: "SharedMemoryRegion \<Rightarrow> 'r prog \<Rightarrow> mem \<Rightarrow> 'r prog \<times> mem" where
  "pstep sh (Load p k) m =
     (if in_bounds sh p 4 then (k (m (cell_of sh p)), m) else (Crash, m))"
| "pstep sh (Store p v k) m =
     (if in_bounds sh p 4 then (k, m(cell_of sh p := v)) else (Crash, m))"
| "pstep sh (CompareExchange p e d k) m =
     (if in_bounds sh p 4 then
        (if m (cell_of sh p) = e then (k True, m(cell_of sh p := d)) else (k False, m))
      else (Crash, m))"
| "pstep sh (FetchAdd p v k) m =
     (if in_bounds sh p 4
      then (k (m (cell_of sh p)), m(cell_of sh p := m (cell_of sh p) + v))
      else (Crash, m))"
| "pstep sh (MemsetZero p n k) m =
     (if in_bounds sh p (unat n) then (k, zero_cells (cell_of sh p) (unat n) m) else (Crash, m))"
| "pstep sh (Flush p n k) m = (k, m)"
| "pstep sh (Fence k) m = (k, m)"
| "pstep sh p m = (p, m)"

lemma run_pstep: "pstep sh p m = (p', m') \<Longrightarrow> run sh p m = run sh p' m'"
  by (cases p) (auto split: if_splits)

section \<open>A concrete mapping\<close>

text \<open>
  One megabyte of hardware-consistent memory, mapped at address 65536: the region of the
  concrete instances in the other theories.
\<close>

definition demo_region :: SharedMemoryRegion where
  "demo_region =
     \<lparr>shm_fd = 3, shm_base = 65536, shm_size = 1048576, shm_consistency = HARDWARE_CONSISTENCY,
      shm_valid = True, shm_path = ''/dev/shm/cxl''\<rparr>"

lemma demo_region_ok [simp]: "region_ok demo_region"
  by (simp add: region_ok_def demo_region_def MAP_FAILED_def)

lemma demo_region_fields [simp]:
  "shm_size demo_region = 1048576" "shm_valid demo_region"
  "shm_consistency demo_region = HARDWARE_CONSISTENCY"
  by (simp_all add: demo_region_def)

end
