(* ===== verification/Cached_Memory.thy ===== *)
theory Cached_Memory
  imports Shm_Prog
begin

text \<open>
  Access trees on hosts whose caches the hardware does not keep coherent: the setting of the
  mode \<open>SOFTWARE_CONSISTENCY\<close> (\<open>include/lock_types.h\<close>), in which the program issues \<open>CLFLUSH\<close>
  itself. Every host has a write-back cache of 64-byte lines. A read or write of a cell first
  brings its line into the cache; atomic operations work on the line in the cache of their host;
  \<open>CLFLUSH\<close> writes a dirty line back as a whole and drops it. Mappings are page-aligned, so a
  line is a block of 64 bytes of the region. All threads of one host share its cache.
\<close>

section \<open>Caches\<close>

record cache =
  cached_lines :: "nat set"
  dirty_lines :: "nat set"
  line_data :: mem

definition empty_cache :: cache where
  "empty_cache = \<lparr>cached_lines = {}, dirty_lines = {}, line_data = (\<lambda>_. 0)\<rparr>"

definition line_of_cell :: "u64 \<Rightarrow> nat" where
  "line_of_cell a = line_of (unat a)"

definition fetch :: "nat set \<Rightarrow> cache \<Rightarrow> mem \<Rightarrow> cache" where
  "fetch L c m =
     c\<lparr>cached_lines := cached_lines c \<union> L,
       line_data := (\<lambda>x. if line_of_cell x \<in> L \<and> line_of_cell x \<notin> cached_lines c then m x else line_data c x)\<rparr>"

definition cache_write :: "u64 \<Rightarrow> u32 \<Rightarrow> cache \<Rightarrow> mem \<Rightarrow> cache" where
  "cache_write a v c m =
     (let c1 = fetch {line_of_cell a} c m
      in c1\<lparr>line_data := (line_data c1)(a := v), dirty_lines := insert (line_of_cell a) (dirty_lines c1)\<rparr>)"

definition cache_zero :: "u64 \<Rightarrow> nat \<Rightarrow> cache \<Rightarrow> mem \<Rightarrow> cache" where
  "cache_zero a n c m =
     (let L = line_of ` {unat a..<unat a + n}; c1 = fetch L c m
      in c1\<lparr>line_data := zero_cells a n (line_data c1), dirty_lines := dirty_lines c1 \<union> L\<rparr>)"

definition write_back :: "nat set \<Rightarrow> cache \<Rightarrow> mem \<Rightarrow> mem" where
  "write_back L c m = (\<lambda>x. if line_of_cell x \<in> L \<inter> dirty_lines c then line_data c x else m x)"

definition drop_lines :: "nat set \<Rightarrow> cache \<Rightarrow> cache" where
  "drop_lines L c = c\<lparr>cached_lines := cached_lines c - L, dirty_lines := dirty_lines c - L\<rparr>"

section \<open>Running a tree on one host\<close>

datatype 'r cached_outcome = CResult 'r cache mem | CFault | CNoFuel

primrec crun :: "SharedMemoryRegion \<Rightarrow> 'r prog \<Rightarrow> cache \<Rightarrow> mem \<Rightarrow> 'r cached_outcome" where
  "crun sh (Ret r) c m = CResult r c m"
| "crun sh (Load p k) c m =
     (if in_bounds sh p 4 then
        let c1 = fetch {line_of_cell (cell_of sh p)} c m in crun sh (k (line_data c1 (cell_of sh p))) c1 m
      else CFault)"
| "crun sh (Store p v k) c m =
     (if in_bounds sh p 4 then crun sh k (cache_write (cell_of sh p) v c m) m else CFault)"
| "crun sh (CompareExchange p e d k) c m =
     (if in_bounds sh p 4 then
        let c1 = fetch {line_of_cell (cell_of sh p)} c m
        in if line_data c1 (cell_of sh p) = e
           then crun sh (k True) (cache_write (cell_of sh p) d c1 m) m
           else crun sh (k False) c1 m
      else CFault)"
| "crun sh (FetchAdd p v k) c m =
     (if in_bounds sh p 4 then
        let c1 = fetch {line_of_cell (cell_of sh p)} c m; old = line_data c1 (cell_of sh p)
        in crun sh (k old) (cache_write (cell_of sh p) (old + v) c1 m) m
      else CFault)"
| "crun sh (MemsetZero p n k) c m =
     (if in_bounds sh p (unat n) then crun sh k (cache_zero (cell_of sh p) (unat n) c m) m else CFault)"
| "crun sh (Flush p n k) c m =
     (let L = flushed_lines (unat (cell_of sh p)) (unat n)
      in crun sh k (drop_lines L c) (write_back L c m))"
| "crun sh (Fence k) c m = crun sh k c m"
| "crun sh Crash c m = CFault"
| "crun sh OutOfFuel c m = CNoFuel"

lemma crun_bind:
  "crun sh (bind p f) c m =
     (case crun sh p c m of CResult r c' m' \<Rightarrow> crun sh (f r) c' m' | CFault \<Rightarrow> CFault | CNoFuel \<Rightarrow> CNoFuel)"
  by (induction p arbitrary: c m) (simp_all add: Let_def)

section \<open>What one host sees\<close>

definition view :: "cache \<Rightarrow> mem \<Rightarrow> mem" where
  "view c m = (\<lambda>x. if line_of_cell x \<in> cached_lines c then line_data c x else m x)"

text \<open>Clean lines agree with the memory: nobody else has written to them.\<close>

definition cache_ok :: "cache \<Rightarrow> mem \<Rightarrow> bool" where
  "cache_ok c m \<longleftrightarrow> dirty_lines c \<subseteq> cached_lines c \<and>
     (\<forall>x. line_of_cell x \<in> cached_lines c - dirty_lines c \<longrightarrow> line_data c x = m x)"

lemma fetch_cached: "L \<subseteq> cached_lines c \<Longrightarrow> fetch L c m = c"
  by (intro cache.equality) (auto simp: fetch_def fun_eq_iff)

lemma view_fetch [simp]: "view (fetch L c m) m = view c m"
  by (auto simp: view_def fetch_def)

lemma line_data_fetch [simp]:
  "line_of_cell x \<in> L \<Longrightarrow> line_data (fetch L c m) x = view c m x"
  by (simp add: view_def fetch_def)

lemma cache_ok_fetch [simp]: "cache_ok c m \<Longrightarrow> cache_ok (fetch L c m) m"
  by (auto simp: cache_ok_def fetch_def)

lemma view_cache_write [simp]: "view (cache_write a v c m) m = (view c m)(a := v)"
  by (auto simp: view_def fetch_def cache_write_def Let_def)

lemma cache_ok_write [simp]: "cache_ok c m \<Longrightarrow> cache_ok (cache_write a v c m) m"
  by (auto simp: cache_ok_def fetch_def cache_write_def Let_def)

lemma view_cache_zero [simp]:
  "view (cache_zero a n c m) m = zero_cells a n (view c m)"
  by (auto simp: view_def fetch_def cache_zero_def zero_cells_def Let_def line_of_cell_def fun_eq_iff)

lemma cache_ok_zero [simp]: "cache_ok c m \<Longrightarrow> cache_ok (cache_zero a n c m) m"
  by (auto simp: cache_ok_def fetch_def cache_zero_def zero_cells_def Let_def line_of_cell_def)

lemma view_flush [simp]: "cache_ok c m \<Longrightarrow> view (drop_lines L c) (write_back L c m) = view c m"
  by (auto simp: view_def cache_ok_def drop_lines_def write_back_def fun_eq_iff)

lemma cache_ok_flush [simp]: "cache_ok c m \<Longrightarrow> cache_ok (drop_lines L c) (write_back L c m)"
  by (auto simp: cache_ok_def drop_lines_def write_back_def)

text \<open>The outcome as the host sees it.\<close>

fun flatten :: "'r cached_outcome \<Rightarrow> 'r outcome" where
  "flatten (CResult r c m) = Result r (view c m)"
| "flatten CFault = Fault"
| "flatten CNoFuel = NoFuel"

fun outcome_ok :: "'r cached_outcome \<Rightarrow> bool" where
  "outcome_ok (CResult r c m) = cache_ok c m"
| "outcome_ok _ = True"

text \<open>
  For one host the caches make no difference: as long as no other host writes, a routine that runs on the cached
  memory has the result it has on the flat memory that the host sees, faults when it faults there, and leaves the view that the flat
  run leaves as memory. So whatever goes wrong under software consistency goes wrong between hosts.
\<close>

theorem crun_refines_run:
  assumes "cache_ok c m"
  shows "flatten (crun sh p c m) = run sh p (view c m) \<and> outcome_ok (crun sh p c m)"
  using assms by (induction p arbitrary: c m) (simp_all add: Let_def)

section \<open>Routines that only read\<close>

primrec reads_only :: "'r prog \<Rightarrow> bool" where
  "reads_only (Ret r) = True"
| "reads_only (Load p k) = (\<forall>v. reads_only (k v))"
| "reads_only (Store p v k) = False"
| "reads_only (CompareExchange p e d k) = False"
| "reads_only (FetchAdd p v k) = False"
| "reads_only (MemsetZero p n k) = False"
| "reads_only (Flush p n k) = False"
| "reads_only (Fence k) = reads_only k"
| "reads_only Crash = True"
| "reads_only OutOfFuel = True"

lemma reads_only_bind: "reads_only p \<Longrightarrow> (\<And>r. reads_only (f r)) \<Longrightarrow> reads_only (bind p f)"
  by (induction p) simp_all

text \<open>Lines that are in the cache stay there, with their content, while a host only reads.\<close>

definition extends :: "cache \<Rightarrow> cache \<Rightarrow> bool" where
  "extends c c' \<longleftrightarrow> cached_lines c \<subseteq> cached_lines c' \<and>
     (\<forall>x. line_of_cell x \<in> cached_lines c \<longrightarrow> line_data c' x = line_data c x)"

lemma extends_refl [simp]: "extends c c"
  by (simp add: extends_def)

lemma extends_trans: "extends c c' \<Longrightarrow> extends c' c'' \<Longrightarrow> extends c c''"
  unfolding extends_def by (metis subset_iff subset_trans)

lemma extends_fetch [simp]: "extends c (fetch L c m)"
  by (simp add: extends_def fetch_def)

lemma crun_reads_extends:
  "reads_only p \<Longrightarrow> crun sh p c m = CResult r c' m' \<Longrightarrow> extends c c' \<and> m' = m"
proof (induction p arbitrary: c)
  case (Load a k)
  then have "in_bounds sh a 4"
    and "crun sh (k (line_data (fetch {line_of_cell (cell_of sh a)} c m) (cell_of sh a)))
      (fetch {line_of_cell (cell_of sh a)} c m) m = CResult r c' m'"
    by (simp_all add: Let_def split: if_splits)
  then have "extends (fetch {line_of_cell (cell_of sh a)} c m) c' \<and> m' = m"
    using Load.IH Load.prems(1) by (metis rangeI reads_only.simps(2))
  then show ?case using extends_trans [OF extends_fetch] by blast
qed simp_all

text \<open>
  A host that has run a reading routine once runs it the second time on its cache alone: the
  answer does not depend on the memory any more.
\<close>

lemma crun_again:
  assumes "reads_only p" and "crun sh p c m = CResult r c' m" and "extends c' d"
  shows "crun sh p d m2 = CResult r d m2"
  using assms(1,2)
proof (induction p arbitrary: c)
  case (Load a k)
  let ?l = "line_of_cell (cell_of sh a)" and ?c1 = "fetch {line_of_cell (cell_of sh a)} c m"
  have b: "in_bounds sh a 4" and k: "crun sh (k (line_data ?c1 (cell_of sh a))) ?c1 m = CResult r c' m"
    using Load.prems by (simp_all add: Let_def split: if_splits)
  have ro: "reads_only (k v)" for v using Load.prems(1) by simp
  have "extends ?c1 d"
    using crun_reads_extends [OF ro k] assms(3) extends_trans by blast
  then have d: "?l \<in> cached_lines d" "line_data d (cell_of sh a) = line_data ?c1 (cell_of sh a)"
    by (auto simp: extends_def fetch_def)
  then have "fetch {?l} d m2 = d"
    by (simp add: fetch_cached)
  then show ?case
    using b d Load.IH [OF _ ro k] by (simp add: Let_def)
qed simp_all

lemma crun_reads_run: "reads_only p \<Longrightarrow> flatten (crun sh p c m) = run sh p (view c m)"
  by (induction p arbitrary: c) (simp_all add: Let_def)

section \<open>Evictions and other hosts\<close>

text \<open>
  The hardware may evict any line at any time, writing it back when it is dirty, and other hosts write to the memory while a routine
  runs. \<open>evicted i\<close> are the lines that the host loses before its \<open>i\<close>-th access to the memory, \<open>others i\<close> is what the other hosts have
  done to the memory since the last one. The result says how many accesses there were.
\<close>

definition interfere :: "nat set \<Rightarrow> (mem \<Rightarrow> mem) \<Rightarrow> cache \<Rightarrow> mem \<Rightarrow> cache \<times> mem" where
  "interfere L w c m = (drop_lines L c, write_back L c (w m))"

fun cached_then :: "'a cached_outcome \<Rightarrow> ('a \<Rightarrow> cache \<Rightarrow> mem \<Rightarrow> 'b cached_outcome) \<Rightarrow> 'b cached_outcome" where
  "cached_then (CResult r c m) f = f r c m"
| "cached_then CFault f = CFault"
| "cached_then CNoFuel f = CNoFuel"

primrec crun_env ::
  "SharedMemoryRegion \<Rightarrow> (nat \<Rightarrow> nat set) \<Rightarrow> (nat \<Rightarrow> mem \<Rightarrow> mem) \<Rightarrow> 'r prog \<Rightarrow> nat \<Rightarrow> cache \<Rightarrow> mem \<Rightarrow>
   ('r \<times> nat) cached_outcome"
where
  "crun_env sh evicted others (Ret r) i c m = CResult (r, i) c m"
| "crun_env sh evicted others (Load p k) i c m =
     (case interfere (evicted i) (others i) c m of (c1, m1) \<Rightarrow>
        cached_then (crun sh (Load p Ret) c1 m1) (\<lambda>v. crun_env sh evicted others (k v) (Suc i)))"
| "crun_env sh evicted others (Store p v k) i c m =
     (case interfere (evicted i) (others i) c m of (c1, m1) \<Rightarrow>
        cached_then (crun sh (Store p v (Ret ())) c1 m1) (\<lambda>_. crun_env sh evicted others k (Suc i)))"
| "crun_env sh evicted others (CompareExchange p e d k) i c m =
     (case interfere (evicted i) (others i) c m of (c1, m1) \<Rightarrow>
        cached_then (crun sh (CompareExchange p e d Ret) c1 m1) (\<lambda>b. crun_env sh evicted others (k b) (Suc i)))"
| "crun_env sh evicted others (FetchAdd p v k) i c m =
     (case interfere (evicted i) (others i) c m of (c1, m1) \<Rightarrow>
        cached_then (crun sh (FetchAdd p v Ret) c1 m1) (\<lambda>old. crun_env sh evicted others (k old) (Suc i)))"
| "crun_env sh evicted others (MemsetZero p n k) i c m =
     (case interfere (evicted i) (others i) c m of (c1, m1) \<Rightarrow>
        cached_then (crun sh (MemsetZero p n (Ret ())) c1 m1) (\<lambda>_. crun_env sh evicted others k (Suc i)))"
| "crun_env sh evicted others (Flush p n k) i c m =
     (case interfere (evicted i) (others i) c m of (c1, m1) \<Rightarrow>
        cached_then (crun sh (Flush p n (Ret ())) c1 m1) (\<lambda>_. crun_env sh evicted others k (Suc i)))"
| "crun_env sh evicted others (Fence k) i c m = crun_env sh evicted others k i c m"
| "crun_env sh evicted others Crash i c m = CFault"
| "crun_env sh evicted others OutOfFuel i c m = CNoFuel"

text \<open>Without evictions and other hosts this is \<open>crun\<close>.\<close>

lemma interfere_nothing [simp]: "interfere {} (\<lambda>m. m) c m = (c, m)"
  by (simp add: interfere_def drop_lines_def write_back_def)

lemma map_cached_then:
  "map_cached_outcome g (cached_then x f) = cached_then x (\<lambda>r c m. map_cached_outcome g (f r c m))"
  by (cases x) simp_all

lemma crun_env_quiet:
  "map_cached_outcome fst (crun_env sh (\<lambda>_. {}) (\<lambda>_ m. m) p i c m) = crun sh p c m"
  by (induction p arbitrary: i c m) (simp_all add: Let_def)

lemma crun_env_bind:
  "crun_env sh evicted others (bind p f) i c m =
     cached_then (crun_env sh evicted others p i c m) (\<lambda>(r, j). crun_env sh evicted others (f r) j)"
proof -
  have assoc: "cached_then (cached_then x f) g = cached_then x (\<lambda>r c m. cached_then (f r c m) g)"
    for x :: "'c cached_outcome" and f :: "'c \<Rightarrow> cache \<Rightarrow> mem \<Rightarrow> 'd cached_outcome" and g :: "'d \<Rightarrow> cache \<Rightarrow> mem \<Rightarrow> 'e cached_outcome"
    by (cases x) simp_all
  show ?thesis
    by (induction p arbitrary: i c m)
       (auto simp: assoc simp del: crun.simps split: prod.split intro!: ext arg_cong [where f = "cached_then _"])
qed

text \<open>
  The answer of a reading routine that the host has run before stays the same, whatever the other hosts write, as long
  as none of the lines in its cache is evicted.
\<close>

lemma crun_env_again:
  assumes "reads_only p" and "crun sh p c m0 = CResult r c1 m1" and "extends c1 d"
    and keep: "\<And>i. evicted i \<inter> cached_lines c1 = {}"
  shows "\<exists>j d' m'. crun_env sh evicted others p i d m = CResult (r, j) d' m' \<and> extends c1 d'"
  using assms(1-3)
proof (induction p arbitrary: c i d m)
  case (Load a k)
  let ?l = "line_of_cell (cell_of sh a)" and ?c1 = "fetch {line_of_cell (cell_of sh a)} c m0"
  let ?d = "drop_lines (evicted i) d" and ?m = "write_back (evicted i) d (others i m)"
  have b: "in_bounds sh a 4" and k: "crun sh (k (line_data ?c1 (cell_of sh a))) ?c1 m0 = CResult r c1 m1"
    using Load.prems by (simp_all add: Let_def split: if_splits)
  have ro: "reads_only (k v)" for v using Load.prems(1) by simp
  have d: "extends c1 ?d"
    using Load.prems(3) keep [of i] by (auto simp: extends_def drop_lines_def)
  have "extends ?c1 ?d"
    using crun_reads_extends [OF ro k] d extends_trans by blast
  then have "?l \<in> cached_lines ?d" "line_data ?d (cell_of sh a) = line_data ?c1 (cell_of sh a)"
    by (auto simp: extends_def fetch_def)
  then have "crun sh (Load a Ret) ?d ?m = CResult (line_data ?c1 (cell_of sh a)) ?d ?m"
    using b by (simp add: fetch_cached Let_def)
  then show ?case using Load.IH [OF _ ro k d] by (simp add: interfere_def)
qed simp_all

end
