(* ===== verification/Region_Properties.thy ===== *)
theory Region_Properties
  imports Shared_Memory "HOL-Library.Multiset"
begin

text \<open>
  Properties of \<open>SharedMemoryRegion\<close>: the translation between offsets and pointers, the
  resources that mapping and unmapping acquire and give back, and the cache lines that a flush
  reaches.
\<close>

section \<open>Resources\<close>

datatype resource = FileDescriptor int | Mapping ptr u64

fun account :: "os_event \<Rightarrow> resource multiset \<Rightarrow> resource multiset" where
  "account (Opened fd) R = add_mset (FileDescriptor fd) R"
| "account (Mapped p n) R = add_mset (Mapping p n) R"
| "account (Unmapped p n) R = R - {#Mapping p n#}"
| "account (Closed fd) R = R - {#FileDescriptor fd#}"

definition account_all :: "os_event list \<Rightarrow> resource multiset \<Rightarrow> resource multiset" where
  "account_all evs R = fold account evs R"

text \<open>What a region holds, and the states that the operations keep.\<close>

definition held :: "SharedMemoryRegion \<Rightarrow> resource multiset" where
  "held sh = (if shm_valid sh then {#FileDescriptor (shm_fd sh), Mapping (shm_base sh) (shm_size sh)#} else {#})"

definition region_wf :: "SharedMemoryRegion \<Rightarrow> bool" where
  "region_wf sh \<longleftrightarrow>
     (if shm_valid sh then 0 \<le> shm_fd sh \<and> shm_base sh \<noteq> MAP_FAILED \<and> shm_base sh \<noteq> 0 \<and> 0 < shm_size sh
      else shm_fd sh < 0 \<and> shm_base sh = MAP_FAILED)"

lemma account_all_simps [simp]:
  "account_all [] R = R" "account_all (e # es) R = account_all es (account e R)"
  "account_all (es @ es') R = account_all es' (account_all es R)"
  by (simp_all add: account_all_def)

lemma cleanup_balanced:
  assumes "region_wf sh"
  shows "account_all (fst (cleanup sh)) (held sh) = {#}" and "region_wf (snd (cleanup sh))"
    and "held (snd (cleanup sh)) = {#}"
  using assms by (auto simp: cleanup_def region_wf_def held_def Let_def split: if_splits)

text \<open>Giving up in the middle of \<open>init\<close>: the file is open or not, nothing is mapped.\<close>

lemma cleanup_unmapped:
  assumes "shm_base sh = MAP_FAILED"
  shows "account_all (fst (cleanup sh)) (if 0 \<le> shm_fd sh then {#FileDescriptor (shm_fd sh)#} else {#}) = {#}"
    and "region_wf (snd (cleanup sh))" and "held (snd (cleanup sh)) = {#}"
  using assms by (auto simp: cleanup_def region_wf_def held_def Let_def)

lemma init_prepare:
  assumes "region_wf sh0"
  defines "r \<equiv> (if shm_valid sh0 then cleanup sh0 else ([], sh0))"
  shows "account_all (fst r) (held sh0) = {#}" and "shm_base (snd r) = MAP_FAILED"
    and "shm_fd (snd r) < 0" and "\<not> shm_valid (snd r)"
  using assms by (auto simp: cleanup_def region_wf_def held_def Let_def)


text \<open>\<open>mmap\<close> without an address hint never returns address 0.\<close>

definition os_documented :: "os \<Rightarrow> bool" where
  "os_documented os \<longleftrightarrow> (\<forall>n k fd. os_mmap os n k fd \<noteq> 0)"

lemma map_backing_store_nonzero: "os_documented os \<Longrightarrow> map_backing_store os dax n fd \<noteq> 0"
  by (simp add: os_documented_def map_backing_store_def Let_def)

lemma shm_init_cases:
  assumes "region_wf sh0" and "os_documented os" and "cfg_size cfg \<noteq> 0"
  shows "case shm_init os cfg sh0 of (rc, evs, sh) \<Rightarrow>
    region_wf sh \<and> account_all evs (held sh0) = held sh \<and>
    (if rc = SUCCESS then shm_valid sh \<and> shm_size sh = cfg_size cfg \<and> shm_consistency sh = cfg_consistency cfg
     else rc = ERROR_SHM_FAILURE \<and> held sh = {#})"
proof -
  define r where "r = (if shm_valid sh0 then cleanup sh0 else ([], sh0))"
  define dax0 where "dax0 = is_dax_device (cfg_device_path cfg)"
  define dir where "dir = (dax0 \<and> os_is_directory os (cfg_device_path cfg))"
  define path where "path = (if dir then cfg_device_path cfg @ ''/shm.bin'' else cfg_device_path cfg)"
  define dax where "dax = (dax0 \<and> \<not> dir)"
  define fd where "fd = os_open os path (\<not> dax)"
  define sh3 where "sh3 = (snd r)\<lparr>shm_path := path, shm_size := cfg_size cfg,
      shm_consistency := cfg_consistency cfg, shm_fd := fd\<rparr>"
  define base where "base = map_backing_store os dax (cfg_size cfg) fd"
  have i: "shm_init os cfg sh0 =
     (if fd < 0 then (ERROR_SHM_FAILURE, fst r @ fst (cleanup sh3), snd (cleanup sh3))
      else if \<not> dax \<and> os_ftruncate os fd (cfg_size cfg) \<noteq> 0
      then (ERROR_SHM_FAILURE, fst r @ [Opened fd] @ fst (cleanup sh3), snd (cleanup sh3))
      else if base = MAP_FAILED
      then (ERROR_SHM_FAILURE, fst r @ [Opened fd] @ fst (cleanup (sh3\<lparr>shm_base := base\<rparr>)),
            snd (cleanup (sh3\<lparr>shm_base := base\<rparr>)))
      else (SUCCESS, fst r @ [Opened fd, Mapped base (cfg_size cfg)],
            sh3\<lparr>shm_base := base, shm_valid := True\<rparr>))"
    unfolding shm_init_def Let_def split_beta if_not_P [OF assms(3)] r_def dax0_def dir_def path_def
      dax_def fd_def base_def sh3_def by (rule refl)
  have p: "account_all (fst r) (held sh0) = {#}" "shm_base (snd r) = MAP_FAILED" "\<not> shm_valid (snd r)"
    using init_prepare [OF assms(1)] unfolding r_def [symmetric] by simp_all
  have u: "shm_base sh3 = MAP_FAILED" "shm_fd sh3 = fd" using p(2) by (simp_all add: sh3_def)
  note c = cleanup_unmapped [OF u(1), unfolded u(2)]
  have u': "shm_base (sh3\<lparr>shm_base := MAP_FAILED\<rparr>) = MAP_FAILED" "shm_fd (sh3\<lparr>shm_base := MAP_FAILED\<rparr>) = fd"
    using u(2) by simp_all
  note c' = cleanup_unmapped [OF u'(1), unfolded u'(2)]
  have nz: "base \<noteq> 0" unfolding base_def using assms(2) by (rule map_backing_store_nonzero)
  consider "fd < 0" | "0 \<le> fd" "\<not> dax \<and> os_ftruncate os fd (cfg_size cfg) \<noteq> 0"
    | "0 \<le> fd" "\<not> (\<not> dax \<and> os_ftruncate os fd (cfg_size cfg) \<noteq> 0)" "base = MAP_FAILED"
    | "0 \<le> fd" "\<not> (\<not> dax \<and> os_ftruncate os fd (cfg_size cfg) \<noteq> 0)" "base \<noteq> MAP_FAILED"
    by linarith
  then show ?thesis
  proof cases
    case 1
    then show ?thesis using p(1) c by (simp add: i)
  next
    case 2
    then show ?thesis using p(1) c by (simp add: i)
  next
    case 3
    then show ?thesis using p(1) c' by (auto simp add: i)
  next
    case 4
    then have "held (sh3\<lparr>shm_base := base, shm_valid := True\<rparr>) =
        {#FileDescriptor fd, Mapping base (cfg_size cfg)#}" "region_wf (sh3\<lparr>shm_base := base, shm_valid := True\<rparr>)"
      using nz assms(3) u(2) by (simp_all add: held_def region_wf_def sh3_def word_gt_0)
    moreover have "shm_size sh3 = cfg_size cfg" "shm_consistency sh3 = cfg_consistency cfg"
      by (simp_all add: sh3_def)
    ultimately show ?thesis using 4 p(1) by (auto simp add: i)
  qed
qed

section \<open>Properties\<close>

text \<open>
  \<open>init\<close> and \<open>cleanup\<close> neither leak nor give back twice: from any well-formed region,
  every path through \<open>init\<close> leaves a well-formed region that holds exactly the file descriptor and
  the mapping that were acquired and not yet released (none when it fails); \<open>cleanup\<close> releases
  exactly those.
\<close>

theorem shm_init_resources:
  assumes "region_wf sh0" and "os_documented os" and "shm_init os cfg sh0 = (rc, evs, sh)"
  shows "region_wf sh \<and> account_all evs (held sh0) = held sh \<and>
    account_all (fst (cleanup sh)) (held sh) = {#} \<and> region_wf (snd (cleanup sh)) \<and>
    (rc = SUCCESS \<and> shm_valid sh \<and> shm_size sh = cfg_size cfg \<or>
     rc = ERROR_SHM_FAILURE \<and> held sh = {#} \<or>
     rc = ERROR_INVALID_PARAM \<and> cfg_size cfg = 0 \<and> sh = sh0 \<and> evs = [])"
proof -
  have *: "region_wf sh \<and> account_all evs (held sh0) = held sh \<and>
    (rc = SUCCESS \<and> shm_valid sh \<and> shm_size sh = cfg_size cfg \<or>
     rc = ERROR_SHM_FAILURE \<and> held sh = {#} \<or>
     rc = ERROR_INVALID_PARAM \<and> cfg_size cfg = 0 \<and> sh = sh0 \<and> evs = [])"
  proof (cases "cfg_size cfg = 0")
    case True
    then show ?thesis using assms by (auto simp: shm_init_def)
  next
    case False
    then show ?thesis
      using shm_init_cases [OF assms(1,2) False] assms(3) by (auto split: if_splits)
  qed
  then show ?thesis by (simp add: cleanup_balanced)
qed

text \<open>An operating system on which \<open>open\<close> succeeds and \<open>mmap\<close> fails.\<close>

definition no_mmap_os :: os where
  "no_mmap_os = \<lparr>os_is_directory = (\<lambda>_. False), os_open = (\<lambda>_ _. 5), os_ftruncate = (\<lambda>_ _. 0),
     os_mmap = (\<lambda>_ _ _. MAP_FAILED)\<rparr>"

definition file_config :: shm_config where
  "file_config = \<lparr>cfg_device_path = ''/dev/shm/x'', cfg_size = 4096,
     cfg_consistency = SOFTWARE_CONSISTENCY, cfg_create = True\<rparr>"

theorem shm_init_resources_witness:
  "case shm_init no_mmap_os file_config new_region of (rc, evs, sh) \<Rightarrow>
     rc = ERROR_SHM_FAILURE \<and> evs = [Opened 5, Closed 5] \<and> account_all evs (held new_region) = held sh"
proof -
  have os: "os_documented no_mmap_os" and wf: "region_wf new_region"
    by (simp_all add: os_documented_def no_mmap_os_def MAP_FAILED_def region_wf_def new_region_def)
  obtain rc evs sh where r: "shm_init no_mmap_os file_config new_region = (rc, evs, sh)"
    by (cases "shm_init no_mmap_os file_config new_region")
  have dax: "\<not> is_dax_device (cfg_device_path file_config)"
    by (simp add: is_dax_device_def file_config_def sublist_Cons_right)
  have "rc = ERROR_SHM_FAILURE \<and> evs = [Opened 5, Closed 5]"
    using r dax by (auto simp: shm_init_def Let_def no_mmap_os_def file_config_def new_region_def
        map_backing_store_def cleanup_def)
  then show ?thesis
    using shm_init_resources [OF wf os r] r by simp
qed

text \<open>A page mapped at address 65536.\<close>

definition demo_mapping :: SharedMemoryRegion where
  "demo_mapping = new_region\<lparr>shm_fd := 3, shm_base := 65536, shm_size := 4096, shm_valid := True\<rparr>"

text \<open>
  Offsets and pointers translate back and forth: in a mapped region an offset below the size becomes a
  pointer that \<open>ptr_to_offset\<close> maps back to it, every other offset becomes null, and a pointer
  that \<open>ptr_to_offset\<close> accepts is the one that \<open>offset_to_ptr\<close> gives for the result.
\<close>

theorem offset_ptr_roundtrip:
  assumes "region_ok sh"
  shows "offset_to_ptr sh off = (if off < shm_size sh then Some (shm_base sh + off) else None) \<and>
    (off < shm_size sh \<longrightarrow> ptr_to_offset sh (offset_to_ptr sh off) = off) \<and>
    (ptr_to_offset sh p \<noteq> INVALID_OFFSET \<longrightarrow> offset_to_ptr sh (ptr_to_offset sh p) = p)"
proof (intro conjI impI)
  have sum: "unat (shm_base sh + shm_size sh) = unat (shm_base sh) + unat (shm_size sh)"
    using assms by (simp add: region_ok_def unat_add_no_overflow)
  show 1: "offset_to_ptr sh off = (if off < shm_size sh then Some (shm_base sh + off) else None)" for off
    by (rule region_ok_offset_to_ptr [OF assms])
  show "ptr_to_offset sh (offset_to_ptr sh off) = off" if "off < shm_size sh"
  proof -
    have "unat (shm_base sh + off) = unat (shm_base sh) + unat off"
      using that assms by (intro unat_add_no_overflow) (simp add: region_ok_def word_less_nat_alt)
    then show ?thesis
      using that assms sum 1
      by (simp add: ptr_to_offset_def region_ok_def word_less_nat_alt word_le_nat_alt)
  qed
  show "offset_to_ptr sh (ptr_to_offset sh p) = p" if ne: "ptr_to_offset sh p \<noteq> INVALID_OFFSET"
  proof (cases p)
    case None
    then show ?thesis using ne by (simp add: ptr_to_offset_def)
  next
    case (Some c)
    then have c: "unat (shm_base sh) \<le> unat c" "unat c < unat (shm_base sh) + unat (shm_size sh)"
        "ptr_to_offset sh p = c - shm_base sh"
      using ne sum assms
      by (auto simp: ptr_to_offset_def region_ok_def word_less_nat_alt word_le_nat_alt split: if_splits)
    then have "unat (c - shm_base sh) = unat c - unat (shm_base sh)"
      by (simp add: unat_sub word_le_nat_alt)
    then show ?thesis using Some c 1 by (simp add: word_less_nat_alt)
  qed
qed

theorem offset_ptr_roundtrip_witness:
  "\<exists>p. offset_to_ptr demo_mapping 100 = Some p \<and> ptr_to_offset demo_mapping (Some p) = 100"
proof -
  have ok: "region_ok demo_mapping"
    by (simp add: region_ok_def demo_mapping_def MAP_FAILED_def)
  have "offset_to_ptr demo_mapping 100 = Some 65636"
    by (simp add: region_ok_offset_to_ptr [OF ok]) (simp add: demo_mapping_def)
  moreover have "ptr_to_offset demo_mapping (offset_to_ptr demo_mapping 100) = 100"
  proof -
    have "100 < shm_size demo_mapping" by (simp add: demo_mapping_def)
    then show ?thesis using offset_ptr_roundtrip [OF ok, of 100 None] by blast
  qed
  ultimately show ?thesis by metis
qed

section \<open>Flushing\<close>

lemma clflush_addrs_set: "set (clflush_addrs p e) = {p + 64 * k | k. p + 64 * k < e}"
proof (induction p e rule: clflush_addrs.induct)
  case (1 p e)
  show ?case
  proof (cases "p < e")
    case True
    have "{p + 64 * k | k. p + 64 * k < e} = insert p {p + 64 + 64 * k | k. p + 64 + 64 * k < e}"
    proof (intro set_eqI iffI)
      fix a assume "a \<in> {p + 64 * k | k. p + 64 * k < e}"
      then obtain k where k: "a = p + 64 * k" "p + 64 * k < e" by blast
      then show "a \<in> insert p {p + 64 + 64 * k | k. p + 64 + 64 * k < e}"
        by (cases k) auto
    next
      fix a assume "a \<in> insert p {p + 64 + 64 * k | k. p + 64 + 64 * k < e}"
      then obtain k where "a = p + 64 * k" "p + 64 * k < e"
      proof
        assume "a = p"
        then show ?thesis using that [of 0] True by simp
      next
        assume "a \<in> {p + 64 + 64 * k | k. p + 64 + 64 * k < e}"
        then obtain k where "a = p + 64 + 64 * k" "p + 64 + 64 * k < e" by blast
        then show ?thesis using that [of "Suc k"] by simp
      qed
      then show "a \<in> {p + 64 * k | k. p + 64 * k < e}" by blast
    qed
    then show ?thesis
      using 1 [OF True] True by (subst clflush_addrs.simps) simp
  next
    case False
    then show ?thesis by (subst clflush_addrs.simps) simp
  qed
qed

text \<open>The lines that hold a byte of the range: what the call is meant to flush.\<close>

definition touched_lines :: "nat \<Rightarrow> nat \<Rightarrow> nat set" where
  "touched_lines addr sz = line_of ` {addr..<addr + sz}"

lemma flushed_lines_eq:
  assumes "0 < sz"
  shows "flushed_lines addr sz = {line_of addr..line_of addr + (sz - 1) div 64}"
proof -
  have "64 * k < sz \<longleftrightarrow> k \<le> (sz - 1) div 64" for k
    using assms by (auto simp: less_eq_div_iff_mult_less_eq mult.commute)
  then have "set (clflush_addrs addr (addr + sz)) = (\<lambda>k. addr + 64 * k) ` {..(sz - 1) div 64}"
    by (auto simp: clflush_addrs_set)
  then have "flushed_lines addr sz = (\<lambda>k. line_of addr + k) ` {..(sz - 1) div 64}"
    by (simp add: flushed_lines_def flush_cache_region_def image_image line_of_def add.commute)
  also have "\<dots> = {line_of addr..line_of addr + (sz - 1) div 64}"
    by (auto simp: image_iff) (metis atMost_iff le_add_diff_inverse nat_add_left_cancel_le)
  finally show ?thesis .
qed

lemma touched_lines_eq:
  assumes "0 < sz"
  shows "touched_lines addr sz = {line_of addr..line_of (addr + (sz - 1))}"
proof (intro set_eqI iffI)
  fix x assume "x \<in> touched_lines addr sz"
  then show "x \<in> {line_of addr..line_of (addr + (sz - 1))}"
    by (auto simp: touched_lines_def line_of_def intro!: div_le_mono)
next
  fix x assume "x \<in> {line_of addr..line_of (addr + (sz - 1))}"
  then have x: "addr div 64 \<le> x" "64 * x \<le> addr + (sz - 1)"
    by (simp_all add: line_of_def less_eq_div_iff_mult_less_eq mult.commute)
  show "x \<in> touched_lines addr sz"
  proof (cases "64 * x \<le> addr")
    case True
    then have "x \<le> addr div 64" by (simp add: less_eq_div_iff_mult_less_eq mult.commute)
    then show ?thesis using x(1) assms by (auto simp: touched_lines_def line_of_def image_iff)
  next
    case False
    then have "64 * x \<in> {addr..<addr + sz}" using x(2) assms by auto
    moreover have "line_of (64 * x) = x" by (simp add: line_of_def)
    ultimately show ?thesis unfolding touched_lines_def by (metis image_eqI)
  qed
qed

text \<open>
  C37. \<open>flush_cache_region\<close> flushes exactly the lines that hold a byte of the range if and only if
  the range is empty or its first and last byte are as many lines apart as its length says;
  that is so for every range that starts on a line boundary. Otherwise the last line is missed.
\<close>

theorem flush_covers_iff:
  "flushed_lines addr sz = touched_lines addr sz \<longleftrightarrow>
     sz = 0 \<or> (addr mod 64 + (sz - 1)) div 64 = (sz - 1) div 64"
proof (cases "sz = 0")
  case True
  then show ?thesis
    by (simp add: flushed_lines_def touched_lines_def flush_cache_region_def clflush_addrs_set)
next
  case False
  have "line_of (addr + (sz - 1)) = line_of addr + (addr mod 64 + (sz - 1)) div 64"
  proof -
    have split: "addr + (sz - 1) = 64 * (addr div 64) + (addr mod 64 + (sz - 1))" by simp
    have "(64 * q + r) div 64 = q + r div 64" for q r :: nat by simp
    from this [of "addr div 64" "addr mod 64 + (sz - 1)"] show ?thesis
      unfolding line_of_def split [symmetric] .
  qed
  then show ?thesis
    using False by (simp add: flushed_lines_eq touched_lines_eq) auto
qed

end
