(* ===== verification/Cas_Lock.thy ===== *)
theory Cas_Lock
  imports Shm_Prog
begin

text \<open>
  \<open>CasGlobalLockAlgorithm\<close> (\<open>include/cas_global_lock.h\<close>, \<open>src/cas_global_lock.cpp\<close>): one
  32-bit slot per lock and node, written by the nodes (\<open>IDLE\<close>, \<open>WAITING\<close>) and by the lock
  manager (\<open>LOCKED\<close>). First the routines as access trees, then the layout of the slots, then
  what each routine does when it runs without interference.
\<close>

section \<open>The routines\<close>

record CasGlobalLockAlgorithm =
  cas_node_count :: u32

definition cas_get_state_size :: "u32 \<Rightarrow> u64" where
  "cas_get_state_size node_count = ucast MAX_LOCK_COUNT * ucast node_count * 4"

definition cas_get_slot_offset :: "LockId \<Rightarrow> NodeId \<Rightarrow> u32 \<Rightarrow> ShmOffset \<Rightarrow> ShmOffset" where
  "cas_get_slot_offset lock_id node_id node_count state_offset =
     state_offset + ucast lock_id * ucast node_count * 4 + ucast node_id * 4"

definition cas_get_slot_addr ::
  "LockId \<Rightarrow> NodeId \<Rightarrow> u32 \<Rightarrow> SharedMemoryRegion \<Rightarrow> ShmOffset \<Rightarrow> ptr option"
where
  "cas_get_slot_addr lock_id node_id node_count shm state_offset =
     offset_to_ptr shm (cas_get_slot_offset lock_id node_id node_count state_offset)"

definition cas_read_slot_state ::
  "LockId \<Rightarrow> NodeId \<Rightarrow> u32 \<Rightarrow> SharedMemoryRegion \<Rightarrow> ShmOffset \<Rightarrow> LockSlotState prog"
where
  "cas_read_slot_state lock_id node_id node_count shm state_offset =
     deref (cas_get_slot_addr lock_id node_id node_count shm state_offset) (\<lambda>addr.
       bind (atomic_load addr) (\<lambda>val. Ret (slot_of_u32 val)))"

definition cas_write_slot_state ::
  "LockId \<Rightarrow> NodeId \<Rightarrow> u32 \<Rightarrow> SharedMemoryRegion \<Rightarrow> ShmOffset \<Rightarrow> LockSlotState \<Rightarrow> unit prog"
where
  "cas_write_slot_state lock_id node_id node_count shm state_offset st =
     deref (cas_get_slot_addr lock_id node_id node_count shm state_offset) (\<lambda>addr.
       seq (atomic_store addr (u32_of_slot st))
        (seq (flush_cache shm addr 4) (Ret ())))"

definition cas_initialize ::
  "CasGlobalLockAlgorithm \<Rightarrow> SharedMemoryRegion option \<Rightarrow> ShmOffset \<Rightarrow> u32 \<Rightarrow>
   (LockResult \<times> CasGlobalLockAlgorithm) prog"
where
  "cas_initialize self shm state_offset node_count =
     (case shm of
        None \<Rightarrow> Ret (ERROR_INVALID_PARAM, self)
      | Some shm \<Rightarrow>
          if node_count = 0 \<or> node_count > MAX_NODE_COUNT then Ret (ERROR_INVALID_PARAM, self)
          else
            let self' = self\<lparr>cas_node_count := node_count\<rparr>;
                total_size = cas_get_state_size node_count
            in deref (offset_to_ptr shm state_offset) (\<lambda>base.
                 seq (memset_zero base total_size)
                  (seq (flush_cache shm base total_size)
                    (seq memory_fence (Ret (SUCCESS, self'))))))"

definition cas_acquire_lock ::
  "CasGlobalLockAlgorithm \<Rightarrow> NodeId \<Rightarrow> LockId \<Rightarrow> SharedMemoryRegion option \<Rightarrow> ShmOffset \<Rightarrow>
   LockResult prog"
where
  "cas_acquire_lock self node_id lock_id shm state_offset =
     (case shm of
        None \<Rightarrow> Ret ERROR_INVALID_PARAM
      | Some shm \<Rightarrow>
          if node_id = INVALID_NODE_ID then Ret ERROR_INVALID_PARAM
          else
            seq (cas_write_slot_state lock_id node_id (cas_node_count self) shm state_offset WAITING)
             (seq memory_fence (Ret SUCCESS)))"

definition cas_release_lock ::
  "CasGlobalLockAlgorithm \<Rightarrow> NodeId \<Rightarrow> LockId \<Rightarrow> SharedMemoryRegion option \<Rightarrow> ShmOffset \<Rightarrow>
   LockResult prog"
where
  "cas_release_lock self node_id lock_id shm state_offset =
     (case shm of
        None \<Rightarrow> Ret ERROR_INVALID_PARAM
      | Some shm \<Rightarrow>
          if node_id = INVALID_NODE_ID then Ret ERROR_INVALID_PARAM
          else
            seq (cas_write_slot_state lock_id node_id (cas_node_count self) shm state_offset IDLE)
             (seq memory_fence (Ret SUCCESS)))"

text \<open>
  The two scans of \<open>check_grant\<close>, over the node ids that are left: is some slot \<open>LOCKED\<close>,
  and which is the first \<open>WAITING\<close> one.
\<close>

fun cas_scan_locked ::
  "LockId \<Rightarrow> u32 \<Rightarrow> SharedMemoryRegion \<Rightarrow> ShmOffset \<Rightarrow> NodeId list \<Rightarrow> bool prog"
where
  "cas_scan_locked lock_id node_count shm state_offset [] = Ret False"
| "cas_scan_locked lock_id node_count shm state_offset (nid # nids) =
     bind (cas_read_slot_state lock_id nid node_count shm state_offset) (\<lambda>st.
       if st = LOCKED then Ret True
       else cas_scan_locked lock_id node_count shm state_offset nids)"

fun cas_scan_waiting ::
  "LockId \<Rightarrow> u32 \<Rightarrow> SharedMemoryRegion \<Rightarrow> ShmOffset \<Rightarrow> NodeId list \<Rightarrow> NodeId prog"
where
  "cas_scan_waiting lock_id node_count shm state_offset [] = Ret INVALID_NODE_ID"
| "cas_scan_waiting lock_id node_count shm state_offset (nid # nids) =
     bind (cas_read_slot_state lock_id nid node_count shm state_offset) (\<lambda>st.
       if st = WAITING then Ret nid
       else cas_scan_waiting lock_id node_count shm state_offset nids)"

definition cas_check_grant ::
  "LockId \<Rightarrow> SharedMemoryRegion option \<Rightarrow> ShmOffset \<Rightarrow> u32 \<Rightarrow> NodeId prog"
where
  "cas_check_grant lock_id shm state_offset node_count =
     (case shm of
        None \<Rightarrow> Ret INVALID_NODE_ID
      | Some shm \<Rightarrow>
          if node_count = 0 then Ret INVALID_NODE_ID
          else
            bind (cas_scan_locked lock_id node_count shm state_offset (u32_upto node_count)) (\<lambda>held.
              if held then Ret INVALID_NODE_ID
              else cas_scan_waiting lock_id node_count shm state_offset (u32_upto node_count)))"

definition cas_grant_lock ::
  "CasGlobalLockAlgorithm \<Rightarrow> NodeId \<Rightarrow> LockId \<Rightarrow> SharedMemoryRegion option \<Rightarrow> ShmOffset \<Rightarrow>
   LockResult prog"
where
  "cas_grant_lock self node_id lock_id shm state_offset =
     (case shm of
        None \<Rightarrow> Ret ERROR_INVALID_PARAM
      | Some shm \<Rightarrow>
          if node_id = INVALID_NODE_ID then Ret ERROR_INVALID_PARAM
          else
            deref (cas_get_slot_addr lock_id node_id (cas_node_count self) shm state_offset) (\<lambda>addr.
              bind (compare_exchange addr (u32_of_slot WAITING) (u32_of_slot LOCKED)) (\<lambda>granted.
                if \<not> granted then Ret ERROR_BUSY
                else
                  seq (flush_cache shm addr 4)
                   (seq memory_fence (Ret SUCCESS)))))"

definition cas_get_name :: string where
  "cas_get_name = ''CASGlobalLock''"

section \<open>The layout of the slots\<close>

text \<open>
  \<open>cas_fits\<close>: the region is mapped and the state that \<open>initialize\<close> claims lies inside it.
  \<open>cas_slot\<close> is the cell of a slot, and its position in the table as a natural number.
\<close>

definition cas_fits :: "SharedMemoryRegion \<Rightarrow> u32 \<Rightarrow> ShmOffset \<Rightarrow> bool" where
  "cas_fits sh nc off \<longleftrightarrow>
     region_ok sh \<and> 0 < nc \<and> nc \<le> MAX_NODE_COUNT \<and>
     unat off + unat (cas_get_state_size nc) \<le> unat (shm_size sh)"

abbreviation cas_slot :: "u32 \<Rightarrow> ShmOffset \<Rightarrow> LockId \<Rightarrow> NodeId \<Rightarrow> u64" where
  "cas_slot nc off l n \<equiv> cas_get_slot_offset l n nc off"

lemma cas_state_size_unat:
  "nc \<le> MAX_NODE_COUNT \<Longrightarrow> unat (cas_get_state_size nc) = 1024 * unat nc * 4"
proof -
  assume "nc \<le> MAX_NODE_COUNT"
  then have nc: "unat nc \<le> 64" by (simp add: u32_le_unat MAX_NODE_COUNT_def)
  have a: "unat (1024 * ucast nc :: u64) = 1024 * unat nc"
    using nc by (subst unat_mult_no_overflow) simp_all
  show ?thesis
    unfolding cas_get_state_size_def MAX_LOCK_COUNT_def
    using nc a by (simp add: unat_mult_no_overflow)
qed

lemma table_index_bound:
  assumes "x \<le> 1023 * (c :: nat)" and "n < c"
  shows "(x + n) * 4 + 4 \<le> 1024 * c * 4"
  using assms by simp

lemma cas_slot_pos:
  assumes "nc \<le> MAX_NODE_COUNT" and "l < MAX_LOCK_COUNT" and "n < nc"
  shows "unat (ucast l * ucast nc * 4 + ucast n * 4 :: u64) = (unat l * unat nc + unat n) * 4"
    and "(unat l * unat nc + unat n) * 4 + 4 \<le> 1024 * unat nc * 4"
proof -
  have b: "unat nc \<le> 64" "unat l \<le> 1023" "unat n < unat nc"
    using assms by (simp_all add: u32_le_unat u32_less_unat MAX_NODE_COUNT_def MAX_LOCK_COUNT_def)
  have p: "unat l * unat nc \<le> 1023 * unat nc"
    using b by (intro mult_right_mono) simp_all
  have p64: "unat l * unat nc \<le> 1023 * 64"
    using b by (intro mult_mono) simp_all
  have 1: "unat (ucast l * ucast nc :: u64) = unat l * unat nc"
    using p64 by (subst unat_mult_no_overflow) simp_all
  have 2: "unat (ucast l * ucast nc * 4 :: u64) = unat l * unat nc * 4"
    using p64 by (subst unat_mult_no_overflow) (simp_all add: 1)
  have 3: "unat (ucast n * 4 :: u64) = unat n * 4"
    using b by (subst unat_mult_no_overflow) simp_all
  show "unat (ucast l * ucast nc * 4 + ucast n * 4 :: u64) = (unat l * unat nc + unat n) * 4"
    using b p64 by (subst unat_add_no_overflow) (simp_all add: 2 3)
  show "(unat l * unat nc + unat n) * 4 + 4 \<le> 1024 * unat nc * 4"
    by (rule table_index_bound [OF p b(3)])
qed

lemma cas_slot_inj:
  assumes "nc \<le> MAX_NODE_COUNT" and "l < MAX_LOCK_COUNT" "n < nc" "l' < MAX_LOCK_COUNT" "n' < nc"
  shows "cas_slot nc off l n = cas_slot nc off l' n' \<longleftrightarrow> l = l' \<and> n = n'"
proof
  assume "cas_slot nc off l n = cas_slot nc off l' n'"
  then have "(ucast l * ucast nc * 4 + ucast n * 4 :: u64) = ucast l' * ucast nc * 4 + ucast n' * 4"
    by (simp add: cas_get_slot_offset_def add.assoc)
  then have "unat l * unat nc + unat n = unat l' * unat nc + unat n'"
    using cas_slot_pos(1) [OF assms(1-3)] cas_slot_pos(1) [OF assms(1,4,5)] by simp
  then have "unat l = unat l' \<and> unat n = unat n'"
    using assms(3,5) by (intro table_index_inj) (simp_all add: u32_less_unat)
  then show "l = l' \<and> n = n'"
    by (simp add: word_unat_eq_iff)
qed simp

lemma cas_slot_unat:
  assumes "cas_fits sh nc off" and "l < MAX_LOCK_COUNT" and "n < nc"
  shows "unat (cas_slot nc off l n) = unat off + (unat l * unat nc + unat n) * 4"
    and "unat off + (unat l * unat nc + unat n) * 4 + 4 \<le> unat off + unat (cas_get_state_size nc)"
proof -
  have nc: "nc \<le> MAX_NODE_COUNT" using assms(1) by (simp add: cas_fits_def)
  note pos = cas_slot_pos [OF nc assms(2,3)]
  have fits: "unat off + 1024 * unat nc * 4 \<le> unat (shm_size sh)"
    using assms(1) cas_state_size_unat [OF nc] by (simp add: cas_fits_def)
  have "unat off + unat (ucast l * ucast nc * 4 + ucast n * 4 :: u64) < 18446744073709551616"
    using fits pos unat_u64_bound [of "shm_size sh"] by linarith
  then have "unat (off + (ucast l * ucast nc * 4 + ucast n * 4)) =
      unat off + unat (ucast l * ucast nc * 4 + ucast n * 4 :: u64)"
    by (rule unat_add_no_overflow)
  then show "unat (cas_slot nc off l n) = unat off + (unat l * unat nc + unat n) * 4"
    by (simp add: cas_get_slot_offset_def pos(1) add.assoc)
  show "unat off + (unat l * unat nc + unat n) * 4 + 4 \<le> unat off + unat (cas_get_state_size nc)"
    using pos(2) cas_state_size_unat [OF nc] by simp
qed

text \<open>Every slot of the table is inside the mapping, and its pointer denotes its cell.\<close>

lemma cas_slot_addr [layout_simps]:
  assumes "cas_fits sh nc off" and "l < MAX_LOCK_COUNT" and "n < nc"
  shows "cas_get_slot_addr l n nc sh off = Some (shm_base sh + cas_slot nc off l n)"
    and "in_bounds sh (shm_base sh + cas_slot nc off l n) 4"
proof -
  have "unat (cas_slot nc off l n) + 4 \<le> unat (shm_size sh)"
    using cas_slot_unat [OF assms] assms(1) by (simp add: cas_fits_def)
  then show "cas_get_slot_addr l n nc sh off = Some (shm_base sh + cas_slot nc off l n)"
    and "in_bounds sh (shm_base sh + cas_slot nc off l n) 4"
    using assms(1)
    by (simp_all add: cas_get_slot_addr_def cas_fits_def region_ok_offset_to_ptr word_less_nat_alt
        in_bounds_base region_ok_def)
qed

section \<open>The routines without interference\<close>

lemma cas_fits_node: "cas_fits sh nc off \<Longrightarrow> n < nc \<Longrightarrow> n \<noteq> INVALID_NODE_ID"
  by (rule node_valid) (simp_all add: cas_fits_def)

lemma run_cas_read [prog_simps]:
  assumes "cas_fits sh nc off" and "l < MAX_LOCK_COUNT" and "n < nc"
  shows "run sh (bind (cas_read_slot_state l n nc sh off) f) m =
         run sh (f (slot_of_u32 (m (cas_slot nc off l n)))) m"
  using cas_slot_addr [OF assms]
  by (simp add: cas_read_slot_state_def prog_simps bind_assoc)

lemma run_cas_write [prog_simps]:
  assumes "cas_fits sh nc off" and "l < MAX_LOCK_COUNT" and "n < nc"
  shows "run sh (seq (cas_write_slot_state l n nc sh off st) q) m =
         run sh q (m(cas_slot nc off l n := u32_of_slot st))"
proof (rule run_seq_Result)
  show "run sh (cas_write_slot_state l n nc sh off st) m =
    Result () (m(cas_slot nc off l n := u32_of_slot st))"
    using cas_slot_addr [OF assms] by (simp add: cas_write_slot_state_def prog_simps)
qed

lemma run_cas_acquire:
  assumes "cas_fits sh nc off" and "l < MAX_LOCK_COUNT" and "n < nc"
  shows "run sh (cas_acquire_lock \<lparr>cas_node_count = nc\<rparr> n l (Some sh) off) m =
         Result SUCCESS (m(cas_slot nc off l n := 1))"
  using assms cas_fits_node [OF assms(1,3)]
  by (simp add: cas_acquire_lock_def prog_simps)

lemma run_cas_release:
  assumes "cas_fits sh nc off" and "l < MAX_LOCK_COUNT" and "n < nc"
  shows "run sh (cas_release_lock \<lparr>cas_node_count = nc\<rparr> n l (Some sh) off) m =
         Result SUCCESS (m(cas_slot nc off l n := 0))"
  using assms cas_fits_node [OF assms(1,3)]
  by (simp add: cas_release_lock_def prog_simps)

lemma run_cas_scan_locked:
  assumes "cas_fits sh nc off" and "l < MAX_LOCK_COUNT" and "\<forall>n \<in> set ns. n < nc"
  shows "run sh (bind (cas_scan_locked l nc sh off ns) f) m =
         run sh (f (\<exists>n \<in> set ns. m (cas_slot nc off l n) = 2)) m"
  using assms(3)
proof (induction ns)
  case Nil
  then show ?case by simp
next
  case (Cons n ns)
  then show ?case
    using assms(1,2)
    by (cases "m (cas_slot nc off l n) = 2") (simp_all add: bind_assoc run_cas_read)
qed

lemma run_cas_scan_waiting:
  assumes "cas_fits sh nc off" and "l < MAX_LOCK_COUNT" and "\<forall>n \<in> set ns. n < nc"
  shows "run sh (cas_scan_waiting l nc sh off ns) m =
         Result (case find (\<lambda>n. m (cas_slot nc off l n) = 1) ns of
                   None \<Rightarrow> INVALID_NODE_ID | Some n \<Rightarrow> n) m"
  using assms(3)
proof (induction ns)
  case Nil
  then show ?case by simp
next
  case (Cons n ns)
  then show ?case
    using assms(1,2)
    by (cases "m (cas_slot nc off l n) = 1") (simp_all add: run_cas_read)
qed

text \<open>The scheduling policy of \<open>check_grant\<close> as a function of the slots.\<close>

definition cas_pick :: "u32 \<Rightarrow> (NodeId \<Rightarrow> u32) \<Rightarrow> NodeId option" where
  "cas_pick nc slots =
     (if \<exists>n \<in> set (u32_upto nc). slots n = 2 then None
      else find (\<lambda>n. slots n = 1) (u32_upto nc))"

lemma run_cas_check:
  assumes "cas_fits sh nc off" and "l < MAX_LOCK_COUNT"
  shows "run sh (cas_check_grant l (Some sh) off nc) m =
         Result (case cas_pick nc (\<lambda>n. m (cas_slot nc off l n)) of
                   None \<Rightarrow> INVALID_NODE_ID | Some n \<Rightarrow> n) m"
proof -
  have "0 < nc" using assms(1) by (simp add: cas_fits_def)
  then show ?thesis
    using assms
    by (auto simp: cas_check_grant_def cas_pick_def run_cas_scan_locked run_cas_scan_waiting)
qed

lemma run_cas_grant:
  assumes "cas_fits sh nc off" and "l < MAX_LOCK_COUNT" and "n < nc"
  shows "run sh (cas_grant_lock \<lparr>cas_node_count = nc\<rparr> n l (Some sh) off) m =
         (if m (cas_slot nc off l n) = 1 then Result SUCCESS (m(cas_slot nc off l n := 2))
          else Result ERROR_BUSY m)"
  using cas_slot_addr [OF assms] cas_fits_node [OF assms(1,3)]
  by (simp add: cas_grant_lock_def prog_simps)

text \<open>What \<open>find\<close> returns on the node ids is the smallest one.\<close>

lemma find_u32_upto_Some:
  "find P (u32_upto nc) = Some n \<longleftrightarrow> n < nc \<and> P n \<and> (\<forall>n' < n. \<not> P n')"
proof
  assume f: "find P (u32_upto nc) = Some n"
  then obtain i where i: "i < length (u32_upto nc)" "P (u32_upto nc ! i)" "n = u32_upto nc ! i"
      and least: "\<forall>j < i. \<not> P (u32_upto nc ! j)"
    by (auto simp: find_Some_iff)
  have ni: "unat n = i"
    using i unat_u32_bound [of nc] by (simp add: unat_of_nat)
  have "\<not> P n'" if "n' < n" for n'
  proof -
    have "unat n' < i" using that ni by (simp add: u32_less_unat)
    then show ?thesis
      using least [rule_format, of "unat n'"] i(1) by simp
  qed
  with i ni show "n < nc \<and> P n \<and> (\<forall>n' < n. \<not> P n')"
    by (simp add: u32_less_unat)
next
  assume "n < nc \<and> P n \<and> (\<forall>n' < n. \<not> P n')"
  moreover from this have "unat n < unat nc" by (simp add: u32_less_unat)
  moreover have "(of_nat j :: u32) < n" if "j < unat n" for j
    using that by (rule of_nat_less_u32)
  ultimately show "find P (u32_upto nc) = Some n"
    by (auto simp: find_Some_iff intro!: exI [of _ "unat n"])
qed

lemma find_u32_upto_None: "find P (u32_upto nc) = None \<longleftrightarrow> (\<forall>n < nc. \<not> P n)"
  by (auto simp: find_None_iff)

lemma cas_pick_Some:
  "cas_pick nc slots = Some n \<longleftrightarrow>
   (\<forall>n' < nc. slots n' \<noteq> 2) \<and> n < nc \<and> slots n = 1 \<and> (\<forall>n' < n. slots n' \<noteq> 1)"
  by (auto simp: cas_pick_def find_u32_upto_Some)

lemma cas_pick_None:
  "cas_pick nc slots = None \<longleftrightarrow> (\<exists>n' < nc. slots n' = 2) \<or> (\<forall>n < nc. slots n \<noteq> 1)"
  by (auto simp: cas_pick_def find_u32_upto_None)

lemma demo_cas_fits: "0 < nc \<Longrightarrow> nc \<le> MAX_NODE_COUNT \<Longrightarrow> cas_fits demo_region nc 0"
proof -
  assume "0 < nc" and nc: "nc \<le> MAX_NODE_COUNT"
  moreover have "unat nc \<le> 64" using nc by (simp add: u32_le_unat MAX_NODE_COUNT_def)
  ultimately show ?thesis by (simp add: cas_fits_def cas_state_size_unat)
qed

end
