(* ===== verification/Line_Layout.thy ===== *)
theory Line_Layout
  imports Shm_Prog
begin

text \<open>
  The layout that the FAA, MCS and qspinlock algorithms share: an array of
  \<open>MAX_LOCK_COUNT\<close> lock entries of one cache line (64 bytes) each, followed by one line per
  node. \<open>ecell\<close> and \<open>ncell\<close> are the cells of a field of an entry and of a node record; this
  theory proves that distinct (index, field) pairs are distinct cells and that all of them
  lie inside a region that is large enough.
\<close>

section \<open>Cells\<close>

definition ecell :: "ShmOffset \<Rightarrow> LockId \<Rightarrow> u64 \<Rightarrow> u64" where
  "ecell off l f = off + ucast l * 64 + f"

definition ncell :: "ShmOffset \<Rightarrow> NodeId \<Rightarrow> u64 \<Rightarrow> u64" where
  "ncell off n f = off + ucast MAX_LOCK_COUNT * 64 + ucast n * 64 + f"

lemma unat_line: "unat f < 64 \<Longrightarrow> unat (ucast (a :: u32) * 64 + f :: u64) = unat a * 64 + unat f"
proof -
  assume f: "unat f < 64"
  have a: "unat (ucast a * 64 :: u64) = unat a * 64"
    using unat_u32_bound [of a] by (subst unat_mult_no_overflow) simp_all
  show ?thesis
    using f unat_u32_bound [of a] by (subst unat_add_no_overflow) (simp_all add: a)
qed

lemma line_inj:
  assumes "unat f < 64" and "unat g < 64"
  shows "(ucast (a :: u32) * 64 + f :: u64) = ucast b * 64 + g \<longleftrightarrow> a = b \<and> f = g"
proof
  assume "(ucast a * 64 + f :: u64) = ucast b * 64 + g"
  then have "unat a * 64 + unat f = unat b * 64 + unat g"
    using unat_line [OF assms(1), of a] unat_line [OF assms(2), of b] by simp
  then have "unat a = unat b \<and> unat f = unat g"
    using assms by (intro table_index_inj)
  then show "a = b \<and> f = g" by (simp add: word_unat_eq_iff)
qed simp

lemma ecell_inj [layout_simps]:
  "unat f < 64 \<Longrightarrow> unat g < 64 \<Longrightarrow> ecell off l f = ecell off l' g \<longleftrightarrow> l = l' \<and> f = g"
  using line_inj [of f g l l'] by (simp add: ecell_def add.assoc)

lemma ncell_inj [layout_simps]:
  "unat f < 64 \<Longrightarrow> unat g < 64 \<Longrightarrow> ncell off n f = ncell off n' g \<longleftrightarrow> n = n' \<and> f = g"
  using line_inj [of f g n n'] by (simp add: ncell_def add.assoc)

lemma ecell_neq_ncell [layout_simps]:
  assumes "l < MAX_LOCK_COUNT" and "unat f < 64" and "unat g < 64"
  shows "ecell off l f \<noteq> ncell off n g" and "ncell off n g \<noteq> ecell off l f"
proof -
  have l: "unat l * 64 + unat f < 65536"
    using assms by (simp add: u32_less_unat MAX_LOCK_COUNT_def)
  have n: "unat (65536 + (ucast n * 64 + g) :: u64) = 65536 + (unat n * 64 + unat g)"
    using unat_u32_bound [of n] assms(3)
    by (subst unat_add_no_overflow) (simp_all add: unat_line)
  have "(ucast l * 64 + f :: u64) \<noteq> 65536 + (ucast n * 64 + g)"
    using l n unat_line [OF assms(2), of l] by (metis not_add_less1)
  then have "ecell off l f \<noteq> ncell off n g"
    by (simp add: ecell_def ncell_def MAX_LOCK_COUNT_def add.assoc)
  then show "ecell off l f \<noteq> ncell off n g" and "ncell off n g \<noteq> ecell off l f" by auto
qed

section \<open>A region that holds the layout\<close>

definition lines_size :: "u32 \<Rightarrow> nat" where
  "lines_size nc = 65536 + unat nc * 64"

definition lines_fit :: "SharedMemoryRegion \<Rightarrow> u32 \<Rightarrow> ShmOffset \<Rightarrow> bool" where
  "lines_fit sh nc off \<longleftrightarrow>
     region_ok sh \<and> 0 < nc \<and> nc \<le> MAX_NODE_COUNT \<and>
     unat off + lines_size nc \<le> unat (shm_size sh)"

lemma ecell_unat:
  assumes "lines_fit sh nc off" and "l < MAX_LOCK_COUNT" and "unat f < 64"
  shows "unat (ecell off l f) = unat off + unat l * 64 + unat f"
    and "unat l * 64 + 64 \<le> 65536"
proof -
  show l: "unat l * 64 + 64 \<le> 65536"
    using assms(2) by (simp add: u32_less_unat MAX_LOCK_COUNT_def)
  have "unat off + 65536 \<le> unat (shm_size sh)"
    using assms(1) by (simp add: lines_fit_def lines_size_def)
  then have "unat off + unat (ucast l * 64 + f :: u64) < 18446744073709551616"
    using l assms(3) unat_u64_bound [of "shm_size sh"] by (simp add: unat_line)
  then show "unat (ecell off l f) = unat off + unat l * 64 + unat f"
    using assms(3) by (simp add: ecell_def add.assoc unat_add_no_overflow unat_line)
qed

lemma ncell_unat:
  assumes "lines_fit sh nc off" and "n < nc" and "unat f < 64"
  shows "unat (ncell off n f) = unat off + 65536 + unat n * 64 + unat f"
    and "unat n * 64 + 64 \<le> unat nc * 64"
proof -
  show n: "unat n * 64 + 64 \<le> unat nc * 64"
    using assms(2) by (simp add: u32_less_unat)
  have fit: "unat off + 65536 + unat nc * 64 \<le> unat (shm_size sh)"
    using assms(1) by (simp add: lines_fit_def lines_size_def)
  have i: "unat (65536 + (ucast n * 64 + f) :: u64) = 65536 + (unat n * 64 + unat f)"
    using unat_u32_bound [of n] assms(3)
    by (subst unat_add_no_overflow) (simp_all add: unat_line)
  have "unat off + unat (65536 + (ucast n * 64 + f) :: u64) < 18446744073709551616"
    using fit n assms(3) unat_u64_bound [of "shm_size sh"] unfolding i by linarith
  then show "unat (ncell off n f) = unat off + 65536 + unat n * 64 + unat f"
    by (simp add: ncell_def MAX_LOCK_COUNT_def add.assoc unat_add_no_overflow i)
qed

lemma ecell_in_bounds:
  assumes "lines_fit sh nc off" and "l < MAX_LOCK_COUNT" and "unat f + 4 \<le> 64"
  shows "in_bounds sh (shm_base sh + ecell off l f) 4"
  using assms ecell_unat [OF assms(1,2), of f]
  by (intro in_bounds_base) (simp_all add: lines_fit_def lines_size_def region_ok_def)

lemma ncell_in_bounds:
  assumes "lines_fit sh nc off" and "n < nc" and "unat f + 4 \<le> 64"
  shows "in_bounds sh (shm_base sh + ncell off n f) 4"
  using assms ncell_unat [OF assms(1,2), of f]
  by (intro in_bounds_base) (simp_all add: lines_fit_def lines_size_def region_ok_def)

text \<open>Field accesses through a pointer to the start of an entry or of a node record.\<close>

definition entry_ptr :: "SharedMemoryRegion \<Rightarrow> ShmOffset \<Rightarrow> LockId \<Rightarrow> ptr" where
  "entry_ptr sh off l = shm_base sh + ecell off l 0"

definition node_ptr :: "SharedMemoryRegion \<Rightarrow> ShmOffset \<Rightarrow> NodeId \<Rightarrow> ptr" where
  "node_ptr sh off n = shm_base sh + ncell off n 0"

lemma entry_field_cell [prog_simps]: "cell_of sh (entry_ptr sh off l + f) = ecell off l f"
  by (simp add: entry_ptr_def cell_of_def ecell_def)

lemma node_field_cell [prog_simps]: "cell_of sh (node_ptr sh off n + f) = ncell off n f"
  by (simp add: node_ptr_def cell_of_def ncell_def)

lemma entry_node_first_cell [prog_simps]:
  "cell_of sh (entry_ptr sh off l) = ecell off l 0" "cell_of sh (node_ptr sh off n) = ncell off n 0"
  by (simp_all add: entry_ptr_def node_ptr_def cell_of_def)

lemma entry_field_in_bounds:
  "lines_fit sh nc off \<Longrightarrow> l < MAX_LOCK_COUNT \<Longrightarrow> unat f + 4 \<le> 64 \<Longrightarrow>
   in_bounds sh (entry_ptr sh off l + f) 4"
  using ecell_in_bounds [of sh nc off l f] by (simp add: entry_ptr_def ecell_def add.assoc)

lemma node_field_in_bounds:
  "lines_fit sh nc off \<Longrightarrow> n < nc \<Longrightarrow> unat f + 4 \<le> 64 \<Longrightarrow>
   in_bounds sh (node_ptr sh off n + f) 4"
  using ncell_in_bounds [of sh nc off n f] by (simp add: node_ptr_def ncell_def add.assoc)

lemmas line_bounds =
  entry_field_in_bounds [of _ _ _ _ 0, simplified] entry_field_in_bounds
  node_field_in_bounds [of _ _ _ _ 0, simplified] node_field_in_bounds

lemma lines_fit_node: "lines_fit sh nc off \<Longrightarrow> n < nc \<Longrightarrow> n \<noteq> INVALID_NODE_ID"
  by (rule node_valid) (simp_all add: lines_fit_def)

lemma entry_offset_to_ptr:
  assumes "lines_fit sh nc off" and "l < MAX_LOCK_COUNT"
  shows "offset_to_ptr sh (off + ucast l * 64) = Some (entry_ptr sh off l)"
  using assms ecell_unat [OF assms, of 0]
  by (simp add: lines_fit_def lines_size_def region_ok_offset_to_ptr word_less_nat_alt
      entry_ptr_def ecell_def)

lemma node_offset_to_ptr:
  assumes "lines_fit sh nc off" and "n < nc"
  shows "offset_to_ptr sh (off + ucast MAX_LOCK_COUNT * 64 + ucast n * 64) = Some (node_ptr sh off n)"
  using assms ncell_unat [OF assms, of 0]
  by (simp add: lines_fit_def lines_size_def region_ok_offset_to_ptr word_less_nat_alt
      node_ptr_def ncell_def)

lemma lines_base:
  assumes "lines_fit sh nc off"
  shows "offset_to_ptr sh off = Some (shm_base sh + off)"
    and "k \<le> lines_size nc \<Longrightarrow> in_bounds sh (shm_base sh + off) k"
proof -
  have "off < shm_size sh"
    using assms by (simp add: lines_fit_def lines_size_def word_less_nat_alt)
  then show "offset_to_ptr sh off = Some (shm_base sh + off)"
    using assms by (simp add: lines_fit_def region_ok_offset_to_ptr)
  show "in_bounds sh (shm_base sh + off) k" if "k \<le> lines_size nc"
    using assms that by (intro in_bounds_base) (simp_all add: lines_fit_def region_ok_def)
qed

lemma lines_state_size:
  assumes "nc \<le> MAX_NODE_COUNT"
  shows "unat (ucast MAX_LOCK_COUNT * 64 + ucast nc * 64 :: u64) = lines_size nc"
proof -
  have nc: "unat nc \<le> 64" using assms by (simp add: u32_le_unat MAX_NODE_COUNT_def)
  then have "unat (ucast nc * 64 :: u64) = unat nc * 64"
    by (subst unat_mult_no_overflow) simp_all
  then show ?thesis
    using nc by (subst unat_add_no_overflow) (simp_all add: MAX_LOCK_COUNT_def lines_size_def)
qed

end
