(* ===== verification/Faa_Lock.thy ===== *)
theory Faa_Lock
  imports Line_Layout
begin

text \<open>
  \<open>FaaGlobalLockAlgorithm\<close> (\<open>include/faa_global_lock.h\<close>, \<open>src/faa_global_lock.cpp\<close>): a
  ticket lock. Each lock has the counters \<open>next_ticket\<close> and \<open>now_serving\<close> and the owner, each
  node one ticket record that all locks share. This theory holds the data layout and the
  routines as access trees.
\<close>

section \<open>Data\<close>

text \<open>
  The records of the shared memory, as views of their cells; the constants are the byte
  offsets of the fields in the C++ structures (both padded to 64 bytes).
\<close>

record FaaGlobalLockEntry =
  next_ticket :: u32
  now_serving :: u32
  owner_node :: u32
  padding :: u32

record FaaNodeTicket =
  ticket :: u32
  active :: u32

abbreviation (input) "faa_next_ticket \<equiv> (0 :: u64)"
abbreviation (input) "faa_now_serving \<equiv> (4 :: u64)"
abbreviation (input) "faa_owner_node \<equiv> (8 :: u64)"
abbreviation (input) "faa_padding \<equiv> (12 :: u64)"
abbreviation (input) "faa_ticket \<equiv> (0 :: u64)"
abbreviation (input) "faa_active \<equiv> (4 :: u64)"

definition faa_entry :: "ShmOffset \<Rightarrow> mem \<Rightarrow> LockId \<Rightarrow> FaaGlobalLockEntry" where
  "faa_entry off m l =
     \<lparr>next_ticket = m (ecell off l faa_next_ticket), now_serving = m (ecell off l faa_now_serving),
      owner_node = m (ecell off l faa_owner_node), padding = m (ecell off l faa_padding)\<rparr>"

definition faa_node :: "ShmOffset \<Rightarrow> mem \<Rightarrow> NodeId \<Rightarrow> FaaNodeTicket" where
  "faa_node off m n =
     \<lparr>ticket = m (ncell off n faa_ticket), active = m (ncell off n faa_active)\<rparr>"

record FaaGlobalLockAlgorithm =
  faa_node_count :: u32

section \<open>Addresses\<close>

definition faa_get_state_size :: "u32 \<Rightarrow> u64" where
  "faa_get_state_size node_count = ucast MAX_LOCK_COUNT * 64 + ucast node_count * 64"

definition faa_get_entry_offset :: "LockId \<Rightarrow> ShmOffset \<Rightarrow> ShmOffset" where
  "faa_get_entry_offset lock_id state_offset = state_offset + ucast lock_id * 64"

definition faa_get_entry :: "LockId \<Rightarrow> SharedMemoryRegion \<Rightarrow> ShmOffset \<Rightarrow> ptr option" where
  "faa_get_entry lock_id shm state_offset =
     offset_to_ptr shm (faa_get_entry_offset lock_id state_offset)"

definition faa_get_ticket_offset :: "NodeId \<Rightarrow> ShmOffset \<Rightarrow> ShmOffset" where
  "faa_get_ticket_offset node_id state_offset =
     state_offset + ucast MAX_LOCK_COUNT * 64 + ucast node_id * 64"

definition faa_get_ticket :: "NodeId \<Rightarrow> SharedMemoryRegion \<Rightarrow> ShmOffset \<Rightarrow> ptr option" where
  "faa_get_ticket node_id shm state_offset =
     offset_to_ptr shm (faa_get_ticket_offset node_id state_offset)"

section \<open>The routines\<close>

fun faa_init_entries :: "SharedMemoryRegion \<Rightarrow> ShmOffset \<Rightarrow> LockId list \<Rightarrow> unit prog" where
  "faa_init_entries shm off [] = Ret ()"
| "faa_init_entries shm off (lid # lids) =
     deref (faa_get_entry lid shm off) (\<lambda>entry.
       seq (plain_store (entry + faa_next_ticket) 0)
       (seq (plain_store (entry + faa_now_serving) 0)
       (seq (plain_store (entry + faa_owner_node) INVALID_NODE_ID)
       (seq (plain_store (entry + faa_padding) 0)
       (seq (flush_cache shm entry 64)
         (faa_init_entries shm off lids))))))"

fun faa_init_tickets :: "SharedMemoryRegion \<Rightarrow> ShmOffset \<Rightarrow> NodeId list \<Rightarrow> unit prog" where
  "faa_init_tickets shm off [] = Ret ()"
| "faa_init_tickets shm off (nid # nids) =
     deref (faa_get_ticket nid shm off) (\<lambda>nt.
       seq (plain_store (nt + faa_ticket) 0)
       (seq (plain_store (nt + faa_active) 0)
       (seq (flush_cache shm nt 64)
         (faa_init_tickets shm off nids))))"

definition faa_initialize ::
  "FaaGlobalLockAlgorithm \<Rightarrow> SharedMemoryRegion option \<Rightarrow> ShmOffset \<Rightarrow> u32 \<Rightarrow>
   (LockResult \<times> FaaGlobalLockAlgorithm) prog"
where
  "faa_initialize self shm state_offset node_count =
     (case shm of
        None \<Rightarrow> Ret (ERROR_INVALID_PARAM, self)
      | Some shm \<Rightarrow>
          if node_count = 0 \<or> node_count > MAX_NODE_COUNT then Ret (ERROR_INVALID_PARAM, self)
          else
            let self' = self\<lparr>faa_node_count := node_count\<rparr>;
                total_size = faa_get_state_size node_count
            in deref (offset_to_ptr shm state_offset) (\<lambda>base.
                 seq (memset_zero base total_size)
                 (seq (faa_init_entries shm state_offset (u32_upto MAX_LOCK_COUNT))
                 (seq (faa_init_tickets shm state_offset (u32_upto node_count))
                 (seq memory_fence (Ret (SUCCESS, self')))))))"

definition faa_acquire_lock ::
  "FaaGlobalLockAlgorithm \<Rightarrow> NodeId \<Rightarrow> LockId \<Rightarrow> SharedMemoryRegion option \<Rightarrow> ShmOffset \<Rightarrow>
   LockResult prog"
where
  "faa_acquire_lock self node_id lock_id shm state_offset =
     (case shm of
        None \<Rightarrow> Ret ERROR_INVALID_PARAM
      | Some shm \<Rightarrow>
          if node_id = INVALID_NODE_ID then Ret ERROR_INVALID_PARAM
          else
            deref (faa_get_entry lock_id shm state_offset) (\<lambda>entry.
            bind (fetch_add (entry + faa_next_ticket) 1) (\<lambda>my_ticket.
            deref (faa_get_ticket node_id shm state_offset) (\<lambda>nt.
              seq (plain_store (nt + faa_ticket) my_ticket)
              (seq (plain_store (nt + faa_active) 1)
              (seq (flush_cache shm nt 64)
              (seq memory_fence (Ret SUCCESS))))))))"

definition faa_release_lock ::
  "FaaGlobalLockAlgorithm \<Rightarrow> NodeId \<Rightarrow> LockId \<Rightarrow> SharedMemoryRegion option \<Rightarrow> ShmOffset \<Rightarrow>
   LockResult prog"
where
  "faa_release_lock self node_id lock_id shm state_offset =
     (case shm of
        None \<Rightarrow> Ret ERROR_INVALID_PARAM
      | Some shm \<Rightarrow>
          if node_id = INVALID_NODE_ID then Ret ERROR_INVALID_PARAM
          else
            deref (faa_get_ticket node_id shm state_offset) (\<lambda>nt.
              seq (plain_store (nt + faa_ticket) 0)
              (seq (plain_store (nt + faa_active) 0)
              (seq (flush_cache shm nt 64)
            (deref (faa_get_entry lock_id shm state_offset) (\<lambda>entry.
              seq (atomic_store (entry + faa_owner_node) INVALID_NODE_ID)
              (seq (flush_cache shm (entry + faa_owner_node) 4)
              (seq memory_fence (Ret SUCCESS)))))))))"

text \<open>The minimum search of \<open>check_grant\<close>, over the node ids that are left.\<close>

fun faa_scan_min ::
  "SharedMemoryRegion \<Rightarrow> ShmOffset \<Rightarrow> NodeId list \<Rightarrow> u32 \<Rightarrow> NodeId \<Rightarrow> NodeId prog"
where
  "faa_scan_min shm off [] min_ticket min_node = Ret min_node"
| "faa_scan_min shm off (nid # nids) min_ticket min_node =
     deref (faa_get_ticket nid shm off) (\<lambda>nt.
     bind (atomic_load (nt + faa_active)) (\<lambda>act.
       if act \<noteq> 0 then
         bind (atomic_load (nt + faa_ticket)) (\<lambda>t.
           if t < min_ticket then faa_scan_min shm off nids t nid
           else faa_scan_min shm off nids min_ticket min_node)
       else faa_scan_min shm off nids min_ticket min_node))"

definition faa_check_grant ::
  "LockId \<Rightarrow> SharedMemoryRegion option \<Rightarrow> ShmOffset \<Rightarrow> u32 \<Rightarrow> NodeId prog"
where
  "faa_check_grant lock_id shm state_offset node_count =
     (case shm of
        None \<Rightarrow> Ret INVALID_NODE_ID
      | Some shm \<Rightarrow>
          if node_count = 0 then Ret INVALID_NODE_ID
          else
            deref (faa_get_entry lock_id shm state_offset) (\<lambda>entry.
            bind (atomic_load (entry + faa_owner_node)) (\<lambda>owner.
              if owner \<noteq> INVALID_NODE_ID then Ret INVALID_NODE_ID
              else faa_scan_min shm state_offset (u32_upto node_count) (- 1) INVALID_NODE_ID)))"

definition faa_grant_lock ::
  "FaaGlobalLockAlgorithm \<Rightarrow> NodeId \<Rightarrow> LockId \<Rightarrow> SharedMemoryRegion option \<Rightarrow> ShmOffset \<Rightarrow>
   LockResult prog"
where
  "faa_grant_lock self node_id lock_id shm state_offset =
     (case shm of
        None \<Rightarrow> Ret ERROR_INVALID_PARAM
      | Some shm \<Rightarrow>
          if node_id = INVALID_NODE_ID then Ret ERROR_INVALID_PARAM
          else
            deref (faa_get_entry lock_id shm state_offset) (\<lambda>entry.
            deref (faa_get_ticket node_id shm state_offset) (\<lambda>nt.
            bind (atomic_load (nt + faa_ticket)) (\<lambda>grant_ticket.
              seq (atomic_store (entry + faa_owner_node) node_id)
              (seq (atomic_store (entry + faa_now_serving) grant_ticket)
              (seq (flush_cache shm entry 64)
              (seq (flush_cache shm nt 64)
              (seq memory_fence (Ret SUCCESS)))))))))"

definition faa_get_name :: string where
  "faa_get_name = ''FAAGlobalLock''"

section \<open>Addresses of the routines in the shared layout\<close>

lemma faa_get_entry_ptr [layout_simps]:
  "lines_fit sh nc off \<Longrightarrow> l < MAX_LOCK_COUNT \<Longrightarrow> faa_get_entry l sh off = Some (entry_ptr sh off l)"
  by (simp add: faa_get_entry_def faa_get_entry_offset_def entry_offset_to_ptr)

lemma faa_get_ticket_ptr [layout_simps]:
  "lines_fit sh nc off \<Longrightarrow> n < nc \<Longrightarrow> faa_get_ticket n sh off = Some (node_ptr sh off n)"
  by (simp add: faa_get_ticket_def faa_get_ticket_offset_def node_offset_to_ptr)

end
