(* ===== verification/Mcs_Lock.thy ===== *)
theory Mcs_Lock
  imports Line_Layout
begin

text \<open>
  \<open>McsGlobalLockAlgorithm\<close> (\<open>include/mcs_global_lock.h\<close>, \<open>src/mcs_global_lock.cpp\<close>): a queue
  lock. Each lock has a tail, a head and an owner; each node one queue node that all locks
  share. This theory holds the data layout and the routines as access trees. The two loops
  without a bound (the tail swap of \<open>acquire_lock\<close>, the wait for the successor in
  \<open>release_lock\<close>) carry fuel.
\<close>

section \<open>Data\<close>

record McsLockEntry =
  tail_node :: u32
  head_node :: u32
  mcs_owner :: u32

record McsNode =
  next_node :: u32
  locked :: u32
  waiting_lock :: u32

abbreviation (input) "mcs_tail_node \<equiv> (0 :: u64)"
abbreviation (input) "mcs_head_node \<equiv> (4 :: u64)"
abbreviation (input) "mcs_owner_node \<equiv> (8 :: u64)"
abbreviation (input) "mcs_next_node \<equiv> (0 :: u64)"
abbreviation (input) "mcs_locked \<equiv> (4 :: u64)"
abbreviation (input) "mcs_waiting_lock \<equiv> (8 :: u64)"

definition mcs_entry :: "ShmOffset \<Rightarrow> mem \<Rightarrow> LockId \<Rightarrow> McsLockEntry" where
  "mcs_entry off m l =
     \<lparr>tail_node = m (ecell off l mcs_tail_node), head_node = m (ecell off l mcs_head_node),
      mcs_owner = m (ecell off l mcs_owner_node)\<rparr>"

definition mcs_node :: "ShmOffset \<Rightarrow> mem \<Rightarrow> NodeId \<Rightarrow> McsNode" where
  "mcs_node off m n =
     \<lparr>next_node = m (ncell off n mcs_next_node), locked = m (ncell off n mcs_locked),
      waiting_lock = m (ncell off n mcs_waiting_lock)\<rparr>"

record McsGlobalLockAlgorithm =
  mcs_node_count :: u32

section \<open>Addresses\<close>

definition mcs_get_state_size :: "u32 \<Rightarrow> u64" where
  "mcs_get_state_size node_count = ucast MAX_LOCK_COUNT * 64 + ucast node_count * 64"

definition mcs_get_entry_offset :: "LockId \<Rightarrow> ShmOffset \<Rightarrow> ShmOffset" where
  "mcs_get_entry_offset lock_id state_offset = state_offset + ucast lock_id * 64"

definition mcs_get_entry :: "LockId \<Rightarrow> SharedMemoryRegion \<Rightarrow> ShmOffset \<Rightarrow> ptr option" where
  "mcs_get_entry lock_id shm state_offset =
     offset_to_ptr shm (mcs_get_entry_offset lock_id state_offset)"

definition mcs_get_node_offset :: "NodeId \<Rightarrow> ShmOffset \<Rightarrow> ShmOffset" where
  "mcs_get_node_offset node_id state_offset =
     state_offset + ucast MAX_LOCK_COUNT * 64 + ucast node_id * 64"

definition mcs_get_node :: "NodeId \<Rightarrow> SharedMemoryRegion \<Rightarrow> ShmOffset \<Rightarrow> ptr option" where
  "mcs_get_node node_id shm state_offset =
     offset_to_ptr shm (mcs_get_node_offset node_id state_offset)"

section \<open>The routines\<close>

fun mcs_init_entries :: "SharedMemoryRegion \<Rightarrow> ShmOffset \<Rightarrow> LockId list \<Rightarrow> unit prog" where
  "mcs_init_entries shm off [] = Ret ()"
| "mcs_init_entries shm off (lid # lids) =
     deref (mcs_get_entry lid shm off) (\<lambda>entry.
       seq (plain_store (entry + mcs_tail_node) INVALID_NODE_ID)
       (seq (plain_store (entry + mcs_head_node) INVALID_NODE_ID)
       (seq (plain_store (entry + mcs_owner_node) INVALID_NODE_ID)
       (seq (flush_cache shm entry 64)
         (mcs_init_entries shm off lids)))))"

fun mcs_init_nodes :: "SharedMemoryRegion \<Rightarrow> ShmOffset \<Rightarrow> NodeId list \<Rightarrow> unit prog" where
  "mcs_init_nodes shm off [] = Ret ()"
| "mcs_init_nodes shm off (nid # nids) =
     deref (mcs_get_node nid shm off) (\<lambda>node.
       seq (plain_store (node + mcs_waiting_lock) INVALID_LOCK_ID)
       (seq (flush_cache shm node 64)
         (mcs_init_nodes shm off nids)))"

definition mcs_initialize ::
  "McsGlobalLockAlgorithm \<Rightarrow> SharedMemoryRegion option \<Rightarrow> ShmOffset \<Rightarrow> u32 \<Rightarrow>
   (LockResult \<times> McsGlobalLockAlgorithm) prog"
where
  "mcs_initialize self shm state_offset node_count =
     (case shm of
        None \<Rightarrow> Ret (ERROR_INVALID_PARAM, self)
      | Some shm \<Rightarrow>
          if node_count = 0 \<or> node_count > MAX_NODE_COUNT then Ret (ERROR_INVALID_PARAM, self)
          else
            let self' = self\<lparr>mcs_node_count := node_count\<rparr>;
                total_size = mcs_get_state_size node_count
            in deref (offset_to_ptr shm state_offset) (\<lambda>base.
                 seq (memset_zero base total_size)
                 (seq (mcs_init_entries shm state_offset (u32_upto MAX_LOCK_COUNT))
                 (seq (mcs_init_nodes shm state_offset (u32_upto node_count))
                 (seq memory_fence (Ret (SUCCESS, self')))))))"

text \<open>
  \<open>while (!CAS(tail, old_tail, my_id)) \<dots>\<close>: the value of \<open>old_tail\<close> when the loop is left.
\<close>

fun mcs_swap_tail :: "nat \<Rightarrow> ptr \<Rightarrow> u32 \<Rightarrow> u32 \<Rightarrow> u32 prog" where
  "mcs_swap_tail 0 tail old_tail my_id = OutOfFuel"
| "mcs_swap_tail (Suc fuel) tail old_tail my_id =
     bind (compare_exchange tail old_tail my_id) (\<lambda>ok.
       if ok then Ret old_tail
       else
         bind (atomic_load tail) (\<lambda>old_tail'.
           if old_tail' = my_id then Ret old_tail'
           else mcs_swap_tail fuel tail old_tail' my_id))"

definition mcs_acquire_lock ::
  "nat \<Rightarrow> McsGlobalLockAlgorithm \<Rightarrow> NodeId \<Rightarrow> LockId \<Rightarrow> SharedMemoryRegion option \<Rightarrow> ShmOffset \<Rightarrow>
   LockResult prog"
where
  "mcs_acquire_lock fuel self node_id lock_id shm state_offset =
     (case shm of
        None \<Rightarrow> Ret ERROR_INVALID_PARAM
      | Some shm \<Rightarrow>
          if node_id = INVALID_NODE_ID then Ret ERROR_INVALID_PARAM
          else if lock_id \<ge> MAX_LOCK_COUNT then Ret ERROR_INVALID_PARAM
          else if node_id \<ge> mcs_node_count self then Ret ERROR_INVALID_PARAM
          else
            deref (mcs_get_node node_id shm state_offset) (\<lambda>node.
              seq (plain_store (node + mcs_next_node) INVALID_NODE_ID)
              (seq (plain_store (node + mcs_locked) 1)
              (seq (plain_store (node + mcs_waiting_lock) lock_id)
              (seq (flush_cache shm node 64)
            (deref (mcs_get_entry lock_id shm state_offset) (\<lambda>entry.
            bind (mcs_swap_tail fuel (entry + mcs_tail_node) INVALID_NODE_ID node_id) (\<lambda>old_tail.
              if old_tail = INVALID_NODE_ID then
                seq (atomic_store (entry + mcs_head_node) node_id)
                (seq (flush_cache shm entry 64)
                (seq memory_fence (Ret SUCCESS)))
              else
                deref (mcs_get_node old_tail shm state_offset) (\<lambda>pred.
                  seq (atomic_store (pred + mcs_next_node) node_id)
                  (seq (flush_cache shm pred 64)
                  (seq memory_fence (Ret SUCCESS))))))))))))"

text \<open>\<open>while ((succ = node->next_node) == INVALID_NODE_ID) {}\<close>\<close>

fun mcs_await_next :: "nat \<Rightarrow> ptr \<Rightarrow> u32 prog" where
  "mcs_await_next 0 next = OutOfFuel"
| "mcs_await_next (Suc fuel) next =
     bind (atomic_load next) (\<lambda>succ.
       if succ = INVALID_NODE_ID then mcs_await_next fuel next else Ret succ)"

text \<open>Steps 3 and 4 of \<open>release_lock\<close>: pass the lock to the successor, reset the own node.\<close>

definition mcs_pass_lock ::
  "SharedMemoryRegion \<Rightarrow> ShmOffset \<Rightarrow> ptr \<Rightarrow> ptr \<Rightarrow> u32 \<Rightarrow> LockResult prog"
where
  "mcs_pass_lock shm state_offset node entry succ =
     seq (atomic_store (entry + mcs_head_node) succ)
     (seq (atomic_store (entry + mcs_owner_node) succ)
     (deref (mcs_get_node succ shm state_offset) (\<lambda>succ_node.
       seq (atomic_store (succ_node + mcs_locked) 0)
       (seq (flush_cache shm succ_node 64)
       (seq (flush_cache shm entry 64)
       (seq (plain_store (node + mcs_next_node) INVALID_NODE_ID)
       (seq (plain_store (node + mcs_locked) 0)
       (seq (plain_store (node + mcs_waiting_lock) INVALID_LOCK_ID)
       (seq (flush_cache shm node 64)
       (seq memory_fence (Ret SUCCESS)))))))))))"

definition mcs_release_lock ::
  "nat \<Rightarrow> McsGlobalLockAlgorithm \<Rightarrow> NodeId \<Rightarrow> LockId \<Rightarrow> SharedMemoryRegion option \<Rightarrow> ShmOffset \<Rightarrow>
   LockResult prog"
where
  "mcs_release_lock fuel self node_id lock_id shm state_offset =
     (case shm of
        None \<Rightarrow> Ret ERROR_INVALID_PARAM
      | Some shm \<Rightarrow>
          if node_id = INVALID_NODE_ID then Ret ERROR_INVALID_PARAM
          else if lock_id \<ge> MAX_LOCK_COUNT then Ret ERROR_INVALID_PARAM
          else if node_id \<ge> mcs_node_count self then Ret ERROR_INVALID_PARAM
          else
            deref (mcs_get_node node_id shm state_offset) (\<lambda>node.
            deref (mcs_get_entry lock_id shm state_offset) (\<lambda>entry.
            bind (atomic_load (entry + mcs_owner_node)) (\<lambda>owner.
              if owner \<noteq> node_id then Ret ERROR_NOT_OWNER
              else
            bind (atomic_load (node + mcs_next_node)) (\<lambda>succ.
              if succ = INVALID_NODE_ID then
                bind (compare_exchange (entry + mcs_tail_node) node_id INVALID_NODE_ID) (\<lambda>is_last.
                  if is_last then
                    seq (atomic_store (entry + mcs_head_node) INVALID_NODE_ID)
                    (seq (atomic_store (entry + mcs_owner_node) INVALID_NODE_ID)
                    (seq (flush_cache shm entry 64)
                    (seq (plain_store (node + mcs_next_node) INVALID_NODE_ID)
                    (seq (plain_store (node + mcs_locked) 0)
                    (seq (plain_store (node + mcs_waiting_lock) INVALID_LOCK_ID)
                    (seq (flush_cache shm node 64)
                    (seq memory_fence (Ret SUCCESS))))))))
                  else
                    bind (mcs_await_next fuel (node + mcs_next_node)) (\<lambda>succ.
                      mcs_pass_lock shm state_offset node entry succ))
              else mcs_pass_lock shm state_offset node entry succ)))))"

definition mcs_check_grant ::
  "LockId \<Rightarrow> SharedMemoryRegion option \<Rightarrow> ShmOffset \<Rightarrow> u32 \<Rightarrow> NodeId prog"
where
  "mcs_check_grant lock_id shm state_offset node_count =
     (case shm of
        None \<Rightarrow> Ret INVALID_NODE_ID
      | Some shm \<Rightarrow>
          if node_count = 0 then Ret INVALID_NODE_ID
          else if lock_id \<ge> MAX_LOCK_COUNT then Ret INVALID_NODE_ID
          else
            deref (mcs_get_entry lock_id shm state_offset) (\<lambda>entry.
            bind (atomic_load (entry + mcs_owner_node)) (\<lambda>owner.
              if owner \<noteq> INVALID_NODE_ID then Ret INVALID_NODE_ID
              else
            bind (atomic_load (entry + mcs_head_node)) (\<lambda>head.
              if head = INVALID_NODE_ID then Ret INVALID_NODE_ID
              else if head \<ge> node_count then Ret INVALID_NODE_ID
              else
            deref (mcs_get_node head shm state_offset) (\<lambda>head_node.
            bind (atomic_load (head_node + mcs_locked)) (\<lambda>lckd.
            bind (atomic_load (head_node + mcs_waiting_lock)) (\<lambda>waiting.
              if lckd = 1 \<and> waiting = lock_id then Ret head
              else Ret INVALID_NODE_ID)))))))"

definition mcs_grant_lock ::
  "McsGlobalLockAlgorithm \<Rightarrow> NodeId \<Rightarrow> LockId \<Rightarrow> SharedMemoryRegion option \<Rightarrow> ShmOffset \<Rightarrow>
   LockResult prog"
where
  "mcs_grant_lock self node_id lock_id shm state_offset =
     (case shm of
        None \<Rightarrow> Ret ERROR_INVALID_PARAM
      | Some shm \<Rightarrow>
          if node_id = INVALID_NODE_ID then Ret ERROR_INVALID_PARAM
          else if lock_id \<ge> MAX_LOCK_COUNT then Ret ERROR_INVALID_PARAM
          else if node_id \<ge> mcs_node_count self then Ret ERROR_INVALID_PARAM
          else
            deref (mcs_get_node node_id shm state_offset) (\<lambda>node.
            deref (mcs_get_entry lock_id shm state_offset) (\<lambda>entry.
              seq (atomic_store (node + mcs_locked) 2)
              (seq (atomic_store (entry + mcs_owner_node) node_id)
              (seq (flush_cache shm node 64)
              (seq (flush_cache shm entry 64)
              (seq memory_fence (Ret SUCCESS))))))))"

definition mcs_get_name :: string where
  "mcs_get_name = ''MCSGlobalLock''"

section \<open>Addresses of the routines in the shared layout\<close>

lemma mcs_get_entry_ptr [layout_simps]:
  "lines_fit sh nc off \<Longrightarrow> l < MAX_LOCK_COUNT \<Longrightarrow> mcs_get_entry l sh off = Some (entry_ptr sh off l)"
  by (simp add: mcs_get_entry_def mcs_get_entry_offset_def entry_offset_to_ptr)

lemma mcs_get_node_ptr [layout_simps]:
  "lines_fit sh nc off \<Longrightarrow> n < nc \<Longrightarrow> mcs_get_node n sh off = Some (node_ptr sh off n)"
  by (simp add: mcs_get_node_def mcs_get_node_offset_def node_offset_to_ptr)

end
