(* ===== verification/Qspin_Lock.thy ===== *)
theory Qspin_Lock
  imports Line_Layout
begin

unbundle bit_operations_syntax

text \<open>
  \<open>QspinlockGlobalLockAlgorithm\<close> (\<open>include/qspinlock_global_lock.h\<close>,
  \<open>src/qspinlock_global_lock.cpp\<close>): a lock word with a locked bit and the tail of a queue,
  a fast path that takes a free lock in one compare-and-swap, and a slow path that joins the
  queue. This theory holds the encoding of the lock word, the data layout and the routines as
  access trees. The unbounded retry loop of \<open>acquire_lock\<close> carries fuel; the wait loop of
  \<open>release_lock\<close> has the source's own bound.
\<close>

section \<open>The lock word\<close>

definition qspin_locked :: "u32 \<Rightarrow> u32" where
  "qspin_locked word = word AND 1"

definition qspin_pending :: "u32 \<Rightarrow> u32" where
  "qspin_pending word = drop_bit 1 word AND 1"

definition qspin_tail_idx :: "u32 \<Rightarrow> u32" where
  "qspin_tail_idx word = drop_bit 2 word AND 0xFFFF"

definition qspin_set_tail :: "u32 \<Rightarrow> u32 \<Rightarrow> u32" where
  "qspin_set_tail old_word tail_idx = (old_word AND 3) OR push_bit 2 tail_idx"

definition qspin_tail_to_node :: "u32 \<Rightarrow> NodeId" where
  "qspin_tail_to_node tail_idx = (if tail_idx = 0 then INVALID_NODE_ID else tail_idx - 1)"

definition qspin_node_to_tail :: "NodeId \<Rightarrow> u32" where
  "qspin_node_to_tail node_id = node_id + 1"

text \<open>\<open>(my_tail << 2) | 0x1u\<close>\<close>

definition qspin_held_word :: "NodeId \<Rightarrow> u32" where
  "qspin_held_word node_id = push_bit 2 (qspin_node_to_tail node_id) OR 1"

section \<open>Data\<close>

record QspinlockEntry =
  lock_word :: u32
  qspin_owner :: u32
  pending_tail :: u32
  grant_in_progress :: u32

record QspinNode =
  qnext_node :: u32
  qlocked :: u32
  qwaiting_lock :: u32
  qmcs_tail :: u32

abbreviation (input) "qspin_lock_word \<equiv> (0 :: u64)"
abbreviation (input) "qspin_owner_node \<equiv> (4 :: u64)"
abbreviation (input) "qspin_pending_tail \<equiv> (8 :: u64)"
abbreviation (input) "qspin_grant_in_progress \<equiv> (12 :: u64)"
abbreviation (input) "qspin_next_node \<equiv> (0 :: u64)"
abbreviation (input) "qspin_node_locked \<equiv> (4 :: u64)"
abbreviation (input) "qspin_waiting_lock \<equiv> (8 :: u64)"
abbreviation (input) "qspin_mcs_tail \<equiv> (12 :: u64)"

definition qspin_entry :: "ShmOffset \<Rightarrow> mem \<Rightarrow> LockId \<Rightarrow> QspinlockEntry" where
  "qspin_entry off m l =
     \<lparr>lock_word = m (ecell off l qspin_lock_word), qspin_owner = m (ecell off l qspin_owner_node),
      pending_tail = m (ecell off l qspin_pending_tail),
      grant_in_progress = m (ecell off l qspin_grant_in_progress)\<rparr>"

definition qspin_node :: "ShmOffset \<Rightarrow> mem \<Rightarrow> NodeId \<Rightarrow> QspinNode" where
  "qspin_node off m n =
     \<lparr>qnext_node = m (ncell off n qspin_next_node), qlocked = m (ncell off n qspin_node_locked),
      qwaiting_lock = m (ncell off n qspin_waiting_lock), qmcs_tail = m (ncell off n qspin_mcs_tail)\<rparr>"

record QspinlockGlobalLockAlgorithm =
  qspin_node_count :: u32

section \<open>Addresses\<close>

definition qspin_get_state_size :: "u32 \<Rightarrow> u64" where
  "qspin_get_state_size node_count = ucast MAX_LOCK_COUNT * 64 + ucast node_count * 64"

definition qspin_get_entry_offset :: "LockId \<Rightarrow> ShmOffset \<Rightarrow> ShmOffset" where
  "qspin_get_entry_offset lock_id state_offset = state_offset + ucast lock_id * 64"

definition qspin_get_entry :: "LockId \<Rightarrow> SharedMemoryRegion \<Rightarrow> ShmOffset \<Rightarrow> ptr option" where
  "qspin_get_entry lock_id shm state_offset =
     offset_to_ptr shm (qspin_get_entry_offset lock_id state_offset)"

definition qspin_get_node_offset :: "NodeId \<Rightarrow> ShmOffset \<Rightarrow> ShmOffset" where
  "qspin_get_node_offset node_id state_offset =
     state_offset + ucast MAX_LOCK_COUNT * 64 + ucast node_id * 64"

definition qspin_get_node :: "NodeId \<Rightarrow> SharedMemoryRegion \<Rightarrow> ShmOffset \<Rightarrow> ptr option" where
  "qspin_get_node node_id shm state_offset =
     offset_to_ptr shm (qspin_get_node_offset node_id state_offset)"

section \<open>Initialisation\<close>

fun qspin_init_entries :: "SharedMemoryRegion \<Rightarrow> ShmOffset \<Rightarrow> LockId list \<Rightarrow> unit prog" where
  "qspin_init_entries shm off [] = Ret ()"
| "qspin_init_entries shm off (lid # lids) =
     deref (qspin_get_entry lid shm off) (\<lambda>entry.
       seq (plain_store (entry + qspin_lock_word) 0)
       (seq (plain_store (entry + qspin_owner_node) INVALID_NODE_ID)
       (seq (plain_store (entry + qspin_pending_tail) INVALID_NODE_ID)
       (seq (plain_store (entry + qspin_grant_in_progress) 0)
       (seq (flush_cache shm entry 64)
         (qspin_init_entries shm off lids))))))"

fun qspin_init_nodes :: "SharedMemoryRegion \<Rightarrow> ShmOffset \<Rightarrow> NodeId list \<Rightarrow> unit prog" where
  "qspin_init_nodes shm off [] = Ret ()"
| "qspin_init_nodes shm off (nid # nids) =
     deref (qspin_get_node nid shm off) (\<lambda>node.
       seq (plain_store (node + qspin_next_node) INVALID_NODE_ID)
       (seq (plain_store (node + qspin_node_locked) 0)
       (seq (plain_store (node + qspin_waiting_lock) INVALID_LOCK_ID)
       (seq (plain_store (node + qspin_mcs_tail) 0)
       (seq (flush_cache shm node 64)
         (qspin_init_nodes shm off nids))))))"

definition qspin_initialize ::
  "QspinlockGlobalLockAlgorithm \<Rightarrow> SharedMemoryRegion option \<Rightarrow> ShmOffset \<Rightarrow> u32 \<Rightarrow>
   (LockResult \<times> QspinlockGlobalLockAlgorithm) prog"
where
  "qspin_initialize self shm state_offset node_count =
     (case shm of
        None \<Rightarrow> Ret (ERROR_INVALID_PARAM, self)
      | Some shm \<Rightarrow>
          if node_count = 0 \<or> node_count > MAX_NODE_COUNT then Ret (ERROR_INVALID_PARAM, self)
          else
            let self' = self\<lparr>qspin_node_count := node_count\<rparr>;
                total_size = qspin_get_state_size node_count
            in deref (offset_to_ptr shm state_offset) (\<lambda>base.
                 seq (memset_zero base total_size)
                 (seq (qspin_init_entries shm state_offset (u32_upto MAX_LOCK_COUNT))
                 (seq (qspin_init_nodes shm state_offset (u32_upto node_count))
                 (seq memory_fence (Ret (SUCCESS, self')))))))"

section \<open>Acquiring\<close>

text \<open>
  Step 3 of \<open>acquire_lock\<close>: the retry loop that swaps the tail of the lock word, and what
  follows the swap that succeeds.
\<close>

fun qspin_join_queue ::
  "nat \<Rightarrow> SharedMemoryRegion \<Rightarrow> ShmOffset \<Rightarrow> NodeId \<Rightarrow> ptr \<Rightarrow> LockResult prog"
where
  "qspin_join_queue 0 shm off node_id entry = OutOfFuel"
| "qspin_join_queue (Suc fuel) shm off node_id entry =
     bind (atomic_load (entry + qspin_lock_word)) (\<lambda>old_word.
       let old_tail = qspin_tail_idx old_word;
           new_word = qspin_set_tail old_word (qspin_node_to_tail node_id)
       in bind (compare_exchange (entry + qspin_lock_word) old_word new_word) (\<lambda>ok.
            if ok then
              (if old_tail = 0 then
                 seq (plain_store (entry + qspin_pending_tail) node_id)
                 (seq (flush_cache shm (entry + qspin_pending_tail) 4)
                 (seq memory_fence (Ret SUCCESS)))
               else
                 deref (qspin_get_node (qspin_tail_to_node old_tail) shm off) (\<lambda>pred.
                   seq (plain_store (pred + qspin_next_node) node_id)
                   (seq (flush_cache shm (pred + qspin_next_node) 4)
                   (seq memory_fence (Ret SUCCESS)))))
            else qspin_join_queue fuel shm off node_id entry))"

definition qspin_acquire_lock ::
  "nat \<Rightarrow> QspinlockGlobalLockAlgorithm \<Rightarrow> NodeId \<Rightarrow> LockId \<Rightarrow> SharedMemoryRegion option \<Rightarrow>
   ShmOffset \<Rightarrow> LockResult prog"
where
  "qspin_acquire_lock fuel self node_id lock_id shm state_offset =
     (case shm of
        None \<Rightarrow> Ret ERROR_INVALID_PARAM
      | Some shm \<Rightarrow>
          if node_id = INVALID_NODE_ID then Ret ERROR_INVALID_PARAM
          else if node_id \<ge> qspin_node_count self then Ret ERROR_INVALID_PARAM
          else if lock_id \<ge> MAX_LOCK_COUNT then Ret ERROR_INVALID_PARAM
          else
            deref (qspin_get_node node_id shm state_offset) (\<lambda>node.
            deref (qspin_get_entry lock_id shm state_offset) (\<lambda>entry.
              seq (plain_store (node + qspin_next_node) INVALID_NODE_ID)
              (seq (plain_store (node + qspin_node_locked) 1)
              (seq (plain_store (node + qspin_waiting_lock) lock_id)
              (seq (flush_cache shm node 64)
              (seq memory_fence
              (bind (compare_exchange (entry + qspin_lock_word) 0 (qspin_held_word node_id)) (\<lambda>fast.
                 if fast then
                   seq (plain_store (node + qspin_node_locked) 2)
                   (seq (plain_store (entry + qspin_owner_node) node_id)
                   (seq (plain_store (entry + qspin_pending_tail) node_id)
                   (seq (flush_cache shm (entry + qspin_owner_node) 4)
                   (seq (flush_cache shm (entry + qspin_pending_tail) 4)
                   (seq (flush_cache shm node 64)
                   (seq memory_fence (Ret SUCCESS)))))))
                 else qspin_join_queue fuel shm state_offset node_id entry)))))))))"

section \<open>Releasing\<close>

text \<open>
  The wait for the successor: \<open>n\<close> is the number of rounds left. The source leaves the loop
  in the round in which \<open>++spin_count > 1000000\<close>, the 1000001st.
\<close>

definition qspin_spin_limit :: nat where
  "qspin_spin_limit = 1000001"

fun qspin_await_next :: "nat \<Rightarrow> SharedMemoryRegion \<Rightarrow> ptr \<Rightarrow> unit prog" where
  "qspin_await_next 0 shm node = Ret ()"
| "qspin_await_next (Suc n) shm node =
     bind (plain_load (node + qspin_next_node)) (\<lambda>next.
       if next = INVALID_NODE_ID then
         seq (invalidate_cache shm (node + qspin_next_node) 4) (qspin_await_next n shm node)
       else Ret ())"

definition qspin_reset_node :: "SharedMemoryRegion \<Rightarrow> ptr \<Rightarrow> LockResult prog" where
  "qspin_reset_node shm node =
     seq (plain_store (node + qspin_next_node) INVALID_NODE_ID)
     (seq (plain_store (node + qspin_node_locked) 0)
     (seq (plain_store (node + qspin_waiting_lock) INVALID_LOCK_ID)
     (seq (flush_cache shm node 64)
     (seq memory_fence (Ret SUCCESS)))))"

text \<open>Step 2 of \<open>release_lock\<close>: pass the lock to the successor.\<close>

definition qspin_pass_lock ::
  "SharedMemoryRegion \<Rightarrow> ShmOffset \<Rightarrow> ptr \<Rightarrow> ptr \<Rightarrow> LockResult prog"
where
  "qspin_pass_lock shm state_offset node entry =
     bind (plain_load (node + qspin_next_node)) (\<lambda>succ_id.
     deref (qspin_get_node succ_id shm state_offset) (\<lambda>succ.
       seq (plain_store (entry + qspin_pending_tail) succ_id)
       (seq (plain_store (entry + qspin_owner_node) succ_id)
       (seq (atomic_store (entry + qspin_lock_word) (qspin_held_word succ_id))
       (seq (flush_cache shm (entry + qspin_lock_word) 4)
       (seq (flush_cache shm (entry + qspin_pending_tail) 4)
       (seq (flush_cache shm (entry + qspin_owner_node) 4)
       (seq (plain_store (succ + qspin_node_locked) 2)
       (seq (flush_cache shm (succ + qspin_node_locked) 4)
         (qspin_reset_node shm node))))))))))"

text \<open>
  What \<open>release_lock\<close> does when no successor is linked: try to empty the lock word, else wait
  for the successor, else give up (\<open>force release\<close>).
\<close>

definition qspin_release_last ::
  "SharedMemoryRegion \<Rightarrow> ShmOffset \<Rightarrow> NodeId \<Rightarrow> ptr \<Rightarrow> ptr \<Rightarrow> LockResult prog"
where
  "qspin_release_last shm state_offset node_id node entry =
     bind (atomic_load (entry + qspin_lock_word)) (\<lambda>old_word.
       let my_tail_idx = qspin_node_to_tail node_id;
           cur_tail = qspin_tail_idx old_word;
           new_word = (if cur_tail = my_tail_idx then 0 else old_word)
       in bind (compare_exchange (entry + qspin_lock_word) old_word new_word) (\<lambda>ok.
            if ok \<and> cur_tail = my_tail_idx then
              seq (plain_store (entry + qspin_pending_tail) INVALID_NODE_ID)
              (seq (plain_store (entry + qspin_owner_node) INVALID_NODE_ID)
              (seq (flush_cache shm entry 64)
                (qspin_reset_node shm node)))
            else
              seq (qspin_await_next qspin_spin_limit shm node)
              (bind (plain_load (node + qspin_next_node)) (\<lambda>next.
                 if next = INVALID_NODE_ID then
                   seq (plain_store (entry + qspin_owner_node) INVALID_NODE_ID)
                   (seq (flush_cache shm (entry + qspin_owner_node) 4)
                   (seq (plain_store (node + qspin_node_locked) 0)
                   (seq (plain_store (node + qspin_waiting_lock) INVALID_LOCK_ID)
                   (seq (flush_cache shm node 64)
                   (seq memory_fence (Ret SUCCESS))))))
                 else qspin_pass_lock shm state_offset node entry))))"

definition qspin_release_lock ::
  "QspinlockGlobalLockAlgorithm \<Rightarrow> NodeId \<Rightarrow> LockId \<Rightarrow> SharedMemoryRegion option \<Rightarrow> ShmOffset \<Rightarrow>
   LockResult prog"
where
  "qspin_release_lock self node_id lock_id shm state_offset =
     (case shm of
        None \<Rightarrow> Ret ERROR_INVALID_PARAM
      | Some shm \<Rightarrow>
          if node_id = INVALID_NODE_ID then Ret ERROR_INVALID_PARAM
          else if node_id \<ge> qspin_node_count self then Ret ERROR_INVALID_PARAM
          else if lock_id \<ge> MAX_LOCK_COUNT then Ret ERROR_INVALID_PARAM
          else
            deref (qspin_get_node node_id shm state_offset) (\<lambda>node.
            deref (qspin_get_entry lock_id shm state_offset) (\<lambda>entry.
            bind (atomic_load (entry + qspin_owner_node)) (\<lambda>owner.
              if owner \<noteq> node_id then Ret ERROR_NOT_OWNER
              else
            bind (plain_load (node + qspin_next_node)) (\<lambda>next.
              if next = INVALID_NODE_ID
              then qspin_release_last shm state_offset node_id node entry
              else qspin_pass_lock shm state_offset node entry)))))"

section \<open>The lock manager's part\<close>

definition qspin_check_grant ::
  "LockId \<Rightarrow> SharedMemoryRegion option \<Rightarrow> ShmOffset \<Rightarrow> u32 \<Rightarrow> NodeId prog"
where
  "qspin_check_grant lock_id shm state_offset node_count =
     (case shm of
        None \<Rightarrow> Ret INVALID_NODE_ID
      | Some shm \<Rightarrow>
          if node_count = 0 then Ret INVALID_NODE_ID
          else if lock_id \<ge> MAX_LOCK_COUNT then Ret INVALID_NODE_ID
          else
            deref (qspin_get_entry lock_id shm state_offset) (\<lambda>entry.
            bind (atomic_load (entry + qspin_lock_word)) (\<lambda>word.
              if qspin_locked word \<noteq> 0 then Ret INVALID_NODE_ID
              else if qspin_tail_idx word = 0 then Ret INVALID_NODE_ID
              else
            bind (atomic_load (entry + qspin_grant_in_progress)) (\<lambda>gip.
              if gip \<noteq> 0 then Ret INVALID_NODE_ID
              else
            bind (atomic_load (entry + qspin_pending_tail)) (\<lambda>head.
              if head = INVALID_NODE_ID \<or> head \<ge> node_count then Ret INVALID_NODE_ID
              else
            deref (qspin_get_node head shm state_offset) (\<lambda>head_node.
            bind (atomic_load (head_node + qspin_node_locked)) (\<lambda>head_locked.
            bind (atomic_load (head_node + qspin_waiting_lock)) (\<lambda>head_wait_lock.
              if head_locked \<noteq> 1 \<or> head_wait_lock \<noteq> lock_id then Ret INVALID_NODE_ID
              else
                seq (atomic_store (entry + qspin_grant_in_progress) 1)
                (seq (flush_cache shm (entry + qspin_grant_in_progress) 4)
                (Ret head))))))))))"

definition qspin_grant_lock ::
  "QspinlockGlobalLockAlgorithm \<Rightarrow> NodeId \<Rightarrow> LockId \<Rightarrow> SharedMemoryRegion option \<Rightarrow> ShmOffset \<Rightarrow>
   LockResult prog"
where
  "qspin_grant_lock self node_id lock_id shm state_offset =
     (case shm of
        None \<Rightarrow> Ret ERROR_INVALID_PARAM
      | Some shm \<Rightarrow>
          if node_id = INVALID_NODE_ID then Ret ERROR_INVALID_PARAM
          else if node_id \<ge> qspin_node_count self then Ret ERROR_INVALID_PARAM
          else if lock_id \<ge> MAX_LOCK_COUNT then Ret ERROR_INVALID_PARAM
          else
            deref (qspin_get_entry lock_id shm state_offset) (\<lambda>entry.
            deref (qspin_get_node node_id shm state_offset) (\<lambda>node.
              seq (plain_store (node + qspin_node_locked) 2)
              (seq (flush_cache shm (node + qspin_node_locked) 4)
              (seq (plain_store (entry + qspin_owner_node) node_id)
              (seq (atomic_store (entry + qspin_lock_word) (qspin_held_word node_id))
              (seq (flush_cache shm (entry + qspin_lock_word) 4)
              (seq (flush_cache shm (entry + qspin_owner_node) 4)
              (bind (plain_load (node + qspin_next_node)) (\<lambda>next_head.
                 seq (plain_store (entry + qspin_pending_tail) next_head)
                 (seq (flush_cache shm (entry + qspin_pending_tail) 4)
                 (seq memory_fence
                 (seq (plain_store (entry + qspin_grant_in_progress) 0)
                 (seq (flush_cache shm (entry + qspin_grant_in_progress) 4)
                 (Ret SUCCESS)))))))))))))))"

definition qspin_get_name :: string where
  "qspin_get_name = ''QspinlockGlobalLock''"

section \<open>Addresses of the routines in the shared layout\<close>

lemma qspin_get_entry_ptr [layout_simps]:
  "lines_fit sh nc off \<Longrightarrow> l < MAX_LOCK_COUNT \<Longrightarrow> qspin_get_entry l sh off = Some (entry_ptr sh off l)"
  by (simp add: qspin_get_entry_def qspin_get_entry_offset_def entry_offset_to_ptr)

lemma qspin_get_node_ptr [layout_simps]:
  "lines_fit sh nc off \<Longrightarrow> n < nc \<Longrightarrow> qspin_get_node n sh off = Some (node_ptr sh off n)"
  by (simp add: qspin_get_node_def qspin_get_node_offset_def node_offset_to_ptr)

end
