(* ===== verification/Lock_Interface.thy ===== *)
theory Lock_Interface
  imports Cas_Lock Faa_Lock Mcs_Lock Qspin_Lock
begin

text \<open>
  The abstract class \<open>GlobalLockAlgorithm\<close> of \<open>include/lock_interface.h\<close> over the four classes
  that implement it: an object is a value of the sum of their records, a virtual call is a
  case distinction on it, \<open>dynamic_cast\<close> is the test of the constructor. Fuel goes to the
  routines with an unbounded loop.
\<close>

datatype GlobalLockAlgorithm =
    CasAlgorithm CasGlobalLockAlgorithm
  | FaaAlgorithm FaaGlobalLockAlgorithm
  | McsAlgorithm McsGlobalLockAlgorithm
  | QspinAlgorithm QspinlockGlobalLockAlgorithm

text \<open>Default-constructed objects (\<open>node_count_ = 0\<close>).\<close>

definition new_cas :: GlobalLockAlgorithm where
  "new_cas = CasAlgorithm \<lparr>cas_node_count = 0\<rparr>"

definition new_faa :: GlobalLockAlgorithm where
  "new_faa = FaaAlgorithm \<lparr>faa_node_count = 0\<rparr>"

definition new_mcs :: GlobalLockAlgorithm where
  "new_mcs = McsAlgorithm \<lparr>mcs_node_count = 0\<rparr>"

definition new_qspin :: GlobalLockAlgorithm where
  "new_qspin = QspinAlgorithm \<lparr>qspin_node_count = 0\<rparr>"

definition alg_initialize ::
  "GlobalLockAlgorithm \<Rightarrow> SharedMemoryRegion option \<Rightarrow> ShmOffset \<Rightarrow> u32 \<Rightarrow>
   (LockResult \<times> GlobalLockAlgorithm) prog"
where
  "alg_initialize alg shm off nc =
     (case alg of
        CasAlgorithm a \<Rightarrow> bind (cas_initialize a shm off nc) (\<lambda>(rc, a'). Ret (rc, CasAlgorithm a'))
      | FaaAlgorithm a \<Rightarrow> bind (faa_initialize a shm off nc) (\<lambda>(rc, a'). Ret (rc, FaaAlgorithm a'))
      | McsAlgorithm a \<Rightarrow> bind (mcs_initialize a shm off nc) (\<lambda>(rc, a'). Ret (rc, McsAlgorithm a'))
      | QspinAlgorithm a \<Rightarrow>
          bind (qspin_initialize a shm off nc) (\<lambda>(rc, a'). Ret (rc, QspinAlgorithm a')))"

definition alg_acquire_lock ::
  "nat \<Rightarrow> GlobalLockAlgorithm \<Rightarrow> NodeId \<Rightarrow> LockId \<Rightarrow> SharedMemoryRegion option \<Rightarrow> ShmOffset \<Rightarrow>
   LockResult prog"
where
  "alg_acquire_lock fuel alg n l shm off =
     (case alg of
        CasAlgorithm a \<Rightarrow> cas_acquire_lock a n l shm off
      | FaaAlgorithm a \<Rightarrow> faa_acquire_lock a n l shm off
      | McsAlgorithm a \<Rightarrow> mcs_acquire_lock fuel a n l shm off
      | QspinAlgorithm a \<Rightarrow> qspin_acquire_lock fuel a n l shm off)"

definition alg_release_lock ::
  "nat \<Rightarrow> GlobalLockAlgorithm \<Rightarrow> NodeId \<Rightarrow> LockId \<Rightarrow> SharedMemoryRegion option \<Rightarrow> ShmOffset \<Rightarrow>
   LockResult prog"
where
  "alg_release_lock fuel alg n l shm off =
     (case alg of
        CasAlgorithm a \<Rightarrow> cas_release_lock a n l shm off
      | FaaAlgorithm a \<Rightarrow> faa_release_lock a n l shm off
      | McsAlgorithm a \<Rightarrow> mcs_release_lock fuel a n l shm off
      | QspinAlgorithm a \<Rightarrow> qspin_release_lock a n l shm off)"

definition alg_check_grant ::
  "GlobalLockAlgorithm \<Rightarrow> LockId \<Rightarrow> SharedMemoryRegion option \<Rightarrow> ShmOffset \<Rightarrow> u32 \<Rightarrow> NodeId prog"
where
  "alg_check_grant alg l shm off nc =
     (case alg of
        CasAlgorithm a \<Rightarrow> cas_check_grant l shm off nc
      | FaaAlgorithm a \<Rightarrow> faa_check_grant l shm off nc
      | McsAlgorithm a \<Rightarrow> mcs_check_grant l shm off nc
      | QspinAlgorithm a \<Rightarrow> qspin_check_grant l shm off nc)"

definition alg_grant_lock ::
  "GlobalLockAlgorithm \<Rightarrow> NodeId \<Rightarrow> LockId \<Rightarrow> SharedMemoryRegion option \<Rightarrow> ShmOffset \<Rightarrow>
   LockResult prog"
where
  "alg_grant_lock alg n l shm off =
     (case alg of
        CasAlgorithm a \<Rightarrow> cas_grant_lock a n l shm off
      | FaaAlgorithm a \<Rightarrow> faa_grant_lock a n l shm off
      | McsAlgorithm a \<Rightarrow> mcs_grant_lock a n l shm off
      | QspinAlgorithm a \<Rightarrow> qspin_grant_lock a n l shm off)"

definition alg_get_state_size :: "GlobalLockAlgorithm \<Rightarrow> u32 \<Rightarrow> u64" where
  "alg_get_state_size alg nc =
     (case alg of
        CasAlgorithm a \<Rightarrow> cas_get_state_size nc
      | FaaAlgorithm a \<Rightarrow> faa_get_state_size nc
      | McsAlgorithm a \<Rightarrow> mcs_get_state_size nc
      | QspinAlgorithm a \<Rightarrow> qspin_get_state_size nc)"

definition alg_get_name :: "GlobalLockAlgorithm \<Rightarrow> string" where
  "alg_get_name alg =
     (case alg of
        CasAlgorithm a \<Rightarrow> cas_get_name
      | FaaAlgorithm a \<Rightarrow> faa_get_name
      | McsAlgorithm a \<Rightarrow> mcs_get_name
      | QspinAlgorithm a \<Rightarrow> qspin_get_name)"

end
