(* ===== verification/Lock_Manager.thy ===== *)
theory Lock_Manager
  imports Lock_Interface
begin

text \<open>
  \<open>LockManager\<close> (\<open>include/lock_manager.h\<close>, \<open>src/lock_manager.cpp\<close>): the record of its
  members, the life cycle (initialize, start, stop), one scan over all locks as an access
  tree, the main loop and the statistics. The worker thread is the flag
  \<open>lm_worker_joinable\<close>; atomics that only this object uses are plain fields.
\<close>

section \<open>State\<close>

record Stats =
  grants_total :: u64
  grants_by_lock :: "u64 list"
  scan_cycles :: u64
  idle_cycles :: u64

definition new_stats :: Stats where
  "new_stats = \<lparr>grants_total = 0, grants_by_lock = replicate (unat MAX_LOCK_COUNT) 0,
     scan_cycles = 0, idle_cycles = 0\<rparr>"

record LockManager =
  lm_shm :: "SharedMemoryRegion option"
  lm_algorithm :: "GlobalLockAlgorithm option"
  lm_max_locks :: u32
  lm_node_count :: u32
  lm_scan_interval_us :: u32
  lm_state_offset :: ShmOffset
  lm_running :: bool
  lm_stop_requested :: bool
  lm_worker_joinable :: bool
  lm_stats :: Stats
  lm_initialized :: bool
  lm_is_manager :: bool

definition new_lock_manager :: LockManager where
  "new_lock_manager =
     \<lparr>lm_shm = None, lm_algorithm = None, lm_max_locks = 0, lm_node_count = 0,
      lm_scan_interval_us = 100, lm_state_offset = 0, lm_running = False,
      lm_stop_requested = False, lm_worker_joinable = False, lm_stats = new_stats,
      lm_initialized = False, lm_is_manager = False\<rparr>"

section \<open>Life cycle\<close>

definition lm_acquire_manager_role :: "LockManager \<Rightarrow> bool" where
  "lm_acquire_manager_role lm = True"

definition lm_initialize ::
  "LockManager \<Rightarrow> SharedMemoryRegion option \<Rightarrow> GlobalLockAlgorithm option \<Rightarrow> u32 \<Rightarrow> u32 \<Rightarrow> u32 \<Rightarrow>
   (LockResult \<times> LockManager) prog"
where
  "lm_initialize lm shm algorithm max_locks node_count scan_interval_us =
     (if shm = None \<or> algorithm = None then Ret (ERROR_INVALID_PARAM, lm)
      else if max_locks = 0 \<or> max_locks > MAX_LOCK_COUNT then Ret (ERROR_INVALID_PARAM, lm)
      else if node_count = 0 \<or> node_count > MAX_NODE_COUNT then Ret (ERROR_INVALID_PARAM, lm)
      else if lm_initialized lm then Ret (ERROR_UNKNOWN, lm)
      else
        let lm1 = lm\<lparr>lm_shm := shm, lm_algorithm := algorithm, lm_max_locks := max_locks,
                     lm_node_count := node_count, lm_scan_interval_us := scan_interval_us,
                     lm_state_offset := 0\<rparr>
        in bind (alg_initialize (the algorithm) shm 0 node_count) (\<lambda>(rc, alg').
             let lm2 = lm1\<lparr>lm_algorithm := Some alg'\<rparr>
             in if rc \<noteq> SUCCESS then Ret (rc, lm2)
                else
                  let lm3 = lm2\<lparr>lm_initialized := True\<rparr>
                  in if \<not> lm_acquire_manager_role lm3 then Ret (SUCCESS, lm3)
                     else Ret (SUCCESS, lm3\<lparr>lm_is_manager := True\<rparr>)))"

definition lm_start :: "LockManager \<Rightarrow> LockResult \<times> LockManager" where
  "lm_start lm =
     (if \<not> lm_initialized lm then (ERROR_LOCK_NOT_INITIALIZED, lm)
      else if lm_running lm then (ERROR_UNKNOWN, lm)
      else if \<not> lm_is_manager lm then (ERROR_NOT_OWNER, lm)
      else (SUCCESS, lm\<lparr>lm_stop_requested := False, lm_running := True, lm_worker_joinable := True\<rparr>))"

definition lm_stop :: "LockManager \<Rightarrow> LockResult \<times> LockManager" where
  "lm_stop lm =
     (if \<not> lm_running lm then (ERROR_LOCK_NOT_INITIALIZED, lm)
      else (SUCCESS, lm\<lparr>lm_stop_requested := True, lm_worker_joinable := False, lm_running := False\<rparr>))"

text \<open>Giving the role back does nothing; the destructor stops a running manager.\<close>

definition lm_release_manager_role :: "LockManager \<Rightarrow> LockManager" where
  "lm_release_manager_role lm = lm"

definition lm_destroy :: "LockManager \<Rightarrow> LockManager" where
  "lm_destroy lm = (if lm_running lm then snd (lm_stop lm) else lm)"

definition lm_is_running :: "LockManager \<Rightarrow> bool" where
  "lm_is_running lm = lm_running lm"

definition lm_get_stats :: "LockManager \<Rightarrow> Stats" where
  "lm_get_stats lm = lm_stats lm"

definition lm_reset_stats :: "LockManager \<Rightarrow> LockManager" where
  "lm_reset_stats lm = lm\<lparr>lm_stats := new_stats\<rparr>"

definition lm_get_algorithm_name :: "LockManager \<Rightarrow> string" where
  "lm_get_algorithm_name lm =
     (case lm_algorithm lm of Some alg \<Rightarrow> alg_get_name alg | None \<Rightarrow> ''<none>'')"

section \<open>Scanning\<close>

definition count_grant :: "LockId \<Rightarrow> Stats \<Rightarrow> Stats" where
  "count_grant lid st =
     st\<lparr>grants_total := grants_total st + 1,
        grants_by_lock := (grants_by_lock st)[unat lid := grants_by_lock st ! unat lid + 1]\<rparr>"

text \<open>
  The body of the loop of \<open>run_single_scan\<close> over the locks that are left: check, grant,
  count. The result is \<open>any_work\<close> and the statistics.
\<close>

fun scan_locks ::
  "GlobalLockAlgorithm \<Rightarrow> SharedMemoryRegion option \<Rightarrow> ShmOffset \<Rightarrow> u32 \<Rightarrow> LockId list \<Rightarrow>
   bool \<Rightarrow> Stats \<Rightarrow> (bool \<times> Stats) prog"
where
  "scan_locks alg shm off nc [] any_work st = Ret (any_work, st)"
| "scan_locks alg shm off nc (lid # lids) any_work st =
     bind (alg_check_grant alg lid shm off nc) (\<lambda>grantee.
       if grantee \<noteq> INVALID_NODE_ID then
         bind (alg_grant_lock alg grantee lid shm off) (\<lambda>rc.
           if rc = SUCCESS then scan_locks alg shm off nc lids True (count_grant lid st)
           else scan_locks alg shm off nc lids any_work st)
       else scan_locks alg shm off nc lids any_work st)"

text \<open>A call through the null \<open>algorithm_\<close> of an uninitialised manager crashes.\<close>

definition run_single_scan :: "LockManager \<Rightarrow> LockManager prog" where
  "run_single_scan lm =
     (case lm_algorithm lm of
        None \<Rightarrow>
          (if lm_max_locks lm = 0 then
             Ret (lm\<lparr>lm_stats := (lm_stats lm)\<lparr>scan_cycles := scan_cycles (lm_stats lm) + 1,
                                             idle_cycles := idle_cycles (lm_stats lm) + 1\<rparr>\<rparr>)
           else Crash)
      | Some alg \<Rightarrow>
          bind (scan_locks alg (lm_shm lm) (lm_state_offset lm) (lm_node_count lm)
                  (u32_upto (lm_max_locks lm)) False (lm_stats lm)) (\<lambda>(any_work, st).
            let st1 = st\<lparr>scan_cycles := scan_cycles st + 1\<rparr>;
                st2 = (if \<not> any_work then st1\<lparr>idle_cycles := idle_cycles st1 + 1\<rparr> else st1)
            in Ret (lm\<lparr>lm_stats := st2\<rparr>)))"

text \<open>
  The main loop. \<open>stop i\<close> is the value of \<open>stop_requested_\<close> at the \<open>i\<close>-th test; sleeping has
  no effect on the state.
\<close>

fun lm_run :: "nat \<Rightarrow> (nat \<Rightarrow> bool) \<Rightarrow> nat \<Rightarrow> LockManager \<Rightarrow> LockManager prog" where
  "lm_run 0 stop i lm = OutOfFuel"
| "lm_run (Suc fuel) stop i lm =
     (if stop i then Ret lm
      else bind (run_single_scan lm) (\<lambda>lm'. lm_run fuel stop (Suc i) lm'))"

text \<open>The members of the lock manager after a successful \<open>initialize\<close>.\<close>

definition manager_ready ::
  "GlobalLockAlgorithm \<Rightarrow> SharedMemoryRegion \<Rightarrow> u32 \<Rightarrow> ShmOffset \<Rightarrow> LockManager \<Rightarrow> bool"
where
  "manager_ready alg sh nc off lm \<longleftrightarrow>
     lm_algorithm lm = Some alg \<and> lm_shm lm = Some sh \<and> lm_node_count lm = nc \<and>
     lm_state_offset lm = off \<and> lm_max_locks lm \<le> MAX_LOCK_COUNT"

end
