(* ===== verification/Local_Lock.thy ===== *)
theory Local_Lock
  imports Lock_Types
begin

text \<open>
  \<open>LocalLockArray\<close> (\<open>include/local_lock.h\<close>, \<open>src/local_lock.cpp\<close>): the array of mutexes in
  local DRAM. The mutexes have type \<open>PTHREAD_MUTEX_ERRORCHECK\<close>; their behaviour is that of
  POSIX: \<open>lock\<close> fails with \<open>EDEADLK\<close> when the caller is the owner and blocks when another
  thread is, \<open>trylock\<close> fails with \<open>EBUSY\<close> whenever the mutex is locked, by any thread,
  \<open>unlock\<close> fails with \<open>EPERM\<close> unless the caller is the owner.
\<close>

section \<open>Error-checking mutexes\<close>

type_synonym thread = nat
type_synonym mutex = "thread option"

datatype errno = OK | EBUSY | EPERM | EDEADLK

text \<open>\<open>None\<close>: the call does not return, the caller is blocked.\<close>

definition pthread_mutex_lock :: "thread \<Rightarrow> mutex \<Rightarrow> (errno \<times> mutex) option" where
  "pthread_mutex_lock t m =
     (case m of
        None \<Rightarrow> Some (OK, Some t)
      | Some t' \<Rightarrow> if t' = t then Some (EDEADLK, m) else None)"

definition pthread_mutex_trylock :: "thread \<Rightarrow> mutex \<Rightarrow> errno \<times> mutex" where
  "pthread_mutex_trylock t m = (case m of None \<Rightarrow> (OK, Some t) | Some _ \<Rightarrow> (EBUSY, m))"

definition pthread_mutex_unlock :: "thread \<Rightarrow> mutex \<Rightarrow> errno \<times> mutex" where
  "pthread_mutex_unlock t m = (if m = Some t then (OK, None) else (EPERM, m))"

section \<open>The array\<close>

record LocalLockArray =
  ll_mutexes :: "mutex list"
  ll_lock_count :: u32
  ll_initialized :: bool

definition new_local_locks :: LocalLockArray where
  "new_local_locks = \<lparr>ll_mutexes = [], ll_lock_count = 0, ll_initialized = False\<rparr>"

text \<open>
  \<open>alloc\<close> is whether the allocation succeeds, \<open>mutex_init i\<close> whether \<open>pthread_mutex_init\<close> does
  for the \<open>i\<close>-th mutex; on the first failure all mutexes are destroyed again.
\<close>

definition ll_initialize ::
  "bool \<Rightarrow> (nat \<Rightarrow> bool) \<Rightarrow> u32 \<Rightarrow> LocalLockArray \<Rightarrow> LockResult \<times> LocalLockArray"
where
  "ll_initialize alloc mutex_init count ll =
     (if count = 0 \<or> count > MAX_LOCK_COUNT then (ERROR_INVALID_PARAM, ll)
      else if ll_initialized ll then (ERROR_UNKNOWN, ll)
      else if \<not> alloc then (ERROR_SHM_FAILURE, ll\<lparr>ll_mutexes := []\<rparr>)
      else if \<not> list_all mutex_init [0..<unat count] then (ERROR_UNKNOWN, ll\<lparr>ll_mutexes := []\<rparr>)
      else (SUCCESS, ll\<lparr>ll_mutexes := replicate (unat count) None, ll_lock_count := count,
                        ll_initialized := True\<rparr>))"

definition ll_destroy :: "LocalLockArray \<Rightarrow> LocalLockArray" where
  "ll_destroy ll =
     (if \<not> ll_initialized ll \<or> ll_mutexes ll = [] then ll
      else ll\<lparr>ll_mutexes := [], ll_lock_count := 0, ll_initialized := False\<rparr>)"

text \<open>
  The guard of each operation is there to keep the index inside the array: \<open>mutexes_[lock_id]\<close> outside of it, also after
  \<open>delete[]\<close>, is undefined behaviour, \<open>Overrun\<close> or \<open>None\<close>. An acquisition can also block, before any effect.
\<close>

datatype ll_acquired = Overrun | Blocked | Returns LockResult LocalLockArray

definition ll_acquire :: "thread \<Rightarrow> LockId \<Rightarrow> LocalLockArray \<Rightarrow> ll_acquired" where
  "ll_acquire t lock_id ll =
     (if \<not> ll_initialized ll \<or> lock_id \<ge> ll_lock_count ll then Returns ERROR_INVALID_PARAM ll
      else if unat lock_id \<ge> length (ll_mutexes ll) then Overrun
      else case pthread_mutex_lock t (ll_mutexes ll ! unat lock_id) of
        None \<Rightarrow> Blocked
      | Some (rc, m) \<Rightarrow>
          Returns (if rc = OK then SUCCESS else ERROR_UNKNOWN)
            (ll\<lparr>ll_mutexes := (ll_mutexes ll)[unat lock_id := m]\<rparr>))"

definition ll_release ::
  "thread \<Rightarrow> LockId \<Rightarrow> LocalLockArray \<Rightarrow> (LockResult \<times> LocalLockArray) option"
where
  "ll_release t lock_id ll =
     (if \<not> ll_initialized ll \<or> lock_id \<ge> ll_lock_count ll then Some (ERROR_INVALID_PARAM, ll)
      else if unat lock_id \<ge> length (ll_mutexes ll) then None
      else case pthread_mutex_unlock t (ll_mutexes ll ! unat lock_id) of
        (rc, m) \<Rightarrow>
          Some (if rc = OK then SUCCESS else if rc = EPERM then ERROR_NOT_OWNER else ERROR_UNKNOWN,
                ll\<lparr>ll_mutexes := (ll_mutexes ll)[unat lock_id := m]\<rparr>))"

definition ll_try_acquire ::
  "thread \<Rightarrow> LockId \<Rightarrow> LocalLockArray \<Rightarrow> (LockResult \<times> LocalLockArray) option"
where
  "ll_try_acquire t lock_id ll =
     (if \<not> ll_initialized ll \<or> lock_id \<ge> ll_lock_count ll then Some (ERROR_INVALID_PARAM, ll)
      else if unat lock_id \<ge> length (ll_mutexes ll) then None
      else case pthread_mutex_trylock t (ll_mutexes ll ! unat lock_id) of
        (rc, m) \<Rightarrow>
          Some (if rc = OK then SUCCESS else if rc = EBUSY then ERROR_BUSY else ERROR_UNKNOWN,
                ll\<lparr>ll_mutexes := (ll_mutexes ll)[unat lock_id := m]\<rparr>))"

definition is_held_by_this_thread ::
  "thread \<Rightarrow> LockId \<Rightarrow> LocalLockArray \<Rightarrow> (bool \<times> LocalLockArray) option"
where
  "is_held_by_this_thread t lock_id ll =
     (if \<not> ll_initialized ll \<or> lock_id \<ge> ll_lock_count ll then Some (False, ll)
      else if unat lock_id \<ge> length (ll_mutexes ll) then None
      else case pthread_mutex_trylock t (ll_mutexes ll ! unat lock_id) of
        (rc, m) \<Rightarrow>
          Some (if rc = OK then
                  (False, ll\<lparr>ll_mutexes := (ll_mutexes ll)[unat lock_id := snd (pthread_mutex_unlock t m)]\<rparr>)
                else if rc = EDEADLK \<or> rc = EPERM then (True, ll)
                else (False, ll)))"

text \<open>
  The private implementation object can be moved: the source is left empty. The public object
  is a pointer to it, null after a move; a call through the null pointer crashes.
\<close>

definition empty_impl :: "LocalLockArray \<Rightarrow> LocalLockArray" where
  "empty_impl other = other\<lparr>ll_mutexes := [], ll_lock_count := 0, ll_initialized := False\<rparr>"

definition ll_impl_move_construct :: "LocalLockArray \<Rightarrow> LocalLockArray \<times> LocalLockArray" where
  "ll_impl_move_construct other = (other, empty_impl other)"

definition ll_impl_move_assign ::
  "LocalLockArray \<Rightarrow> LocalLockArray \<Rightarrow> LocalLockArray \<times> LocalLockArray"
where
  "ll_impl_move_assign self other =
     (let self = ll_destroy self
      in (self\<lparr>ll_mutexes := ll_mutexes other, ll_lock_count := ll_lock_count other,
              ll_initialized := ll_initialized other\<rparr>, empty_impl other))"

type_synonym ll_handle = "LocalLockArray option"

definition ll_construct :: ll_handle where
  "ll_construct = Some new_local_locks"

definition ll_move_construct :: "ll_handle \<Rightarrow> ll_handle \<times> ll_handle" where
  "ll_move_construct other = (other, None)"

definition ll_move_assign :: "ll_handle \<Rightarrow> ll_handle \<Rightarrow> ll_handle \<times> ll_handle" where
  "ll_move_assign self other = (other, None)"

text \<open>
  The public functions forward to the object behind the pointer. They crash through the null pointer of a moved-from array, and
  when the operation accesses a mutex outside the array.
\<close>

datatype ll_call =
    InitializeLocks bool "nat \<Rightarrow> bool" u32
  | DestroyLocks
  | AcquireLocal thread LockId
  | ReleaseLocal thread LockId
  | TryAcquireLocal thread LockId
  | HeldByThisThread thread LockId

datatype ll_reply = LocalVoid | LocalCode LockResult | LocalFlag bool

datatype ll_outcome = LocalCrash | LocalBlocked | LocalReply ll_reply ll_handle

fun ll_public :: "ll_call \<Rightarrow> ll_handle \<Rightarrow> ll_outcome" where
  "ll_public c None = LocalCrash"
| "ll_public (InitializeLocks alloc mutex_init lock_count) (Some ll) =
     (case ll_initialize alloc mutex_init lock_count ll of (rc, ll') \<Rightarrow> LocalReply (LocalCode rc) (Some ll'))"
| "ll_public DestroyLocks (Some ll) = LocalReply LocalVoid (Some (ll_destroy ll))"
| "ll_public (AcquireLocal t lock_id) (Some ll) =
     (case ll_acquire t lock_id ll of
        Overrun \<Rightarrow> LocalCrash
      | Blocked \<Rightarrow> LocalBlocked
      | Returns rc ll' \<Rightarrow> LocalReply (LocalCode rc) (Some ll'))"
| "ll_public (ReleaseLocal t lock_id) (Some ll) =
     (case ll_release t lock_id ll of None \<Rightarrow> LocalCrash | Some (rc, ll') \<Rightarrow> LocalReply (LocalCode rc) (Some ll'))"
| "ll_public (TryAcquireLocal t lock_id) (Some ll) =
     (case ll_try_acquire t lock_id ll of None \<Rightarrow> LocalCrash | Some (rc, ll') \<Rightarrow> LocalReply (LocalCode rc) (Some ll'))"
| "ll_public (HeldByThisThread t lock_id) (Some ll) =
     (case is_held_by_this_thread t lock_id ll of
        None \<Rightarrow> LocalCrash
      | Some (b, ll') \<Rightarrow> LocalReply (LocalFlag b) (Some ll'))"

section \<open>Well-formedness\<close>

definition ll_wf :: "LocalLockArray \<Rightarrow> bool" where
  "ll_wf ll \<longleftrightarrow>
     (if ll_initialized ll
      then 0 < ll_lock_count ll \<and> ll_lock_count ll \<le> MAX_LOCK_COUNT \<and>
           length (ll_mutexes ll) = unat (ll_lock_count ll)
      else ll_mutexes ll = [] \<and> ll_lock_count ll = 0)"

text \<open>What \<open>initialize\<close> leaves of the array: every mutex is free.\<close>

definition fresh_locks :: "LocalLockArray \<Rightarrow> bool" where
  "fresh_locks ll \<longleftrightarrow> ll_wf ll \<and> list_all (\<lambda>x. x = None) (ll_mutexes ll)"

lemma ll_wf_nonempty: "ll_wf ll \<Longrightarrow> ll_initialized ll \<Longrightarrow> ll_mutexes ll \<noteq> []"
  by (auto simp: ll_wf_def word_gt_0 unat_eq_0)

lemma ll_wf_index:
  "ll_wf ll \<Longrightarrow> ll_initialized ll \<Longrightarrow> l < ll_lock_count ll \<Longrightarrow> unat l < length (ll_mutexes ll)"
  by (simp add: ll_wf_def word_less_nat_alt)

lemma ll_wf_initialized: "ll_wf ll \<Longrightarrow> l < ll_lock_count ll \<Longrightarrow> ll_initialized ll"
  by (auto simp: ll_wf_def split: if_splits)

lemma ll_wf_inside: "ll_wf ll \<Longrightarrow> l < ll_lock_count ll \<Longrightarrow> unat l < length (ll_mutexes ll)"
  by (rule ll_wf_index [OF _ ll_wf_initialized])

lemma ll_same_mutex:
  "ll_mutexes ll ! i = x \<Longrightarrow> ll\<lparr>ll_mutexes := (ll_mutexes ll)[i := x]\<rparr> = ll"
  by auto

text \<open>The operations on one mutex of a well-formed array.\<close>

lemma ll_acquire_cases:
  assumes "ll_wf ll" and "l < ll_lock_count ll"
  shows "ll_acquire t l ll =
    (case ll_mutexes ll ! unat l of
       None \<Rightarrow> Returns SUCCESS (ll\<lparr>ll_mutexes := (ll_mutexes ll)[unat l := Some t]\<rparr>)
     | Some t' \<Rightarrow> if t' = t then Returns ERROR_UNKNOWN ll else Blocked)"
  using assms ll_wf_initialized [OF assms] ll_wf_inside [OF assms]
  by (auto simp: ll_acquire_def pthread_mutex_lock_def ll_same_mutex split: option.splits)

lemma ll_try_acquire_cases:
  assumes "ll_wf ll" and "l < ll_lock_count ll"
  shows "ll_try_acquire t l ll =
    Some (case ll_mutexes ll ! unat l of
       None \<Rightarrow> (SUCCESS, ll\<lparr>ll_mutexes := (ll_mutexes ll)[unat l := Some t]\<rparr>)
     | Some t' \<Rightarrow> (ERROR_BUSY, ll))"
  using assms ll_wf_initialized [OF assms] ll_wf_inside [OF assms]
  by (auto simp: ll_try_acquire_def pthread_mutex_trylock_def ll_same_mutex split: option.splits)

lemma ll_release_cases:
  assumes "ll_wf ll" and "l < ll_lock_count ll"
  shows "ll_release t l ll =
    Some (if ll_mutexes ll ! unat l = Some t
     then (SUCCESS, ll\<lparr>ll_mutexes := (ll_mutexes ll)[unat l := None]\<rparr>)
     else (ERROR_NOT_OWNER, ll))"
  using assms ll_wf_initialized [OF assms] ll_wf_inside [OF assms]
  by (auto simp: ll_release_def pthread_mutex_unlock_def)

lemma is_held_cases:
  assumes "ll_wf ll" and "l < ll_lock_count ll"
  shows "is_held_by_this_thread t l ll = Some (False, ll)"
  using assms ll_wf_initialized [OF assms] ll_wf_inside [OF assms]
  by (auto simp: is_held_by_this_thread_def pthread_mutex_trylock_def pthread_mutex_unlock_def ll_same_mutex split: option.splits)

text \<open>An id that the array does not have is refused without an access; an uninitialised array has none.\<close>

lemma ll_refused:
  assumes "ll_lock_count ll \<le> l"
  shows "ll_acquire t l ll = Returns ERROR_INVALID_PARAM ll" and "ll_release t l ll = Some (ERROR_INVALID_PARAM, ll)"
    and "ll_try_acquire t l ll = Some (ERROR_INVALID_PARAM, ll)" and "is_held_by_this_thread t l ll = Some (False, ll)"
  using assms by (simp_all add: ll_acquire_def ll_release_def ll_try_acquire_def is_held_by_this_thread_def)

text \<open>What a successful \<open>acquire\<close> did, and that \<open>release\<close> by the same thread undoes it.\<close>

lemma ll_acquired:
  assumes "ll_wf ll" and "ll_acquire t l ll = Returns SUCCESS ll1"
  shows "ll_wf ll1" and "l < ll_lock_count ll1" and "ll_mutexes ll1 ! unat l = Some t"
    and "ll_release t l ll1 = Some (SUCCESS, ll)" and "ll_mutexes ll ! unat l = None"
proof -
  have l: "l < ll_lock_count ll"
    using assms(2) ll_refused(1) [of ll l t] by (cases "l < ll_lock_count ll") (auto simp: not_less)
  then have m: "ll_mutexes ll ! unat l = None" "ll1 = ll\<lparr>ll_mutexes := (ll_mutexes ll)[unat l := Some t]\<rparr>"
    using assms by (auto simp: ll_acquire_cases split: option.splits if_splits)
  then show i1: "ll_wf ll1" "l < ll_lock_count ll1" "ll_mutexes ll1 ! unat l = Some t"
    using l assms(1) ll_wf_inside [OF assms(1) l] by (simp_all add: ll_wf_def)
  show "ll_mutexes ll ! unat l = None" by (rule m(1))
  have "(ll_mutexes ll)[unat l := None] = ll_mutexes ll" using m(1) by (metis list_update_id)
  then show "ll_release t l ll1 = Some (SUCCESS, ll)" using i1 m(2) by (simp add: ll_release_cases)
qed

text \<open>A call that does not acquire leaves the array as it is.\<close>

lemma ll_acquire_error:
  assumes "ll_acquire t l ll = Returns rc ll1" and "rc \<noteq> SUCCESS"
  shows "ll1 = ll"
  using assms by (auto simp: ll_acquire_def pthread_mutex_lock_def ll_same_mutex split: if_splits option.splits)

section \<open>Properties\<close>

lemma local_lock_initialize_wf:
  assumes "ll_wf ll"
  shows "ll_wf (snd (ll_initialize alloc ini count ll))" and "ll_wf (ll_destroy ll)"
proof -
  show "ll_wf (snd (ll_initialize alloc ini count ll))"
    using assms by (auto simp: ll_initialize_def ll_wf_def word_gt_0 not_less)
  show "ll_wf (ll_destroy ll)"
    using assms ll_wf_nonempty [OF assms] by (auto simp: ll_destroy_def ll_wf_def)
qed

lemma ll_wf_update [simp]: "ll_wf (ll\<lparr>ll_mutexes := (ll_mutexes ll)[i := x]\<rparr>) = ll_wf ll"
  by (auto simp: ll_wf_def)

lemma local_lock_operations_wf:
  assumes "ll_wf ll"
  shows "ll_acquire t l ll = Returns rc ll' \<Longrightarrow> ll_wf ll'"
    and "ll_release t l ll = Some (rc, ll') \<Longrightarrow> ll_wf ll'"
    and "ll_try_acquire t l ll = Some (rc, ll') \<Longrightarrow> ll_wf ll'"
    and "is_held_by_this_thread t l ll = Some (b, ll') \<Longrightarrow> ll_wf ll'"
  by (cases "l < ll_lock_count ll"; use assms in
      \<open>auto simp: ll_acquire_cases ll_release_cases ll_try_acquire_cases is_held_cases ll_refused not_less
        split: option.splits if_splits\<close>)+

text \<open>No operation leaves the array, and only \<open>acquire\<close> can block.\<close>

lemma ll_in_bounds:
  assumes "ll_wf ll"
  shows "ll_acquire t l ll \<noteq> Overrun" and "ll_release t l ll \<noteq> None" and "ll_try_acquire t l ll \<noteq> None"
    and "is_held_by_this_thread t l ll \<noteq> None"
  by (cases "l < ll_lock_count ll"; use assms in
      \<open>auto simp: ll_acquire_cases ll_release_cases ll_try_acquire_cases is_held_cases ll_refused not_less
        split: option.splits\<close>)+

lemma ll_move_wf:
  "ll_wf ll \<Longrightarrow> ll_wf other \<Longrightarrow>
   ll_wf (fst (ll_impl_move_assign ll other)) \<and> ll_wf (snd (ll_impl_move_assign ll other))"
  by (auto simp: ll_impl_move_assign_def empty_impl_def ll_wf_def)

lemma ll_acquire_blocked:
  assumes "ll_acquire t l ll = Blocked"
  shows "l < ll_lock_count ll \<and> (\<exists>t'. ll_mutexes ll ! unat l = Some t' \<and> t' \<noteq> t)"
  using assms by (auto simp: ll_acquire_def pthread_mutex_lock_def not_le split: if_splits option.splits)

text \<open>
  C40. Memory safety of the local lock array: its public functions, for every thread and lock id, legal or not, and whatever the
  allocation and the mutex initialisation return, never access a mutex outside the array. They crash only on a moved-from array, block only
  in \<open>acquire\<close> of a mutex that another thread holds, and otherwise keep the array well-formed: it is either empty or has
  between 1 and \<open>MAX_LOCK_COUNT\<close> mutexes, as many as it says. A lock id that the array does not have is refused and changes nothing.
\<close>

theorem local_lock_array_wf:
  assumes "pred_option ll_wf h"
  shows "(case ll_public c h of
      LocalCrash \<Rightarrow> h = None
    | LocalBlocked \<Rightarrow> (\<exists>t l ll t'. c = AcquireLocal t l \<and> h = Some ll \<and> l < ll_lock_count ll \<and>
        ll_mutexes ll ! unat l = Some t' \<and> t' \<noteq> t)
    | LocalReply r h' \<Rightarrow> h \<noteq> None \<and> h' \<noteq> None \<and> pred_option ll_wf h') \<and>
    (\<forall>ll t l. h = Some ll \<longrightarrow> ll_lock_count ll \<le> l \<longrightarrow>
       ll_public (AcquireLocal t l) h = LocalReply (LocalCode ERROR_INVALID_PARAM) h \<and>
       ll_public (ReleaseLocal t l) h = LocalReply (LocalCode ERROR_INVALID_PARAM) h \<and>
       ll_public (TryAcquireLocal t l) h = LocalReply (LocalCode ERROR_INVALID_PARAM) h \<and>
       ll_public (HeldByThisThread t l) h = LocalReply (LocalFlag False) h)"
proof (cases h)
  case (Some ll)
  then have wf: "ll_wf ll" using assms by simp
  note bounds = ll_in_bounds [OF wf] and wfs = local_lock_operations_wf [OF wf]
  have "case ll_public c (Some ll) of
      LocalCrash \<Rightarrow> False
    | LocalBlocked \<Rightarrow> (\<exists>t l t'. c = AcquireLocal t l \<and> l < ll_lock_count ll \<and> ll_mutexes ll ! unat l = Some t' \<and> t' \<noteq> t)
    | LocalReply r h' \<Rightarrow> h' \<noteq> None \<and> pred_option ll_wf h'"
  proof (cases c)
    case (AcquireLocal t l)
    then show ?thesis
      using bounds(1) [of t l] wfs(1) [of t l] ll_acquire_blocked [of t l ll] by (cases "ll_acquire t l ll") auto
  next
    case (InitializeLocks alloc ini n)
    then show ?thesis using local_lock_initialize_wf(1) [OF wf, of alloc ini n] by (auto split: prod.splits)
  next
    case (ReleaseLocal t l)
    then show ?thesis using bounds(2) [of t l] wfs(2) [of t l] by auto
  next
    case (TryAcquireLocal t l)
    then show ?thesis using bounds(3) [of t l] wfs(3) [of t l] by auto
  next
    case (HeldByThisThread t l)
    then show ?thesis using bounds(4) [of t l] wfs(4) [of t l] by auto
  qed (use local_lock_initialize_wf(2) [OF wf] in simp)
  then show ?thesis using Some by (auto simp: ll_refused split: ll_outcome.splits)
qed simp

definition two_local_locks :: LocalLockArray where
  "two_local_locks = \<lparr>ll_mutexes = [Some 7, None], ll_lock_count = 2, ll_initialized = True\<rparr>"

lemma two_local_locks_wf [simp]: "ll_wf two_local_locks"
  by (simp add: ll_wf_def two_local_locks_def MAX_LOCK_COUNT_def)

theorem local_lock_array_wf_witness:
  "(\<exists>ll. ll_public (AcquireLocal 4 1) (Some two_local_locks) = LocalReply (LocalCode SUCCESS) (Some ll) \<and> ll_wf ll) \<and>
   ll_public (ReleaseLocal 4 2) (Some two_local_locks) = LocalReply (LocalCode ERROR_INVALID_PARAM) (Some two_local_locks)"
proof -
  have one: "ll_public (AcquireLocal 4 1) (Some two_local_locks) =
      LocalReply (LocalCode SUCCESS) (Some (two_local_locks\<lparr>ll_mutexes := [Some 7, Some 4]\<rparr>))"
    by (simp add: ll_acquire_def pthread_mutex_lock_def two_local_locks_def word_le_nat_alt)
  have "pred_option ll_wf (Some two_local_locks)" by simp
  from local_lock_array_wf [OF this, of "AcquireLocal 4 1"] one show ?thesis by (simp add: two_local_locks_def)
qed

text \<open>
  The mutexes exclude: after thread \<open>t\<close> has acquired lock \<open>l\<close> of the array, another thread
  that calls \<open>acquire\<close> blocks, its \<open>try_acquire\<close> returns \<open>ERROR_BUSY\<close> and its \<open>release\<close>
  \<open>ERROR_NOT_OWNER\<close>, all without effect; a second \<open>acquire\<close> of \<open>t\<close> returns an error instead of
  blocking; \<open>release\<close> by \<open>t\<close> succeeds and restores the array.
\<close>

theorem local_lock_excludes:
  assumes "ll_wf ll" and "ll_acquire t l ll = Returns SUCCESS ll1"
  shows "(t' \<noteq> t \<longrightarrow> ll_acquire t' l ll1 = Blocked) \<and>
    (t' \<noteq> t \<longrightarrow> ll_release t' l ll1 = Some (ERROR_NOT_OWNER, ll1)) \<and>
    ll_try_acquire t' l ll1 = Some (ERROR_BUSY, ll1) \<and>
    ll_acquire t l ll1 = Returns ERROR_UNKNOWN ll1 \<and>
    ll_release t l ll1 = Some (SUCCESS, ll)"
  using ll_acquired(1-4) [OF assms] by (simp add: ll_acquire_cases ll_release_cases ll_try_acquire_cases)

theorem local_lock_excludes_witness:
  "ll_acquire 5 1 (two_local_locks\<lparr>ll_mutexes := [Some 7, Some 4]\<rparr>) = Blocked"
proof -
  have "ll_acquire 4 1 two_local_locks = Returns SUCCESS (two_local_locks\<lparr>ll_mutexes := [Some 7, Some 4]\<rparr>)"
    by (simp add: ll_acquire_def pthread_mutex_lock_def two_local_locks_def word_le_nat_alt)
  from local_lock_excludes [OF two_local_locks_wf this, of 5] show ?thesis by simp
qed

text \<open>
  \<open>is_held_by_this_thread\<close> never answers true, not even to the thread that holds the lock:
  \<open>pthread_mutex_trylock\<close> fails with \<open>EBUSY\<close>, not with the codes that it tests for. It leaves the
  array as it was.
\<close>

theorem is_held_by_this_thread_false:
  assumes "ll_wf ll"
  shows "is_held_by_this_thread t l ll = Some (False, ll)"
  using is_held_cases [OF assms] ll_refused(4) [of ll l t] by (cases "l < ll_lock_count ll") (auto simp: not_less)

theorem is_held_by_this_thread_false_witness:
  "is_held_by_this_thread 7 0 two_local_locks = Some (False, two_local_locks)"
  by (rule is_held_by_this_thread_false [OF two_local_locks_wf])

end
