(* ===== verification/Two_Tier_Lock.thy ===== *)
theory Two_Tier_Lock
  imports Lock_Interface Local_Lock
begin

unbundle bit_operations_syntax

text \<open>
  \<open>TwoTierLock\<close> (\<open>include/two_tier_lock.h\<close>, \<open>src/two_tier_lock.cpp\<close>): a local mutex, then the
  global lock of the algorithm, then polling for the grant. The part that works on shared
  memory is an access tree; the local mutexes are state that is passed along. \<open>None\<close> as the
  result of \<open>acquire\<close> means that the caller is blocked in \<open>pthread_mutex_lock\<close>, before any
  effect. \<open>clk i\<close> is the elapsed time in milliseconds that the \<open>i\<close>-th reading of the clock
  in one poll shows.
\<close>

section \<open>State\<close>

record TwoTierLock =
  tt_node_id :: NodeId
  tt_has_local_locks :: bool
  tt_shm :: "SharedMemoryRegion option"
  tt_algorithm :: "GlobalLockAlgorithm option"
  tt_state_offset :: ShmOffset
  tt_max_locks :: u32
  tt_node_count :: u32
  tt_initialized :: bool

definition new_two_tier_lock :: TwoTierLock where
  "new_two_tier_lock =
     \<lparr>tt_node_id = INVALID_NODE_ID, tt_has_local_locks = False, tt_shm = None,
      tt_algorithm = None, tt_state_offset = 0, tt_max_locks = 0, tt_node_count = 0,
      tt_initialized = False\<rparr>"

definition tt_initialize ::
  "TwoTierLock \<Rightarrow> NodeId \<Rightarrow> bool \<Rightarrow> SharedMemoryRegion option \<Rightarrow> GlobalLockAlgorithm option \<Rightarrow>
   ShmOffset \<Rightarrow> u32 \<Rightarrow> u32 \<Rightarrow> (LockResult \<times> TwoTierLock) prog"
where
  "tt_initialize tt node_id has_local shm algorithm state_offset max_locks node_count =
     (if node_id = INVALID_NODE_ID \<or> \<not> has_local \<or> shm = None \<or> algorithm = None
      then Ret (ERROR_INVALID_PARAM, tt)
      else if max_locks = 0 \<or> max_locks > MAX_LOCK_COUNT then Ret (ERROR_INVALID_PARAM, tt)
      else if tt_initialized tt then Ret (ERROR_UNKNOWN, tt)
      else
        let nc = (if node_count > 0 then node_count else max_locks);
            tt1 = tt\<lparr>tt_node_id := node_id, tt_has_local_locks := has_local, tt_shm := shm,
                     tt_algorithm := algorithm, tt_state_offset := state_offset,
                     tt_max_locks := max_locks, tt_node_count := nc\<rparr>
        in bind (alg_initialize (the algorithm) shm state_offset nc) (\<lambda>(rc, alg').
             if rc \<noteq> SUCCESS then Ret (rc, tt1\<lparr>tt_algorithm := None\<rparr>)
             else Ret (SUCCESS, tt1\<lparr>tt_algorithm := Some alg', tt_initialized := True\<rparr>)))"

definition tt_shutdown :: "TwoTierLock \<Rightarrow> TwoTierLock" where
  "tt_shutdown tt =
     tt\<lparr>tt_initialized := False, tt_has_local_locks := False, tt_shm := None, tt_algorithm := None\<rparr>"

section \<open>Polling for the grant\<close>

text \<open>
  One test of \<open>poll_for_grant\<close>: the chain of \<open>dynamic_cast\<close>s, with the offsets computed from
  the members of the two-tier lock.
\<close>

definition tt_granted :: "TwoTierLock \<Rightarrow> LockId \<Rightarrow> bool prog" where
  "tt_granted tt lock_id =
     (case tt_shm tt of
        None \<Rightarrow> Crash
      | Some shm \<Rightarrow>
     (case tt_algorithm tt of
        None \<Rightarrow> Ret False
      | Some (CasAlgorithm a) \<Rightarrow>
          deref (offset_to_ptr shm (tt_state_offset tt
                   + ucast lock_id * ucast (tt_node_count tt) * 4
                   + ucast (tt_node_id tt) * 4)) (\<lambda>slot_addr.
          bind (atomic_load slot_addr) (\<lambda>val.
            Ret (val = u32_of_slot LOCKED)))
      | Some (FaaAlgorithm a) \<Rightarrow>
          deref (offset_to_ptr shm (tt_state_offset tt + ucast lock_id * 64)) (\<lambda>entry.
          bind (atomic_load (entry + faa_now_serving)) (\<lambda>serving.
          deref (offset_to_ptr shm (tt_state_offset tt + ucast MAX_LOCK_COUNT * 64
                   + ucast (tt_node_id tt) * 64)) (\<lambda>nt.
          bind (atomic_load (nt + faa_ticket)) (\<lambda>my_ticket.
          bind (atomic_load (nt + faa_active)) (\<lambda>act.
            Ret (serving \<ge> my_ticket \<and> act \<noteq> 0))))))
      | Some (McsAlgorithm a) \<Rightarrow>
          deref (offset_to_ptr shm (tt_state_offset tt + ucast MAX_LOCK_COUNT * 64
                   + ucast (tt_node_id tt) * 64)) (\<lambda>node.
          bind (atomic_load (node + mcs_locked)) (\<lambda>node_locked.
          bind (atomic_load (node + mcs_waiting_lock)) (\<lambda>waiting.
            Ret ((node_locked = 2 \<or> node_locked = 0) \<and> waiting = lock_id))))
      | Some (QspinAlgorithm a) \<Rightarrow>
          deref (offset_to_ptr shm (tt_state_offset tt + ucast MAX_LOCK_COUNT * 64
                   + ucast (tt_node_id tt) * 64)) (\<lambda>node.
          bind (atomic_load (node + qspin_node_locked)) (\<lambda>node_locked.
          bind (atomic_load (node + qspin_waiting_lock)) (\<lambda>waiting.
            Ret (node_locked = 2 \<and> waiting = lock_id))))))"

datatype backoff = Pause | PauseTenTimes | Yield | SleepTenMicroseconds

definition adaptive_backoff :: "u32 \<Rightarrow> backoff \<times> u32" where
  "adaptive_backoff spin_count =
     (let spin_count = spin_count + 1
      in (if spin_count \<le> 100 then Pause
          else if spin_count \<le> 1000 then PauseTenTimes
          else if spin_count \<le> 10000 then Yield
          else SleepTenMicroseconds, spin_count))"

fun tt_poll ::
  "nat \<Rightarrow> TwoTierLock \<Rightarrow> LockId \<Rightarrow> u64 \<Rightarrow> (nat \<Rightarrow> u64) \<Rightarrow> nat \<Rightarrow> u32 \<Rightarrow> LockResult prog"
where
  "tt_poll 0 tt lock_id timeout_ms clk i spin_count = OutOfFuel"
| "tt_poll (Suc fuel) tt lock_id timeout_ms clk i spin_count =
     bind (tt_granted tt lock_id) (\<lambda>granted.
       if granted then Ret SUCCESS
       else if timeout_ms > 0 then
         (if clk i \<ge> timeout_ms then Ret ERROR_TIMEOUT
          else tt_poll fuel tt lock_id timeout_ms clk (Suc i) (snd (adaptive_backoff spin_count)))
       else if spin_count > 1000 then Ret ERROR_BUSY
       else tt_poll fuel tt lock_id timeout_ms clk (Suc i) (snd (adaptive_backoff spin_count)))"

definition poll_for_grant ::
  "nat \<Rightarrow> TwoTierLock \<Rightarrow> (nat \<Rightarrow> u64) \<Rightarrow> LockId \<Rightarrow> u64 \<Rightarrow> LockResult prog"
where
  "poll_for_grant fuel tt clk lock_id timeout_ms = tt_poll fuel tt lock_id timeout_ms clk 0 0"

section \<open>The global part of the operations\<close>

text \<open>
  Steps 2 and 3 of \<open>acquire\<close>, including the cancellation when the grant does not come: what
  the thread does to shared memory while it holds the local mutex.
\<close>

definition tt_global_acquire ::
  "nat \<Rightarrow> TwoTierLock \<Rightarrow> GlobalLockAlgorithm \<Rightarrow> (nat \<Rightarrow> u64) \<Rightarrow> LockId \<Rightarrow> u64 \<Rightarrow> LockResult prog"
where
  "tt_global_acquire fuel tt alg clk lock_id timeout_ms =
     bind (alg_acquire_lock fuel alg (tt_node_id tt) lock_id (tt_shm tt) (tt_state_offset tt)) (\<lambda>rc.
       if rc \<noteq> SUCCESS then Ret rc
       else bind (poll_for_grant fuel tt clk lock_id timeout_ms) (\<lambda>rc.
         if rc \<noteq> SUCCESS then
           bind (alg_release_lock fuel alg (tt_node_id tt) lock_id (tt_shm tt) (tt_state_offset tt))
             (\<lambda>_. Ret rc)
         else Ret SUCCESS))"

definition tt_global_release ::
  "nat \<Rightarrow> TwoTierLock \<Rightarrow> GlobalLockAlgorithm \<Rightarrow> LockId \<Rightarrow> LockResult prog"
where
  "tt_global_release fuel tt alg lock_id =
     alg_release_lock fuel alg (tt_node_id tt) lock_id (tt_shm tt) (tt_state_offset tt)"

section \<open>The operations\<close>

text \<open>The call of \<open>local_locks_->release\<close>.\<close>

definition tt_local_release ::
  "thread \<Rightarrow> LockId \<Rightarrow> LocalLockArray \<Rightarrow> (LockResult \<times> LocalLockArray) prog"
where
  "tt_local_release t lock_id ll = (case ll_release t lock_id ll of None \<Rightarrow> Crash | Some r \<Rightarrow> Ret r)"

definition tt_acquire ::
  "nat \<Rightarrow> thread \<Rightarrow> (nat \<Rightarrow> u64) \<Rightarrow> LockId \<Rightarrow> u64 \<Rightarrow> TwoTierLock \<Rightarrow> LocalLockArray \<Rightarrow>
   (LockResult \<times> LocalLockArray) prog option"
where
  "tt_acquire fuel t clk lock_id timeout_ms tt ll =
     (if \<not> tt_initialized tt then Some (Ret (ERROR_LOCK_NOT_INITIALIZED, ll))
      else if lock_id \<ge> tt_max_locks tt then Some (Ret (ERROR_INVALID_PARAM, ll))
      else case ll_acquire t lock_id ll of
        Overrun \<Rightarrow> Some Crash
      | Blocked \<Rightarrow> None
      | Returns rc ll1 \<Rightarrow>
          Some (if rc \<noteq> SUCCESS then Ret (rc, ll1)
                else case tt_algorithm tt of
                  None \<Rightarrow> Crash
                | Some alg \<Rightarrow>
                    bind (tt_global_acquire fuel tt alg clk lock_id timeout_ms) (\<lambda>rc.
                      if rc \<noteq> SUCCESS then bind (tt_local_release t lock_id ll1) (\<lambda>(_, ll2). Ret (rc, ll2))
                      else Ret (SUCCESS, ll1))))"

definition tt_release ::
  "nat \<Rightarrow> thread \<Rightarrow> LockId \<Rightarrow> TwoTierLock \<Rightarrow> LocalLockArray \<Rightarrow> (LockResult \<times> LocalLockArray) prog"
where
  "tt_release fuel t lock_id tt ll =
     (if \<not> tt_initialized tt then Ret (ERROR_LOCK_NOT_INITIALIZED, ll)
      else if lock_id \<ge> tt_max_locks tt then Ret (ERROR_INVALID_PARAM, ll)
      else case tt_algorithm tt of
        None \<Rightarrow> Crash
      | Some alg \<Rightarrow>
          bind (tt_global_release fuel tt alg lock_id) (\<lambda>rc.
            if rc \<noteq> SUCCESS then bind (tt_local_release t lock_id ll) (\<lambda>(_, ll'). Ret (rc, ll'))
            else tt_local_release t lock_id ll))"

definition tt_try_acquire ::
  "nat \<Rightarrow> thread \<Rightarrow> (nat \<Rightarrow> u64) \<Rightarrow> LockId \<Rightarrow> TwoTierLock \<Rightarrow> LocalLockArray \<Rightarrow>
   (LockResult \<times> LocalLockArray) prog"
where
  "tt_try_acquire fuel t clk lock_id tt ll =
     (if \<not> tt_initialized tt then Ret (ERROR_LOCK_NOT_INITIALIZED, ll)
      else if lock_id \<ge> tt_max_locks tt then Ret (ERROR_INVALID_PARAM, ll)
      else case ll_try_acquire t lock_id ll of
        None \<Rightarrow> Crash
      | Some (rc, ll1) \<Rightarrow>
          if rc \<noteq> SUCCESS then Ret (rc, ll1)
          else case tt_algorithm tt of
            None \<Rightarrow> Crash
          | Some alg \<Rightarrow>
              bind (alg_acquire_lock fuel alg (tt_node_id tt) lock_id (tt_shm tt) (tt_state_offset tt))
                (\<lambda>rc. if rc \<noteq> SUCCESS then bind (tt_local_release t lock_id ll1) (\<lambda>(_, ll2). Ret (rc, ll2))
                 else bind (poll_for_grant fuel tt clk lock_id 0) (\<lambda>rc.
                   if rc \<noteq> SUCCESS then
                     bind (alg_release_lock fuel alg (tt_node_id tt) lock_id (tt_shm tt)
                             (tt_state_offset tt))
                       (\<lambda>_. bind (tt_local_release t lock_id ll1) (\<lambda>(_, ll2). Ret (ERROR_BUSY, ll2)))
                   else Ret (SUCCESS, ll1))))"

definition tt_is_locked :: "TwoTierLock \<Rightarrow> LockId \<Rightarrow> bool" where
  "tt_is_locked tt lock_id = False"

section \<open>Hashing data keys to locks\<close>

text \<open>
  FNV-1a over the bytes of a key, and the mixing function for 64-bit ids. The remainder by
  \<open>lock_count = 0\<close> is undefined behaviour in the source: \<open>None\<close>.
\<close>

definition fnv1a :: "8 word list \<Rightarrow> u64" where
  "fnv1a bytes =
     foldl (\<lambda>hash b. (hash XOR ucast b) * 1099511628211) 14695981039346656037 bytes"

definition hash_bytes_to_lock_id :: "8 word list \<Rightarrow> u32 \<Rightarrow> LockId option" where
  "hash_bytes_to_lock_id bytes lock_count =
     (if lock_count = 0 then None else Some (ucast (fnv1a bytes mod ucast lock_count)))"

definition mix64 :: "u64 \<Rightarrow> u64" where
  "mix64 data_id =
     (let h1 = data_id XOR drop_bit 33 data_id;
          h2 = h1 * 0xff51afd7ed558ccd;
          h3 = h2 XOR drop_bit 33 h2;
          h4 = h3 * 0xc4ceb9fe1a85ec53
      in h4 XOR drop_bit 33 h4)"

definition hash_id_to_lock_id :: "u64 \<Rightarrow> u32 \<Rightarrow> LockId option" where
  "hash_id_to_lock_id data_id lock_count =
     (if lock_count = 0 then None else Some (ucast (mix64 data_id mod ucast lock_count)))"

text \<open>The members of the two-tier lock of node \<open>n\<close> after a successful \<open>initialize\<close>.\<close>

definition client_lock ::
  "GlobalLockAlgorithm \<Rightarrow> SharedMemoryRegion \<Rightarrow> u32 \<Rightarrow> ShmOffset \<Rightarrow> NodeId \<Rightarrow> TwoTierLock \<Rightarrow> bool"
where
  "client_lock alg sh nc off n tt \<longleftrightarrow>
     tt_node_id tt = n \<and> tt_shm tt = Some sh \<and> tt_algorithm tt = Some alg \<and>
     tt_state_offset tt = off \<and> tt_node_count tt = nc"

lemma run_tt_local_release [simp]:
  "run sh (tt_local_release t l ll) m = (case ll_release t l ll of None \<Rightarrow> Fault | Some r \<Rightarrow> Result r m)"
  by (simp add: tt_local_release_def split: option.split)

section \<open>Polling when nothing interferes\<close>

lemma run_poll_granted:
  assumes "run sh (tt_granted tt l) m = Result True m" and "0 < fuel"
  shows "run sh (poll_for_grant fuel tt clk l timeout) m = Result SUCCESS m"
  using assms by (cases fuel) (simp_all add: poll_for_grant_def run_bind)

text \<open>A zero timeout gives up when \<open>spin_count\<close> is 1001, at the 1002nd test.\<close>

lemma run_poll_zero_timeout:
  assumes "run sh (tt_granted tt l) m = Result False m"
    and "unat spin \<le> 1001" and "1002 - unat spin \<le> fuel"
  shows "run sh (tt_poll fuel tt l 0 clk i spin) m = Result ERROR_BUSY m"
  using assms(2,3)
proof (induction fuel arbitrary: i spin)
  case 0
  then show ?case by simp
next
  case (Suc fuel)
  have more: "1000 < spin \<longleftrightarrow> 1000 < unat spin"
    by (simp add: word_less_nat_alt)
  show ?case
  proof (cases "1000 < spin")
    case True
    then show ?thesis by (simp add: run_bind assms(1))
  next
    case False
    then have s: "unat spin \<le> 1000" using more by simp
    then have "unat (spin + 1) = unat spin + 1"
      by (simp add: unat_word_ariths)
    then have "run sh (tt_poll fuel tt l 0 clk (Suc i) (spin + 1)) m = Result ERROR_BUSY m"
      using Suc.prems s by (intro Suc.IH) simp_all
    then show ?thesis
      using False by (simp add: run_bind assms(1) adaptive_backoff_def Let_def)
  qed
qed

text \<open>A positive timeout gives up at the first reading of the clock that has reached it.\<close>

lemma run_poll_timeout:
  assumes "run sh (tt_granted tt l) m = Result False m" and "0 < timeout"
    and "timeout \<le> clk (i + k)" and "\<And>j. j < k \<Longrightarrow> clk (i + j) < timeout" and "k < fuel"
  shows "run sh (tt_poll fuel tt l timeout clk i spin) m = Result ERROR_TIMEOUT m"
  using assms(3-5)
proof (induction fuel arbitrary: i k spin)
  case 0
  then show ?case by simp
next
  case (Suc fuel)
  show ?case
  proof (cases k)
    case 0
    then show ?thesis using Suc.prems assms(2) by (simp add: run_bind assms(1))
  next
    case (Suc k')
    have "clk i < timeout" using Suc.prems(2) [of 0] Suc by simp
    moreover have "run sh (tt_poll fuel tt l timeout clk (Suc i) spin') m = Result ERROR_TIMEOUT m" for spin'
    proof (rule Suc.IH)
      show "timeout \<le> clk (Suc i + k')" using Suc.prems(1) Suc by simp
      show "clk (Suc i + j) < timeout" if "j < k'" for j
        using Suc.prems(2) [of "Suc j"] Suc that by simp
      show "k' < fuel" using Suc.prems(3) Suc by simp
    qed
    ultimately show ?thesis
      using assms(2) by (simp add: run_bind assms(1))
  qed
qed

text \<open>
  \<open>poll_ends\<close>: the clock reaches the timeout while there is fuel; \<open>poll_failure\<close> is the
  result of a poll that is never granted.
\<close>

definition poll_ends :: "nat \<Rightarrow> (nat \<Rightarrow> u64) \<Rightarrow> u64 \<Rightarrow> bool" where
  "poll_ends fuel clk timeout \<longleftrightarrow>
     (if timeout = 0 then 1002 \<le> fuel else \<exists>k < fuel. timeout \<le> clk k)"

definition poll_failure :: "u64 \<Rightarrow> LockResult" where
  "poll_failure timeout = (if timeout = 0 then ERROR_BUSY else ERROR_TIMEOUT)"

lemma run_poll_not_granted:
  assumes "run sh (tt_granted tt l) m = Result False m" and "poll_ends fuel clk timeout"
  shows "run sh (poll_for_grant fuel tt clk l timeout) m = Result (poll_failure timeout) m"
proof (cases "timeout = 0")
  case True
  then show ?thesis
    using assms run_poll_zero_timeout [OF assms(1), of 0 fuel]
    by (simp add: poll_ends_def poll_failure_def poll_for_grant_def)
next
  case False
  define k where "k = (LEAST k. timeout \<le> clk k)"
  obtain k0 where k0: "k0 < fuel" "timeout \<le> clk k0"
    using assms(2) False by (auto simp: poll_ends_def)
  then have "timeout \<le> clk k" and "k \<le> k0" and "\<And>j. j < k \<Longrightarrow> clk j < timeout"
    unfolding k_def by (auto intro: LeastI Least_le dest: not_less_Least simp: not_le [symmetric])
  then show ?thesis
    using False k0 run_poll_timeout [OF assms(1), of timeout clk 0 k fuel 0]
    by (simp add: poll_failure_def poll_for_grant_def word_greater_zero_iff)
qed

end
