(* ===== verification/Lock_Contract.thy ===== *)
theory Lock_Contract
  imports Lock_Manager Two_Tier_Lock
begin

text \<open>
  What the lock manager and the two-tier locks rely on in a \<open>GlobalLockAlgorithm\<close>: an abstract
  lock service (who holds each lock, who waits for it) and, as locales, the laws by which the
  operations of an algorithm implement it, one operation at a time. The laws come in three
  strengths: safety, progress of the manager, and cancellation of a request. The lemmas about
  scans and histories of operations are proved from the laws and hold for every algorithm for
  which they are interpreted.
\<close>

section \<open>The abstract lock service\<close>

record service =
  holder :: "LockId \<Rightarrow> NodeId option"
  waiters :: "LockId \<Rightarrow> NodeId set"

definition new_service :: service where
  "new_service = \<lparr>holder = (\<lambda>_. None), waiters = (\<lambda>_. {})\<rparr>"

definition add_waiter :: "NodeId \<Rightarrow> LockId \<Rightarrow> service \<Rightarrow> service" where
  "add_waiter n l s = s\<lparr>waiters := (waiters s)(l := insert n (waiters s l))\<rparr>"

definition drop_waiter :: "NodeId \<Rightarrow> LockId \<Rightarrow> service \<Rightarrow> service" where
  "drop_waiter n l s = s\<lparr>waiters := (waiters s)(l := waiters s l - {n})\<rparr>"

definition let_in :: "NodeId \<Rightarrow> LockId \<Rightarrow> service \<Rightarrow> service" where
  "let_in n l s =
     s\<lparr>holder := (holder s)(l := Some n), waiters := (waiters s)(l := waiters s l - {n})\<rparr>"

definition let_out :: "LockId \<Rightarrow> service \<Rightarrow> service" where
  "let_out l s = s\<lparr>holder := (holder s)(l := None)\<rparr>"

text \<open>
  The steps of the service: a request waits, or enters at once a lock that nobody holds or
  waits for; a waiter enters a free lock; a holder leaves, possibly handing the lock over to a
  waiter; a waiter gives up.
\<close>

inductive service_step :: "service \<Rightarrow> service \<Rightarrow> bool" where
  request: "service_step s (add_waiter n l s)"
| enter_free: "holder s l = None \<Longrightarrow> waiters s l = {} \<Longrightarrow> service_step s (let_in n l s)"
| enter: "holder s l = None \<Longrightarrow> n \<in> waiters s l \<Longrightarrow> service_step s (let_in n l s)"
| leave: "holder s l = Some n \<Longrightarrow> service_step s (let_out l s)"
| hand_over: "holder s l = Some n \<Longrightarrow> n' \<in> waiters s l \<Longrightarrow> service_step s (let_in n' l s)"
| give_up: "n \<in> waiters s l \<Longrightarrow> service_step s (drop_waiter n l s)"

inductive_cases service_stepE: "service_step s s'"

text \<open>What a scan over the locks \<open>L\<close> may do: let waiters into free locks of \<open>L\<close>.\<close>

definition scanned :: "LockId set \<Rightarrow> service \<Rightarrow> service \<Rightarrow> bool" where
  "scanned L s s' \<longleftrightarrow>
     (\<forall>l. holder s' l = holder s l \<and> waiters s' l = waiters s l \<or>
          l \<in> L \<and> holder s l = None \<and>
          (\<exists>n \<in> waiters s l. holder s' l = Some n \<and> waiters s' l = waiters s l - {n}))"

lemma scanned_refl: "scanned L s s"
  by (simp add: scanned_def)

lemma scanned_step:
  assumes "s1 = s \<or> holder s l = None \<and> (\<exists>n \<in> waiters s l. s1 = let_in n l s)" and "scanned L s1 s'"
  shows "scanned (insert l L) s s'"
  using assms(1)
proof
  assume "s1 = s"
  then show ?thesis using assms(2) by (auto simp: scanned_def)
next
  assume in_l: "holder s l = None \<and> (\<exists>n \<in> waiters s l. s1 = let_in n l s)"
  then obtain n where n: "n \<in> waiters s l" "s1 = let_in n l s" by blast
  then have l: "holder s1 l = Some n" "waiters s1 l = waiters s l - {n}"
    and other: "\<And>l'. l' \<noteq> l \<Longrightarrow> holder s1 l' = holder s l' \<and> waiters s1 l' = waiters s l'"
    by (simp_all add: let_in_def)
  have "holder s' l = Some n \<and> waiters s' l = waiters s l - {n}"
    using assms(2) [unfolded scanned_def, rule_format, of l] l by simp
  then show ?thesis
    using assms(2) other in_l n(1) unfolding scanned_def by (metis insert_iff)
qed

lemma scanned_holder: "scanned L s s' \<Longrightarrow> holder s l \<noteq> None \<Longrightarrow> holder s' l \<noteq> None"
  unfolding scanned_def by (metis)

section \<open>Operations\<close>

text \<open>
  A history is a list of complete operations: \<open>acquire_lock\<close> and \<open>release_lock\<close> of a node, and
  what a scan of the manager does for one lock.
\<close>

datatype lock_op = Acquire NodeId LockId | Release NodeId LockId | Scan LockId

definition scan_lock ::
  "GlobalLockAlgorithm \<Rightarrow> SharedMemoryRegion option \<Rightarrow> ShmOffset \<Rightarrow> u32 \<Rightarrow> LockId \<Rightarrow> LockResult prog"
where
  "scan_lock alg shm off nc l =
     bind (alg_check_grant alg l shm off nc) (\<lambda>grantee.
       if grantee \<noteq> INVALID_NODE_ID then alg_grant_lock alg grantee l shm off
       else Ret ERROR_BUSY)"

fun op_prog ::
  "nat \<Rightarrow> GlobalLockAlgorithm \<Rightarrow> SharedMemoryRegion \<Rightarrow> ShmOffset \<Rightarrow> u32 \<Rightarrow> lock_op \<Rightarrow> LockResult prog"
where
  "op_prog fuel alg sh off nc (Acquire n l) = alg_acquire_lock fuel alg n l (Some sh) off"
| "op_prog fuel alg sh off nc (Release n l) = alg_release_lock fuel alg n l (Some sh) off"
| "op_prog fuel alg sh off nc (Scan l) = scan_lock alg (Some sh) off nc l"

fun run_ops ::
  "nat \<Rightarrow> GlobalLockAlgorithm \<Rightarrow> SharedMemoryRegion \<Rightarrow> ShmOffset \<Rightarrow> u32 \<Rightarrow> lock_op list \<Rightarrow> mem \<Rightarrow>
   LockResult list outcome"
where
  "run_ops fuel alg sh off nc [] m = Result [] m"
| "run_ops fuel alg sh off nc (op # ops) m =
     (case run sh (op_prog fuel alg sh off nc op) m of
        Result rc m1 \<Rightarrow>
          (case run_ops fuel alg sh off nc ops m1 of
             Result rcs m2 \<Rightarrow> Result (rc # rcs) m2 | Fault \<Rightarrow> Fault | NoFuel \<Rightarrow> NoFuel)
      | Fault \<Rightarrow> Fault | NoFuel \<Rightarrow> NoFuel)"

section \<open>Safety\<close>

text \<open>
  \<open>impl m s\<close>: the memory implements the state \<open>s\<close> of the service, for the locks \<open>locks\<close>. \<open>may_request\<close> is what the
  algorithm demands of a node that calls \<open>acquire_lock\<close>. A holder that is already inside may
  be granted again, without effect on the service.
\<close>

locale lock_safe =
  fixes alg :: GlobalLockAlgorithm
    and sh :: SharedMemoryRegion
    and off :: ShmOffset
    and nc :: u32
    and locks :: "LockId set"
    and fuel :: nat
    and impl :: "mem \<Rightarrow> service \<Rightarrow> bool"
    and may_request :: "mem \<Rightarrow> service \<Rightarrow> NodeId \<Rightarrow> LockId \<Rightarrow> bool"
  assumes acquire:
      "impl m s \<Longrightarrow> may_request m s n l \<Longrightarrow> n < nc \<Longrightarrow> l \<in> locks \<Longrightarrow>
       \<exists>m' s'. run sh (alg_acquire_lock fuel alg n l (Some sh) off) m = Result SUCCESS m' \<and>
         impl m' s' \<and>
         (s' = add_waiter n l s \<or> holder s l = None \<and> waiters s l = {} \<and> s' = let_in n l s)"
    and release:
      "impl m s \<Longrightarrow> holder s l = Some n \<Longrightarrow> n < nc \<Longrightarrow> l \<in> locks \<Longrightarrow>
       \<exists>m' s'. run sh (alg_release_lock fuel alg n l (Some sh) off) m = Result SUCCESS m' \<and>
         impl m' s' \<and>
         (s' = let_out l s \<or> (\<exists>n' \<in> waiters s l. s' = let_in n' l s))"
    and check:
      "impl m s \<Longrightarrow> l \<in> locks \<Longrightarrow>
       \<exists>r m'. run sh (alg_check_grant alg l (Some sh) off nc) m = Result r m' \<and>
         (r = INVALID_NODE_ID \<and> impl m' s \<or>
          r \<noteq> INVALID_NODE_ID \<and>
          (\<exists>m''. run sh (alg_grant_lock alg r l (Some sh) off) m' = Result SUCCESS m'' \<and>
             (holder s l = Some r \<and> impl m'' s \<or>
              holder s l = None \<and> r \<in> waiters s l \<and> impl m'' (let_in r l s))))"
    and poll:
      "impl m s \<Longrightarrow> l \<in> locks \<Longrightarrow> n < nc \<Longrightarrow> n \<in> waiters s l \<or> holder s l = Some n \<Longrightarrow>
       client_lock alg sh nc off n tt \<Longrightarrow>
       run sh (tt_granted tt l) m = Result (holder s l = Some n) m"
begin

text \<open>The manager, for one lock.\<close>

lemma scan_lock_step:
  assumes "impl m s" and "l \<in> locks"
  shows "\<exists>rc m' s'. run sh (scan_lock alg (Some sh) off nc l) m = Result rc m' \<and> impl m' s' \<and>
           (s' = s \<or> holder s l = None \<and> (\<exists>n \<in> waiters s l. s' = let_in n l s))"
proof -
  obtain r m' where chk: "run sh (alg_check_grant alg l (Some sh) off nc) m = Result r m'"
    and r: "r = INVALID_NODE_ID \<and> impl m' s \<or>
          r \<noteq> INVALID_NODE_ID \<and>
          (\<exists>m''. run sh (alg_grant_lock alg r l (Some sh) off) m' = Result SUCCESS m'' \<and>
             (holder s l = Some r \<and> impl m'' s \<or>
              holder s l = None \<and> r \<in> waiters s l \<and> impl m'' (let_in r l s)))"
    using check [OF assms] by blast
  show ?thesis
  proof (cases "r = INVALID_NODE_ID")
    case True
    then show ?thesis using chk r by (auto simp: scan_lock_def run_bind)
  next
    case False
    then show ?thesis using chk r by (fastforce simp: scan_lock_def run_bind)
  qed
qed

lemma acquire_step:
  assumes "impl m s" "may_request m s n l" "n < nc" "l \<in> locks"
  shows "\<exists>m' s'. run sh (alg_acquire_lock fuel alg n l (Some sh) off) m = Result SUCCESS m' \<and>
           impl m' s' \<and> service_step s s'"
  using acquire [OF assms] by (auto intro: service_step.intros)

lemma release_step:
  assumes "impl m s" "holder s l = Some n" "n < nc" "l \<in> locks"
  shows "\<exists>m' s'. run sh (alg_release_lock fuel alg n l (Some sh) off) m = Result SUCCESS m' \<and>
           impl m' s' \<and> service_step s s'"
  using release [OF assms] assms(2) by (auto intro: service_step.intros)

text \<open>At most one node sees the grant of a lock.\<close>

lemma poll_exclusive:
  assumes "impl m s" and "l \<in> locks" and "n < nc" and "n' < nc"
    and "n \<in> waiters s l \<or> holder s l = Some n" and "n' \<in> waiters s l \<or> holder s l = Some n'"
    and "client_lock alg sh nc off n tt" and "client_lock alg sh nc off n' tt'"
    and "run sh (tt_granted tt l) m = Result True m" and "run sh (tt_granted tt' l) m = Result True m"
  shows "n = n'"
  using poll [OF assms(1,2,3,5,7)] poll [OF assms(1,2,4,6,8)] assms(9,10) by simp

text \<open>A scan over several locks changes each of them at most by letting a waiter in.\<close>

lemma scan_one:
  assumes "impl m s" and "l \<in> locks"
  shows "\<exists>m1 s1 w1 st1.
           run sh (scan_locks alg (Some sh) off nc (l # ls) w st) m =
             run sh (scan_locks alg (Some sh) off nc ls w1 st1) m1 \<and>
           impl m1 s1 \<and> (s1 = s \<or> holder s l = None \<and> (\<exists>n \<in> waiters s l. s1 = let_in n l s)) \<and>
           ((\<exists>r m'. run sh (alg_check_grant alg l (Some sh) off nc) m = Result r m' \<and> r \<noteq> INVALID_NODE_ID)
              \<longrightarrow> holder s1 l \<noteq> None)"
proof -
  obtain r m1 where chk: "run sh (alg_check_grant alg l (Some sh) off nc) m = Result r m1"
    and r: "r = INVALID_NODE_ID \<and> impl m1 s \<or>
          r \<noteq> INVALID_NODE_ID \<and>
          (\<exists>m2. run sh (alg_grant_lock alg r l (Some sh) off) m1 = Result SUCCESS m2 \<and>
             (holder s l = Some r \<and> impl m2 s \<or>
              holder s l = None \<and> r \<in> waiters s l \<and> impl m2 (let_in r l s)))"
    using check [OF assms] by blast
  show ?thesis
  proof (cases "r = INVALID_NODE_ID")
    case True
    then show ?thesis
      using chk r by (intro exI [of _ m1] exI [of _ s] exI [of _ w] exI [of _ st]) (simp add: run_bind)
  next
    case False
    then obtain m2 s2 where "run sh (alg_grant_lock alg r l (Some sh) off) m1 = Result SUCCESS m2"
        "impl m2 s2" "s2 = s \<and> holder s l = Some r \<or> holder s l = None \<and> r \<in> waiters s l \<and> s2 = let_in r l s"
      using r by blast
    then show ?thesis
      using chk False
      by (intro exI [of _ m2] exI [of _ s2] exI [of _ True] exI [of _ "count_grant l st"])
         (auto simp: run_bind let_in_def)
  qed
qed

lemma scan_locks_step:
  assumes "impl m s" and "\<forall>l \<in> set ls. l \<in> locks"
  shows "\<exists>w' st' m' s'. run sh (scan_locks alg (Some sh) off nc ls w st) m = Result (w', st') m' \<and>
           impl m' s' \<and> scanned (set ls) s s'"
  using assms
proof (induction ls arbitrary: m s w st)
  case Nil
  then show ?case using scanned_refl by auto
next
  case (Cons l ls)
  then have l: "l \<in> locks" by simp
  obtain m1 s1 w1 st1 where one:
      "run sh (scan_locks alg (Some sh) off nc (l # ls) w st) m =
         run sh (scan_locks alg (Some sh) off nc ls w1 st1) m1" "impl m1 s1"
      "s1 = s \<or> holder s l = None \<and> (\<exists>n \<in> waiters s l. s1 = let_in n l s)"
    using scan_one [OF Cons.prems(1) l, of ls w st] by blast
  obtain w' st' m' s' where rest:
      "run sh (scan_locks alg (Some sh) off nc ls w1 st1) m1 = Result (w', st') m'" "impl m' s'"
      "scanned (set ls) s1 s'"
    using Cons.IH [OF one(2), of w1 st1] Cons.prems(2) by auto
  then show ?case
    using one(1) scanned_step [OF one(3) rest(3)]
    by (intro exI [of _ w'] exI [of _ st'] exI [of _ m'] exI [of _ s'])
       (auto simp del: scan_locks.simps)
qed

end

section \<open>Progress of the manager\<close>

locale lock_live = lock_safe +
  assumes progress:
      "impl m s \<Longrightarrow> l \<in> locks \<Longrightarrow> holder s l = None \<Longrightarrow> waiters s l \<noteq> {} \<Longrightarrow>
       \<exists>r m'. run sh (alg_check_grant alg l (Some sh) off nc) m = Result r m' \<and> r \<noteq> INVALID_NODE_ID"
begin

text \<open>After a scan, every lock that was waited for is held.\<close>

lemma scan_locks_serve:
  assumes "impl m s" and "\<forall>l \<in> set ls. l \<in> locks"
  shows "\<exists>w' st' m' s'. run sh (scan_locks alg (Some sh) off nc ls w st) m = Result (w', st') m' \<and>
           impl m' s' \<and> scanned (set ls) s s' \<and>
           (\<forall>l \<in> set ls. waiters s l \<noteq> {} \<longrightarrow> holder s' l \<noteq> None)"
  using assms
proof (induction ls arbitrary: m s w st)
  case Nil
  then show ?case using scanned_refl by auto
next
  case (Cons l ls)
  then have l: "l \<in> locks" by simp
  obtain m1 s1 w1 st1 where one:
      "run sh (scan_locks alg (Some sh) off nc (l # ls) w st) m =
         run sh (scan_locks alg (Some sh) off nc ls w1 st1) m1" "impl m1 s1"
      "s1 = s \<or> holder s l = None \<and> (\<exists>n \<in> waiters s l. s1 = let_in n l s)"
    and served: "(\<exists>r m'. run sh (alg_check_grant alg l (Some sh) off nc) m = Result r m' \<and>
                    r \<noteq> INVALID_NODE_ID) \<longrightarrow> holder s1 l \<noteq> None"
    using scan_one [OF Cons.prems(1) l, of ls w st] by blast
  obtain w' st' m' s' where rest:
      "run sh (scan_locks alg (Some sh) off nc ls w1 st1) m1 = Result (w', st') m'" "impl m' s'"
      "scanned (set ls) s1 s'" "\<forall>l \<in> set ls. waiters s1 l \<noteq> {} \<longrightarrow> holder s' l \<noteq> None"
    using Cons.IH [OF one(2), of w1 st1] Cons.prems(2) by auto
  have "holder s1 l \<noteq> None" if "waiters s l \<noteq> {}"
    using progress [OF Cons.prems(1) l _ that] served one(3) by (auto simp: let_in_def)
  then have here: "holder s' l \<noteq> None" if "waiters s l \<noteq> {}"
    using scanned_holder [OF rest(3)] that by blast
  have there: "holder s' l' \<noteq> None" if "l' \<in> set ls" "waiters s l' \<noteq> {}" for l'
  proof (cases "l' = l")
    case True
    then show ?thesis using here that by simp
  next
    case False
    then have "waiters s1 l' = waiters s l'" using one(3) by (auto simp: let_in_def)
    then show ?thesis using rest(4) that by simp
  qed
  show ?case
    using one(1) rest(1,2) scanned_step [OF one(3) rest(3)] here there
    by (intro exI [of _ w'] exI [of _ st'] exI [of _ m'] exI [of _ s'])
       (auto simp del: scan_locks.simps)
qed

lemma single_scan_serves:
  assumes "impl m s" and "manager_ready alg sh nc off lm" and "{l. l < lm_max_locks lm} \<subseteq> locks"
  shows "\<exists>lm' m' s'. run sh (run_single_scan lm) m = Result lm' m' \<and> impl m' s' \<and>
           manager_ready alg sh nc off lm' \<and>
           scanned {l. l < lm_max_locks lm} s s' \<and>
           (\<forall>l < lm_max_locks lm. waiters s l \<noteq> {} \<longrightarrow> holder s' l \<noteq> None)"
proof -
  have ls: "\<forall>l \<in> set (u32_upto (lm_max_locks lm)). l \<in> locks"
    using assms(3) by auto
  obtain w' st' m' s' where m': "run sh (scan_locks alg (Some sh) off nc (u32_upto (lm_max_locks lm))
          False (lm_stats lm)) m = Result (w', st') m'" "impl m' s'"
      "scanned {l. l < lm_max_locks lm} s s'"
      "\<forall>l < lm_max_locks lm. waiters s l \<noteq> {} \<longrightarrow> holder s' l \<noteq> None"
    using scan_locks_serve [OF assms(1) ls, of False "lm_stats lm"] by auto
  define st where "st = (let st1 = st'\<lparr>scan_cycles := scan_cycles st' + 1\<rparr>
    in if \<not> w' then st1\<lparr>idle_cycles := idle_cycles st1 + 1\<rparr> else st1)"
  have "run sh (run_single_scan lm) m = Result (lm\<lparr>lm_stats := st\<rparr>) m'"
    using assms(2) m'(1) by (simp add: run_single_scan_def manager_ready_def run_bind Let_def st_def)
  moreover have "manager_ready alg sh nc off (lm\<lparr>lm_stats := st\<rparr>)"
    using assms(2) by (simp add: manager_ready_def)
  ultimately show ?thesis using m'(2-4) by blast
qed

text \<open>A request for a lock that nobody holds or wants: the next scan lets it in, and its poll succeeds.\<close>

lemma request_served:
  assumes "impl m s" and "may_request m s n l" and "n < nc" and "l \<in> locks"
    and "holder s l = None" and "waiters s l = {}"
    and "manager_ready alg sh nc off lm" and "l < lm_max_locks lm" and "{l. l < lm_max_locks lm} \<subseteq> locks"
    and "client_lock alg sh nc off n tt" and "0 < fuel'"
  shows "\<exists>m1 lm' m2 s2.
    run sh (alg_acquire_lock fuel alg n l (Some sh) off) m = Result SUCCESS m1 \<and>
    run sh (run_single_scan lm) m1 = Result lm' m2 \<and>
    run sh (poll_for_grant fuel' tt clk l timeout) m2 = Result SUCCESS m2 \<and> impl m2 s2 \<and> holder s2 l = Some n"
proof -
  obtain m1 s1 where m1: "run sh (alg_acquire_lock fuel alg n l (Some sh) off) m = Result SUCCESS m1" "impl m1 s1"
      "s1 = add_waiter n l s \<or> s1 = let_in n l s"
    using acquire [OF assms(1-4)] by blast
  obtain lm' m2 s2 where m2: "run sh (run_single_scan lm) m1 = Result lm' m2" "impl m2 s2"
      "scanned {l. l < lm_max_locks lm} s1 s2" "\<forall>l < lm_max_locks lm. waiters s1 l \<noteq> {} \<longrightarrow> holder s2 l \<noteq> None"
    using single_scan_serves [OF m1(2) assms(7,9)] by blast
  have h: "holder s2 l = Some n"
    using m1(3)
  proof
    assume "s1 = add_waiter n l s"
    then have "waiters s1 l = {n}" "holder s1 l = None" using assms(5,6) by (simp_all add: add_waiter_def)
    then show ?thesis
      using m2(3) [unfolded scanned_def, rule_format, of l] m2(4) assms(8) by auto
  next
    assume "s1 = let_in n l s"
    then have "holder s1 l = Some n" by (simp add: let_in_def)
    then show ?thesis using m2(3) [unfolded scanned_def, rule_format, of l] by simp
  qed
  then have "run sh (tt_granted tt l) m2 = Result True m2"
    using poll [OF m2(2) assms(4,3) disjI2 [OF h] assms(10)] by simp
  from run_poll_granted [OF this assms(11)] show ?thesis
    using m1(1) m2(1,2) h by blast
qed

end

section \<open>Cancellation\<close>

text \<open>
  Some algorithms let a waiter withdraw its request by \<open>release_lock\<close>, which is how
  \<open>TwoTierLock::acquire\<close> cancels. Then an acquisition that fails leaves no trace.
\<close>

locale lock_cancel = lock_safe +
  assumes cancel:
      "impl m s \<Longrightarrow> n \<in> waiters s l \<Longrightarrow> n < nc \<Longrightarrow> l \<in> locks \<Longrightarrow>
       \<exists>m'. run sh (alg_release_lock fuel alg n l (Some sh) off) m = Result SUCCESS m' \<and>
         impl m' (drop_waiter n l s)"
begin

lemma failed_acquire:
  assumes "impl m s" and "may_request m s n l" and "n < nc" and "l \<in> locks"
    and "n \<notin> waiters s l" and "holder s l \<noteq> None" and "holder s l \<noteq> Some n"
    and "client_lock alg sh nc off n tt" and "poll_ends fuel clk timeout"
  shows "\<exists>m'. run sh (tt_global_acquire fuel tt alg clk l timeout) m = Result (poll_failure timeout) m' \<and>
           impl m' s"
proof -
  obtain m1 where m1: "run sh (alg_acquire_lock fuel alg n l (Some sh) off) m = Result SUCCESS m1"
      "impl m1 (add_waiter n l s)"
    using acquire [OF assms(1-4)] assms(6) by auto
  have in_s1: "n \<in> waiters (add_waiter n l s) l" and h1: "holder (add_waiter n l s) l \<noteq> Some n"
    using assms(7) by (simp_all add: add_waiter_def)
  have p: "run sh (poll_for_grant fuel tt clk l timeout) m1 = Result (poll_failure timeout) m1"
    using poll [OF m1(2) assms(4,3) disjI1 [OF in_s1] assms(8)] h1
    by (intro run_poll_not_granted [OF _ assms(9)]) simp
  obtain m2 where m2: "run sh (alg_release_lock fuel alg n l (Some sh) off) m1 = Result SUCCESS m2"
      "impl m2 (drop_waiter n l (add_waiter n l s))"
    using cancel [OF m1(2) in_s1 assms(3,4)] by blast
  have restored: "drop_waiter n l (add_waiter n l s) = s"
    using assms(5) by (auto simp: drop_waiter_def add_waiter_def)
  show ?thesis
    using assms(8) m1 p m2 restored
    by (simp add: tt_global_acquire_def client_lock_def run_bind poll_failure_def)
qed

end

section \<open>A concrete system\<close>

text \<open>The manager and the two-tier lock of node \<open>n\<close> in a two-node system over the concrete mapping.\<close>

definition demo_manager :: "GlobalLockAlgorithm \<Rightarrow> LockManager" where
  "demo_manager alg = new_lock_manager\<lparr>lm_shm := Some demo_region, lm_algorithm := Some alg,
     lm_max_locks := 1, lm_node_count := 2, lm_initialized := True, lm_is_manager := True\<rparr>"

lemma demo_fit: "lines_fit demo_region 2 0" "lines_fit demo_region 3 0"
  by (simp_all add: lines_fit_def lines_size_def MAX_NODE_COUNT_def)

lemma demo_manager_ready: "manager_ready alg demo_region 2 0 (demo_manager alg)"
  by (simp add: manager_ready_def demo_manager_def new_lock_manager_def MAX_LOCK_COUNT_def)

definition demo_lock :: "GlobalLockAlgorithm \<Rightarrow> NodeId \<Rightarrow> TwoTierLock" where
  "demo_lock alg n = new_two_tier_lock\<lparr>tt_node_id := n, tt_has_local_locks := True,
     tt_shm := Some demo_region, tt_algorithm := Some alg,
     tt_max_locks := 1, tt_node_count := 2, tt_initialized := True\<rparr>"

lemma demo_lock_client: "client_lock alg demo_region 2 0 n (demo_lock alg n)"
  by (simp add: client_lock_def demo_lock_def new_two_tier_lock_def)

end
