(* ===== verification/Cas_Scan.thy ===== *)
theory Cas_Scan
  imports Lock_Manager
begin

text \<open>
  One scan of the lock manager over the CAS algorithm, as a function of the slot table: which
  locks it grants, to whom, and what it counts.
\<close>

abbreviation cas_row :: "u32 \<Rightarrow> ShmOffset \<Rightarrow> mem \<Rightarrow> LockId \<Rightarrow> NodeId \<Rightarrow> u32" where
  "cas_row nc off m l \<equiv> (\<lambda>n. m (cas_slot nc off l n))"

definition cas_grant_row :: "u32 \<Rightarrow> ShmOffset \<Rightarrow> LockId \<Rightarrow> mem \<Rightarrow> mem" where
  "cas_grant_row nc off l m =
     (case cas_pick nc (cas_row nc off m l) of None \<Rightarrow> m | Some n \<Rightarrow> m(cas_slot nc off l n := 2))"

definition cas_grantable :: "u32 \<Rightarrow> ShmOffset \<Rightarrow> mem \<Rightarrow> LockId \<Rightarrow> bool" where
  "cas_grantable nc off m l \<longleftrightarrow> cas_pick nc (cas_row nc off m l) \<noteq> None"

lemma cas_pick_cong: "(\<And>n. n < nc \<Longrightarrow> f n = g n) \<Longrightarrow> cas_pick nc f = cas_pick nc g"
  unfolding cas_pick_def by (auto intro!: find_cong)

lemma cas_grant_row_other:
  assumes "nc \<le> MAX_NODE_COUNT" "l < MAX_LOCK_COUNT" "l' < MAX_LOCK_COUNT" "n < nc" "l' \<noteq> l"
  shows "cas_grant_row nc off l m (cas_slot nc off l' n) = m (cas_slot nc off l' n)"
proof (cases "cas_pick nc (cas_row nc off m l)")
  case (Some n')
  then have "n' < nc" by (simp add: cas_pick_Some)
  then have "cas_slot nc off l' n \<noteq> cas_slot nc off l n'"
    using assms cas_slot_inj [OF assms(1,3,4,2)] by simp
  then show ?thesis using Some by (simp add: cas_grant_row_def)
qed (simp add: cas_grant_row_def)

lemma cas_grant_row_same:
  assumes "nc \<le> MAX_NODE_COUNT" "l < MAX_LOCK_COUNT" "n < nc"
  shows "cas_grant_row nc off l m (cas_slot nc off l n) =
         (if cas_pick nc (cas_row nc off m l) = Some n then 2 else m (cas_slot nc off l n))"
proof (cases "cas_pick nc (cas_row nc off m l)")
  case (Some n')
  then have "n' < nc" by (simp add: cas_pick_Some)
  then show ?thesis
    using Some cas_slot_inj [OF assms assms(2)] by (simp add: cas_grant_row_def)
qed (simp add: cas_grant_row_def)

lemma run_cas_scan:
  assumes "cas_fits sh nc off" and "\<forall>l \<in> set ls. l < MAX_LOCK_COUNT" and "distinct ls"
  shows "run sh (scan_locks (CasAlgorithm \<lparr>cas_node_count = nc\<rparr>) (Some sh) off nc ls w st) m =
         Result (w \<or> filter (cas_grantable nc off m) ls \<noteq> [],
                 fold count_grant (filter (cas_grantable nc off m) ls) st)
                (fold (cas_grant_row nc off) ls m)"
  using assms(2,3)
proof (induction ls arbitrary: w st m)
  case Nil
  then show ?case by simp
next
  case (Cons l ls)
  have nc: "nc \<le> MAX_NODE_COUNT" using assms(1) by (simp add: cas_fits_def)
  have l: "l < MAX_LOCK_COUNT" using Cons.prems by simp
  note check = run_cas_check [OF assms(1) l, of m]
  have same: "cas_grantable nc off (cas_grant_row nc off l m) l' = cas_grantable nc off m l'"
    if "l' \<in> set ls" for l'
  proof -
    have "cas_pick nc (cas_row nc off (cas_grant_row nc off l m) l') = cas_pick nc (cas_row nc off m l')"
      using Cons.prems that nc l by (intro cas_pick_cong cas_grant_row_other) auto
    then show ?thesis by (simp add: cas_grantable_def)
  qed
  have keep: "filter (cas_grantable nc off (cas_grant_row nc off l m)) ls = filter (cas_grantable nc off m) ls"
    by (rule filter_cong [OF refl]) (rule same)
  show ?case
  proof (cases "cas_pick nc (cas_row nc off m l)")
    case None
    then have "cas_grant_row nc off l m = m" "\<not> cas_grantable nc off m l"
      by (simp_all add: cas_grant_row_def cas_grantable_def)
    then show ?thesis
      using Cons check None by (simp add: alg_check_grant_def run_bind)
  next
    case (Some n)
    then have n: "n < nc" "m (cas_slot nc off l n) = 1" by (simp_all add: cas_pick_Some)
    have "cas_grant_row nc off l m = m(cas_slot nc off l n := 2)" "cas_grantable nc off m l"
      using Some by (simp_all add: cas_grant_row_def cas_grantable_def)
    then show ?thesis
      using Cons check Some n cas_fits_node [OF assms(1) n(1)] keep
      by (simp add: alg_check_grant_def alg_grant_lock_def run_bind run_cas_grant [OF assms(1) l])
  qed
qed

text \<open>The effect of the scan on a slot.\<close>

lemma fold_cas_grant_row:
  assumes "nc \<le> MAX_NODE_COUNT" and "\<forall>l \<in> set ls. l < MAX_LOCK_COUNT" and "distinct ls"
    and "l < MAX_LOCK_COUNT" and "n < nc"
  shows "fold (cas_grant_row nc off) ls m (cas_slot nc off l n) =
         (if l \<in> set ls \<and> cas_pick nc (cas_row nc off m l) = Some n then 2
          else m (cas_slot nc off l n))"
  using assms(2,3)
proof (induction ls arbitrary: m)
  case Nil
  then show ?case by simp
next
  case (Cons l' ls)
  show ?case
  proof (cases "l' = l")
    case True
    then have "l \<notin> set ls" using Cons.prems by simp
    then show ?thesis
      using Cons True cas_grant_row_same [OF assms(1,4,5)] by simp
  next
    case False
    have other: "cas_row nc off (cas_grant_row nc off l' m) l n' = cas_row nc off m l n'" if "n' < nc" for n'
      using Cons.prems False assms(1,4) that by (intro cas_grant_row_other) auto
    then have "cas_pick nc (cas_row nc off (cas_grant_row nc off l' m) l) = cas_pick nc (cas_row nc off m l)"
      by (intro cas_pick_cong)
    then show ?thesis
      using Cons False other [OF assms(5)] by simp
  qed
qed

text \<open>What the counting adds up to.\<close>

lemma fold_count_grant:
  "grants_total (fold count_grant ls st) = grants_total st + of_nat (length ls)"
  "scan_cycles (fold count_grant ls st) = scan_cycles st"
  "idle_cycles (fold count_grant ls st) = idle_cycles st"
  "length (grants_by_lock (fold count_grant ls st)) = length (grants_by_lock st)"
  by (induction ls arbitrary: st) (simp_all add: count_grant_def algebra_simps)

lemma run_cas_single_scan:
  assumes "cas_fits sh nc off" and "lm_algorithm lm = Some (CasAlgorithm \<lparr>cas_node_count = nc\<rparr>)"
    and "lm_shm lm = Some sh" and "lm_node_count lm = nc" and "lm_state_offset lm = off"
    and "lm_max_locks lm \<le> MAX_LOCK_COUNT"
  shows "run sh (run_single_scan lm) m =
    (let grants = filter (cas_grantable nc off m) (u32_upto (lm_max_locks lm));
         st = fold count_grant grants (lm_stats lm)
     in Result (lm\<lparr>lm_stats := st\<lparr>scan_cycles := scan_cycles (lm_stats lm) + 1,
                     idle_cycles := idle_cycles (lm_stats lm) + (if grants = [] then 1 else 0)\<rparr>\<rparr>)
          (fold (cas_grant_row nc off) (u32_upto (lm_max_locks lm)) m))"
proof -
  have "\<forall>l \<in> set (u32_upto (lm_max_locks lm)). l < MAX_LOCK_COUNT" using assms(6) by auto
  from run_cas_scan [OF assms(1) this distinct_u32_upto, where w = False and st = "lm_stats lm" and m = m]
  show ?thesis
    using assms(2-5) by (simp add: run_single_scan_def run_bind Let_def fold_count_grant)
qed

end
