(* ===== verification/Cas_Service.thy ===== *)
theory Cas_Service
  imports Lock_Contract Cas_Scan
begin

text \<open>
  The CAS algorithm implements the lock service: the slot table is the state of the service,
  \<open>LOCKED\<close> slots are holders and \<open>WAITING\<close> slots are waiters. All laws of the contract hold:
  safety, progress of the manager and cancellation.
\<close>

definition cas_impl :: "SharedMemoryRegion \<Rightarrow> u32 \<Rightarrow> ShmOffset \<Rightarrow> mem \<Rightarrow> service \<Rightarrow> bool" where
  "cas_impl sh nc off m s \<longleftrightarrow> cas_fits sh nc off \<and>
     (\<forall>l < MAX_LOCK_COUNT. \<forall>n.
        (holder s l = Some n \<longleftrightarrow> n < nc \<and> m (cas_slot nc off l n) = 2) \<and>
        (n \<in> waiters s l \<longleftrightarrow> n < nc \<and> m (cas_slot nc off l n) = 1))"

lemma cas_impl_fits: "cas_impl sh nc off m s \<Longrightarrow> cas_fits sh nc off"
  by (simp add: cas_impl_def)

lemma cas_impl_holder:
  "cas_impl sh nc off m s \<Longrightarrow> l < MAX_LOCK_COUNT \<Longrightarrow>
   holder s l = Some n \<longleftrightarrow> n < nc \<and> m (cas_slot nc off l n) = 2"
  by (simp add: cas_impl_def)

lemma cas_impl_waiters:
  "cas_impl sh nc off m s \<Longrightarrow> l < MAX_LOCK_COUNT \<Longrightarrow>
   n \<in> waiters s l \<longleftrightarrow> n < nc \<and> m (cas_slot nc off l n) = 1"
  by (simp add: cas_impl_def)

text \<open>
  Writing one slot changes the service at one lock only.
\<close>

lemma cas_impl_update:
  assumes "cas_impl sh nc off m s" and "n < nc" and "l < MAX_LOCK_COUNT"
    and "\<And>l'. l' \<noteq> l \<Longrightarrow> holder s' l' = holder s l' \<and> waiters s' l' = waiters s l'"
    and "\<And>n'. holder s' l = Some n' \<longleftrightarrow> (if n' = n then v = 2 else holder s l = Some n')"
    and "\<And>n'. n' \<in> waiters s' l \<longleftrightarrow> (if n' = n then v = 1 else n' \<in> waiters s l)"
  shows "cas_impl sh nc off (m(cas_slot nc off l n := v)) s'"
proof -
  have nc: "nc \<le> MAX_NODE_COUNT" using assms(1) by (simp add: cas_impl_def cas_fits_def)
  have slot: "(m(cas_slot nc off l n := v)) (cas_slot nc off l' n') =
      (if l' = l \<and> n' = n then v else m (cas_slot nc off l' n'))"
    if "l' < MAX_LOCK_COUNT" "n' < nc" for l' n'
    using cas_slot_inj [OF nc that assms(3,2)] by simp
  have "(holder s' l' = Some n' \<longleftrightarrow> n' < nc \<and> (m(cas_slot nc off l n := v)) (cas_slot nc off l' n') = 2) \<and>
        (n' \<in> waiters s' l' \<longleftrightarrow> n' < nc \<and> (m(cas_slot nc off l n := v)) (cas_slot nc off l' n') = 1)"
    if "l' < MAX_LOCK_COUNT" for l' n'
  proof (cases "l' = l \<and> n' = n")
    case True
    then show ?thesis using assms(2,5,6) by simp
  next
    case False
    then show ?thesis
      using assms(4-6) that cas_impl_holder [OF assms(1) that] cas_impl_waiters [OF assms(1) that] slot [OF that]
      by (cases "l' = l"; cases "n' < nc") auto
  qed
  then show ?thesis
    using cas_impl_fits [OF assms(1)] by (simp add: cas_impl_def del: fun_upd_apply)
qed

lemma cas_pick_service:
  assumes "cas_impl sh nc off m s" and "l < MAX_LOCK_COUNT"
  shows "cas_pick nc (cas_row nc off m l) = None \<longleftrightarrow> holder s l \<noteq> None \<or> waiters s l = {}"
    and "cas_pick nc (cas_row nc off m l) = Some n \<Longrightarrow> holder s l = None \<and> n \<in> waiters s l \<and> n < nc"
proof -
  note h = cas_impl_holder [OF assms] and w = cas_impl_waiters [OF assms]
  have held: "(\<exists>n' < nc. m (cas_slot nc off l n') = 2) \<longleftrightarrow> holder s l \<noteq> None"
    using h by (metis not_None_eq option.exhaust)
  have wait: "(\<forall>n' < nc. m (cas_slot nc off l n') \<noteq> 1) \<longleftrightarrow> waiters s l = {}"
    using w by (metis all_not_in_conv)
  show "cas_pick nc (cas_row nc off m l) = None \<longleftrightarrow> holder s l \<noteq> None \<or> waiters s l = {}"
    using held wait by (simp add: cas_pick_None)
  show "holder s l = None \<and> n \<in> waiters s l \<and> n < nc" if "cas_pick nc (cas_row nc off m l) = Some n"
    using that held w [of n] by (auto simp: cas_pick_Some)
qed

lemma run_tt_granted_cas:
  assumes "cas_fits sh nc off" and "l < MAX_LOCK_COUNT" and "n < nc"
    and "client_lock (CasAlgorithm a) sh nc off n tt"
  shows "run sh (tt_granted tt l) m = Result (m (cas_slot nc off l n) = 2) m"
  using assms(4) cas_slot_addr [OF assms(1-3)]
  by (simp add: tt_granted_def client_lock_def cas_get_slot_addr_def cas_get_slot_offset_def prog_simps)

text \<open>The laws.\<close>

interpretation cas: lock_live
  "CasAlgorithm \<lparr>cas_node_count = nc\<rparr>" sh off nc "{l. l < MAX_LOCK_COUNT}" fuel "cas_impl sh nc off"
  "\<lambda>m s n l. holder s l \<noteq> Some n"
  for sh off nc fuel
proof unfold_locales
  fix m s n l
  assume impl: "cas_impl sh nc off m s" and "l \<in> {l. l < MAX_LOCK_COUNT}"
  then have l: "l < MAX_LOCK_COUNT" by simp
  note fits = cas_impl_fits [OF impl]
  show "\<exists>m' s'. run sh (alg_acquire_lock fuel (CasAlgorithm \<lparr>cas_node_count = nc\<rparr>) n l (Some sh) off) m =
          Result SUCCESS m' \<and> cas_impl sh nc off m' s' \<and>
          (s' = add_waiter n l s \<or> holder s l = None \<and> waiters s l = {} \<and> s' = let_in n l s)"
    if "holder s l \<noteq> Some n" "n < nc"
  proof -
    have "cas_impl sh nc off (m(cas_slot nc off l n := 1)) (add_waiter n l s)"
      using that l impl by (intro cas_impl_update) (auto simp: add_waiter_def)
    then show ?thesis
      using that l by (auto simp: alg_acquire_lock_def run_cas_acquire [OF fits])
  qed
  show "\<exists>m' s'. run sh (alg_release_lock fuel (CasAlgorithm \<lparr>cas_node_count = nc\<rparr>) n l (Some sh) off) m =
          Result SUCCESS m' \<and> cas_impl sh nc off m' s' \<and>
          (s' = let_out l s \<or> (\<exists>n' \<in> waiters s l. s' = let_in n' l s))"
    if "holder s l = Some n" "n < nc"
  proof -
    have "n \<notin> waiters s l"
      using that cas_impl_holder [OF impl l] cas_impl_waiters [OF impl l] by auto
    then have "cas_impl sh nc off (m(cas_slot nc off l n := 0)) (let_out l s)"
      using that l impl by (intro cas_impl_update) (auto simp: let_out_def)
    then show ?thesis
      using that l by (auto simp: alg_release_lock_def run_cas_release [OF fits])
  qed
  let ?check = "alg_check_grant (CasAlgorithm \<lparr>cas_node_count = nc\<rparr>) l (Some sh) off nc"
  show "\<exists>r m'. run sh ?check m = Result r m' \<and>
          (r = INVALID_NODE_ID \<and> cas_impl sh nc off m' s \<or>
           r \<noteq> INVALID_NODE_ID \<and>
           (\<exists>m''. run sh (alg_grant_lock (CasAlgorithm \<lparr>cas_node_count = nc\<rparr>) r l (Some sh) off) m' =
                Result SUCCESS m'' \<and>
              (holder s l = Some r \<and> cas_impl sh nc off m'' s \<or>
               holder s l = None \<and> r \<in> waiters s l \<and> cas_impl sh nc off m'' (let_in r l s))))"
  proof (cases "cas_pick nc (cas_row nc off m l)")
    case None
    then show ?thesis using impl by (simp add: alg_check_grant_def run_cas_check [OF fits l])
  next
    case (Some r)
    note r = cas_pick_service(2) [OF impl l Some]
    have "m (cas_slot nc off l r) = 1" using Some by (simp add: cas_pick_Some)
    moreover have "cas_impl sh nc off (m(cas_slot nc off l r := 2)) (let_in r l s)"
      using r impl l by (intro cas_impl_update) (auto simp: let_in_def)
    ultimately show ?thesis
      using Some r l cas_fits_node [OF fits, of r]
      by (auto simp: alg_check_grant_def alg_grant_lock_def run_cas_check [OF fits l] run_cas_grant [OF fits l])
  qed
  show "\<exists>r m'. run sh ?check m = Result r m' \<and> r \<noteq> INVALID_NODE_ID"
    if free: "holder s l = None" "waiters s l \<noteq> {}"
  proof -
    obtain r where "cas_pick nc (cas_row nc off m l) = Some r"
      using cas_pick_service(1) [OF impl l] free by auto
    then show ?thesis
      using cas_pick_service(2) [OF impl l] cas_fits_node [OF fits, of r]
      by (simp add: alg_check_grant_def run_cas_check [OF fits l])
  qed
  show "run sh (tt_granted tt l) m = Result (holder s l = Some n) m"
    if "n < nc" "client_lock (CasAlgorithm \<lparr>cas_node_count = nc\<rparr>) sh nc off n tt" for tt
    using run_tt_granted_cas [OF fits l that] cas_impl_holder [OF impl l] that(1) by simp
qed

interpretation cas_cancel: lock_cancel
  "CasAlgorithm \<lparr>cas_node_count = nc\<rparr>" sh off nc "{l. l < MAX_LOCK_COUNT}" fuel "cas_impl sh nc off"
  "\<lambda>m s n l. holder s l \<noteq> Some n"
  for sh off nc fuel
proof unfold_locales
  fix m s n l
  assume impl: "cas_impl sh nc off m s" and n: "n \<in> waiters s l" "n < nc" and "l \<in> {l. l < MAX_LOCK_COUNT}"
  then have l: "l < MAX_LOCK_COUNT" by simp
  have "holder s l \<noteq> Some n"
    using n cas_impl_holder [OF impl l] cas_impl_waiters [OF impl l] by auto
  then have "cas_impl sh nc off (m(cas_slot nc off l n := 0)) (drop_waiter n l s)"
    using n l impl by (intro cas_impl_update) (auto simp: drop_waiter_def)
  then show "\<exists>m'. run sh (alg_release_lock fuel (CasAlgorithm \<lparr>cas_node_count = nc\<rparr>) n l (Some sh) off) m =
          Result SUCCESS m' \<and> cas_impl sh nc off m' (drop_waiter n l s)"
    using n l by (simp add: alg_release_lock_def run_cas_release [OF cas_impl_fits [OF impl]])
qed

section \<open>Initialisation\<close>

lemma run_cas_initialize:
  assumes "cas_fits sh nc off"
  shows "run sh (cas_initialize self (Some sh) off nc) m =
         Result (SUCCESS, self\<lparr>cas_node_count := nc\<rparr>)
           (zero_cells off (unat (cas_get_state_size nc)) m)"
proof -
  have nc: "nc \<noteq> 0" "\<not> MAX_NODE_COUNT < nc"
    using assms by (auto simp: cas_fits_def)
  have "0 < unat (cas_get_state_size nc)"
    using assms by (simp add: cas_fits_def cas_state_size_unat word_less_nat_alt)
  then have "off < shm_size sh"
    using assms by (simp add: cas_fits_def word_less_nat_alt)
  then have "offset_to_ptr sh off = Some (shm_base sh + off)"
    using assms by (simp add: cas_fits_def region_ok_offset_to_ptr)
  moreover have "in_bounds sh (shm_base sh + off) (unat (cas_get_state_size nc))"
    using assms by (intro in_bounds_base) (simp_all add: cas_fits_def region_ok_def)
  ultimately show ?thesis
    using nc by (simp add: cas_initialize_def Let_def prog_simps)
qed

lemma zero_cells_slot:
  assumes "cas_fits sh nc off" and "l < MAX_LOCK_COUNT" and "n < nc"
  shows "zero_cells off (unat (cas_get_state_size nc)) m (cas_slot nc off l n) = 0"
  using cas_slot_unat [OF assms] by (simp add: zero_cells_def)

lemma cas_impl_new:
  "cas_fits sh nc off \<Longrightarrow>
   cas_impl sh nc off (zero_cells off (unat (cas_get_state_size nc)) m) new_service"
  by (simp add: cas_impl_def new_service_def zero_cells_slot)

section \<open>Properties\<close>

text \<open>
  C18. A scan of the lock manager over the CAS algorithm serves every lock: whatever the slot
  table, after \<open>run_single_scan\<close> exactly the slots of the smallest \<open>WAITING\<close> node of each free
  lock have changed, to \<open>LOCKED\<close>; the statistics count one cycle, one grant per such lock,
  and an idle cycle exactly when there was none.
\<close>

theorem cas_scan_grants:
  assumes "cas_fits sh nc off" and "manager_ready (CasAlgorithm \<lparr>cas_node_count = nc\<rparr>) sh nc off lm"
  shows "\<exists>lm' m'. run sh (run_single_scan lm) m = Result lm' m' \<and>
    (\<forall>l n. l < MAX_LOCK_COUNT \<longrightarrow> n < nc \<longrightarrow>
       m' (cas_get_slot_offset l n nc off) =
         (if l < lm_max_locks lm \<and> (\<forall>n' < nc. m (cas_get_slot_offset l n' nc off) \<noteq> u32_of_slot LOCKED) \<and>
             m (cas_get_slot_offset l n nc off) = u32_of_slot WAITING \<and>
             (\<forall>n' < n. m (cas_get_slot_offset l n' nc off) \<noteq> u32_of_slot WAITING)
          then u32_of_slot LOCKED else m (cas_get_slot_offset l n nc off))) \<and>
    (let grants = filter (\<lambda>l. (\<forall>n < nc. m (cas_get_slot_offset l n nc off) \<noteq> u32_of_slot LOCKED) \<and>
                              (\<exists>n < nc. m (cas_get_slot_offset l n nc off) = u32_of_slot WAITING))
                    (u32_upto (lm_max_locks lm))
     in grants_total (lm_stats lm') = grants_total (lm_stats lm) + of_nat (length grants) \<and>
        scan_cycles (lm_stats lm') = scan_cycles (lm_stats lm) + 1 \<and>
        idle_cycles (lm_stats lm') = idle_cycles (lm_stats lm) + (if grants = [] then 1 else 0))"
proof -
  have nc: "nc \<le> MAX_NODE_COUNT" using assms(1) by (simp add: cas_fits_def)
  have ls: "\<forall>l \<in> set (u32_upto (lm_max_locks lm)). l < MAX_LOCK_COUNT"
    using assms(2) by (auto simp: manager_ready_def)
  have grantable: "cas_grantable nc off m =
      (\<lambda>l. (\<forall>n < nc. cas_row nc off m l n \<noteq> 2) \<and> (\<exists>n < nc. cas_row nc off m l n = 1))"
    by (auto simp: cas_grantable_def cas_pick_None fun_eq_iff simp del: not_None_eq)
  define grants where "grants = filter (cas_grantable nc off m) (u32_upto (lm_max_locks lm))"
  define lm' where "lm' = lm\<lparr>lm_stats := (fold count_grant grants (lm_stats lm))
    \<lparr>scan_cycles := scan_cycles (lm_stats lm) + 1,
     idle_cycles := idle_cycles (lm_stats lm) + (if grants = [] then 1 else 0)\<rparr>\<rparr>"
  define m' where "m' = fold (cas_grant_row nc off) (u32_upto (lm_max_locks lm)) m"
  have "run sh (run_single_scan lm) m = Result lm' m'"
    using run_cas_single_scan [OF assms(1), of lm m] assms(2)
    by (simp add: manager_ready_def Let_def lm'_def m'_def grants_def)
  moreover have "m' (cas_get_slot_offset l n nc off) =
      (if l < lm_max_locks lm \<and> (\<forall>n' < nc. m (cas_get_slot_offset l n' nc off) \<noteq> u32_of_slot LOCKED) \<and>
          m (cas_get_slot_offset l n nc off) = u32_of_slot WAITING \<and>
          (\<forall>n' < n. m (cas_get_slot_offset l n' nc off) \<noteq> u32_of_slot WAITING)
       then u32_of_slot LOCKED else m (cas_get_slot_offset l n nc off))"
    if "l < MAX_LOCK_COUNT" "n < nc" for l n
    using fold_cas_grant_row [OF nc ls distinct_u32_upto that, of off m] that(2)
    unfolding m'_def cas_pick_Some by simp
  moreover have "grants_total (lm_stats lm') = grants_total (lm_stats lm) + of_nat (length grants)"
    "scan_cycles (lm_stats lm') = scan_cycles (lm_stats lm) + 1"
    "idle_cycles (lm_stats lm') = idle_cycles (lm_stats lm) + (if grants = [] then 1 else 0)"
    by (simp_all add: lm'_def fold_count_grant)
  ultimately show ?thesis
    unfolding Let_def grants_def grantable by (intro exI [of _ lm'] exI [of _ m']) simp
qed

text \<open>Lock 0 of a two-node system: node 1 waits, nobody holds it.\<close>

theorem cas_scan_grants_witness:
  "\<exists>lm' m'. run demo_region (run_single_scan (demo_manager (CasAlgorithm \<lparr>cas_node_count = 2\<rparr>)))
       ((\<lambda>_. 0)(cas_get_slot_offset 0 1 2 0 := 1)) = Result lm' m' \<and>
     m' (cas_get_slot_offset 0 1 2 0) = 2 \<and> m' (cas_get_slot_offset 0 0 2 0) = 0"
proof -
  let ?m = "(\<lambda>_. 0)(cas_get_slot_offset 0 1 2 0 := 1) :: mem"
  have "cas_fits demo_region 2 0" by (simp add: demo_cas_fits MAX_NODE_COUNT_def)
  from cas_scan_grants [OF this demo_manager_ready, of ?m]
  obtain lm' m' where m': "run demo_region (run_single_scan (demo_manager (CasAlgorithm \<lparr>cas_node_count = 2\<rparr>))) ?m =
        Result lm' m'"
    and slots: "\<And>l n. l < MAX_LOCK_COUNT \<Longrightarrow> n < 2 \<Longrightarrow> m' (cas_get_slot_offset l n 2 0) =
         (if l < lm_max_locks (demo_manager (CasAlgorithm \<lparr>cas_node_count = 2\<rparr>)) \<and>
             (\<forall>n' < 2. ?m (cas_get_slot_offset l n' 2 0) \<noteq> u32_of_slot LOCKED) \<and>
             ?m (cas_get_slot_offset l n 2 0) = u32_of_slot WAITING \<and>
             (\<forall>n' < n. ?m (cas_get_slot_offset l n' 2 0) \<noteq> u32_of_slot WAITING)
          then u32_of_slot LOCKED else ?m (cas_get_slot_offset l n 2 0))"
    by blast
  have "?m (cas_get_slot_offset 0 0 2 0) = 0" by (simp add: cas_get_slot_offset_def)
  moreover have "n' = 0" if "n' < 1" for n' :: u32 using that by (simp add: word_less_1)
  ultimately have "m' (cas_get_slot_offset 0 1 2 0) = 2" "m' (cas_get_slot_offset 0 0 2 0) = 0"
    using slots [of 0 1] slots [of 0 0]
    by (auto simp: MAX_LOCK_COUNT_def demo_manager_def)
  with m' show ?thesis by blast
qed

text \<open>
  \<open>initialize\<close> of the CAS algorithm on a region that holds its state: it succeeds on every
  memory, sets exactly the cells of the slot table to 0, and so makes every slot \<open>IDLE\<close>,
  whatever was there before.
\<close>

theorem cas_initialize_clears:
  assumes "cas_fits sh nc off"
  shows "\<exists>m'. run sh (cas_initialize self (Some sh) off nc) m =
           Result (SUCCESS, self\<lparr>cas_node_count := nc\<rparr>) m' \<and>
    (\<forall>l n. l < MAX_LOCK_COUNT \<longrightarrow> n < nc \<longrightarrow> m' (cas_get_slot_offset l n nc off) = u32_of_slot IDLE) \<and>
    (\<forall>x. unat x < unat off \<or> unat off + unat (cas_get_state_size nc) \<le> unat x \<longrightarrow> m' x = m x)"
  using run_cas_initialize [OF assms, of self m] zero_cells_slot [OF assms, of _ _ m]
  by (auto simp: zero_cells_def)

theorem cas_initialize_clears_witness:
  "\<exists>m'. run demo_region (cas_initialize \<lparr>cas_node_count = 0\<rparr> (Some demo_region) 0 2) (\<lambda>_. 7) =
           Result (SUCCESS, \<lparr>cas_node_count = 2\<rparr>) m' \<and>
     m' (cas_get_slot_offset 5 1 2 0) = 0 \<and> m' 8192 = 7"
proof -
  have "cas_fits demo_region 2 0" by (simp add: demo_cas_fits MAX_NODE_COUNT_def)
  from cas_initialize_clears [OF this, of "\<lparr>cas_node_count = 0\<rparr>" "\<lambda>_. 7"] show ?thesis
    by (auto simp: MAX_LOCK_COUNT_def cas_state_size_unat MAX_NODE_COUNT_def)
qed

text \<open>
  C38. A failed acquisition leaves no trace under the CAS algorithm: when another node holds
  the lock and nothing interferes, the global part of \<open>TwoTierLock::acquire\<close> returns
  \<open>ERROR_BUSY\<close> (zero timeout) or \<open>ERROR_TIMEOUT\<close>, and the slot table is as before.
\<close>

theorem cas_failed_acquire_no_trace:
  assumes "cas_fits sh nc off" and "l < MAX_LOCK_COUNT" and "n < nc" and "h < nc" and "h \<noteq> n"
    and "client_lock (CasAlgorithm \<lparr>cas_node_count = nc\<rparr>) sh nc off n tt"
    and "m (cas_get_slot_offset l n nc off) = u32_of_slot IDLE"
    and "m (cas_get_slot_offset l h nc off) = u32_of_slot LOCKED"
    and "poll_ends fuel clk timeout"
  shows "run sh (tt_global_acquire fuel tt (CasAlgorithm \<lparr>cas_node_count = nc\<rparr>) clk l timeout) m =
         Result (poll_failure timeout) m"
proof -
  have tt: "tt_node_id tt = n" "tt_shm tt = Some sh" "tt_state_offset tt = off"
    using assms(6) by (simp_all add: client_lock_def)
  let ?m1 = "m(cas_slot nc off l n := 1)"
  have "run sh (tt_granted tt l) ?m1 = Result False ?m1"
    using run_tt_granted_cas [OF assms(1,2,3,6)] by simp
  from run_poll_not_granted [OF this assms(9)]
  have "run sh (poll_for_grant fuel tt clk l timeout) ?m1 = Result (poll_failure timeout) ?m1" .
  moreover have "?m1(cas_slot nc off l n := 0) = m"
    using assms(7) by (auto simp: fun_eq_iff)
  ultimately show ?thesis
    using tt assms(1-3)
    by (simp add: tt_global_acquire_def alg_acquire_lock_def alg_release_lock_def run_bind
        run_cas_acquire run_cas_release poll_failure_def)
qed

theorem cas_failed_acquire_no_trace_witness:
  "run demo_region (tt_global_acquire 8 (demo_lock (CasAlgorithm \<lparr>cas_node_count = 2\<rparr>) 1)
       (CasAlgorithm \<lparr>cas_node_count = 2\<rparr>) of_nat 0 5) ((\<lambda>_. 0)(cas_get_slot_offset 0 0 2 0 := 2)) =
   Result ERROR_TIMEOUT ((\<lambda>_. 0)(cas_get_slot_offset 0 0 2 0 := 2))"
proof -
  have fits: "cas_fits demo_region 2 0" by (simp add: demo_cas_fits MAX_NODE_COUNT_def)
  have "poll_ends 8 of_nat 5"
    by (simp add: poll_ends_def) (rule exI [of _ 5], simp)
  from cas_failed_acquire_no_trace [OF fits _ _ _ _ demo_lock_client _ _ this,
      of 0 1 0 "(\<lambda>_. 0)(cas_get_slot_offset 0 0 2 0 := 2)"]
  show ?thesis
    by (simp add: MAX_LOCK_COUNT_def poll_failure_def cas_get_slot_offset_def)
qed

section \<open>Overtaking\<close>

text \<open>
  One turn of a node at a free lock: it asks, a scan lets it in, it leaves. While only nodes with larger numbers wait for the
  lock, the turn gives back the slot table it started from.
\<close>

definition cas_turn :: "NodeId \<Rightarrow> LockId \<Rightarrow> lock_op list" where
  "cas_turn n l = [Acquire n l, Scan l, Release n l]"

lemma run_cas_turn:
  assumes "cas_fits sh nc off" and "l < MAX_LOCK_COUNT" and "n < nc"
    and "m (cas_slot nc off l n) = 0" and "\<And>n'. n' < nc \<Longrightarrow> m (cas_slot nc off l n') \<noteq> 2"
    and "\<And>n'. n' < n \<Longrightarrow> m (cas_slot nc off l n') \<noteq> 1"
  shows "run_ops fuel (CasAlgorithm \<lparr>cas_node_count = nc\<rparr>) sh off nc [Acquire n l, Scan l] m =
      Result [SUCCESS, SUCCESS] (m(cas_slot nc off l n := 2)) \<and>
    run_ops fuel (CasAlgorithm \<lparr>cas_node_count = nc\<rparr>) sh off nc (cas_turn n l) m = Result [SUCCESS, SUCCESS, SUCCESS] m"
proof -
  note fits = assms(1) and l = assms(2) and n = assms(3)
  have nc: "nc \<le> MAX_NODE_COUNT" using fits by (simp add: cas_fits_def)
  let ?m1 = "m(cas_slot nc off l n := 1)" and ?m2 = "m(cas_slot nc off l n := 2)"
  have slots: "?m1 (cas_slot nc off l n') = (if n' = n then 1 else m (cas_slot nc off l n'))" if "n' < nc" for n'
    using cas_slot_inj [OF nc l that l n, of off] by auto
  have "cas_pick nc (\<lambda>n'. ?m1 (cas_slot nc off l n')) = Some n"
    unfolding cas_pick_Some using n assms(5,6) slots by (auto dest: less_trans)
  then have scan: "run sh (scan_lock (CasAlgorithm \<lparr>cas_node_count = nc\<rparr>) (Some sh) off nc l) ?m1 = Result SUCCESS ?m2"
    using node_valid [OF nc n] slots [OF n]
    by (simp add: scan_lock_def alg_check_grant_def alg_grant_lock_def run_bind run_cas_check [OF fits l] run_cas_grant [OF fits l n])
  have "?m2(cas_slot nc off l n := 0) = m" using assms(4) by (auto simp: fun_eq_iff)
  then show ?thesis
    using scan by (simp add: cas_turn_def alg_acquire_lock_def alg_release_lock_def run_cas_acquire [OF fits l n]
        run_cas_release [OF fits l n])
qed

lemma run_ops_append:
  "run_ops fuel alg sh off nc ops m = Result rcs m' \<Longrightarrow>
   run_ops fuel alg sh off nc (ops @ ops') m =
     (case run_ops fuel alg sh off nc ops' m' of Result rcs' m'' \<Rightarrow> Result (rcs @ rcs') m'' | Fault \<Rightarrow> Fault | NoFuel \<Rightarrow> NoFuel)"
  by (induction ops arbitrary: m rcs) (auto split: outcome.splits)

text \<open>
  C19. The CAS algorithm starves: while node \<open>n2\<close> waits for a lock, a node with a smaller number can enter and leave it any number
  of times; each of its \<open>k\<close> turns (request, scan, release) lets it in, and after all of them node \<open>n2\<close> still waits,
  its slot unchanged.
\<close>

theorem cas_overtakes_for_ever:
  assumes "cas_fits sh nc off" and "l < MAX_LOCK_COUNT" and "n < n2" and "n2 < nc"
    and "\<And>n'. n' < nc \<Longrightarrow> m (cas_get_slot_offset l n' nc off) = u32_of_slot (if n' = n2 then WAITING else IDLE)"
  shows "run_ops fuel (CasAlgorithm \<lparr>cas_node_count = nc\<rparr>) sh off nc (concat (replicate k (cas_turn n l))) m =
      Result (replicate (3 * k) SUCCESS) m \<and>
    run_ops fuel (CasAlgorithm \<lparr>cas_node_count = nc\<rparr>) sh off nc (concat (replicate k (cas_turn n l)) @ [Acquire n l, Scan l]) m =
      Result (replicate (3 * k + 2) SUCCESS) (m(cas_get_slot_offset l n nc off := u32_of_slot LOCKED)) \<and>
    m (cas_get_slot_offset l n2 nc off) = u32_of_slot WAITING"
proof -
  have n: "n < nc" using assms(3,4) by (rule less_trans)
  have small: "n' < nc" if "n' < n" for n' using that n by (rule less_trans)
  note turn = run_cas_turn [OF assms(1,2) n, of m fuel]
  have t: "run_ops fuel (CasAlgorithm \<lparr>cas_node_count = nc\<rparr>) sh off nc [Acquire n l, Scan l] m =
      Result [SUCCESS, SUCCESS] (m(cas_slot nc off l n := 2))"
    "run_ops fuel (CasAlgorithm \<lparr>cas_node_count = nc\<rparr>) sh off nc (cas_turn n l) m = Result [SUCCESS, SUCCESS, SUCCESS] m"
    using turn assms(3-5) n small by (auto dest: less_asym)
  have turns: "run_ops fuel (CasAlgorithm \<lparr>cas_node_count = nc\<rparr>) sh off nc (concat (replicate k (cas_turn n l))) m =
      Result (replicate (3 * k) SUCCESS) m" for k
  proof (induction k)
    case (Suc k)
    then show ?case using run_ops_append [OF t(2)] by (simp add: numeral_3_eq_3)
  qed simp
  have "replicate (3 * k) SUCCESS @ [SUCCESS, SUCCESS] = replicate (3 * k + 2) SUCCESS"
    unfolding replicate_add by (simp add: numeral_2_eq_2)
  then show ?thesis
    using turns run_ops_append [OF turns, of k "[Acquire n l, Scan l]"] t(1) assms(4,5) by simp
qed

theorem cas_overtakes_for_ever_witness:
  "run_ops 0 (CasAlgorithm \<lparr>cas_node_count = 2\<rparr>) demo_region 0 2 (concat (replicate 9 (cas_turn 0 5)))
     ((\<lambda>_. 0)(cas_get_slot_offset 5 1 2 0 := 1)) =
   Result (replicate 27 SUCCESS) ((\<lambda>_. 0)(cas_get_slot_offset 5 1 2 0 := 1))"
proof -
  have fits: "cas_fits demo_region 2 0" by (simp add: demo_cas_fits MAX_NODE_COUNT_def)
  have l: "(5 :: u32) < MAX_LOCK_COUNT" by (simp add: MAX_LOCK_COUNT_def)
  define m :: mem where "m = (\<lambda>_. 0)(cas_get_slot_offset 5 1 2 0 := 1)"
  have slots: "m (cas_get_slot_offset 5 n' 2 0) = u32_of_slot (if n' = 1 then WAITING else IDLE)" if "n' < 2" for n'
    using cas_slot_inj [OF _ l that l, of 1 0] unfolding m_def by (auto simp: MAX_NODE_COUNT_def)
  have "(0 :: u32) < 1" "(1 :: u32) < 2" by simp_all
  moreover have "3 * 9 = (27 :: nat)" by simp
  ultimately show ?thesis
    using cas_overtakes_for_ever [OF fits l _ _ slots, of 0 0 9] unfolding m_def by (simp only:)
qed

end
