(* ===== verification/Faa_Service.thy ===== *)
theory Faa_Service
  imports Lock_Contract
begin

text \<open>
  The FAA algorithm with a single lock implements the lock service: tickets order the nodes,
  the holder is the active node whose ticket \<open>now_serving\<close> has reached, the waiters are the
  active nodes whose ticket is still ahead. Safety, progress and cancellation hold until the
  ticket counter is used up. With more than one lock they fail, because the ticket records are
  shared by all locks; that is shown on a concrete history.
\<close>

section \<open>The routines on the tickets\<close>

abbreviation "f_next off m l \<equiv> next_ticket (faa_entry off m l)"
abbreviation "f_serving off m l \<equiv> now_serving (faa_entry off m l)"
abbreviation "f_owner off m l \<equiv> owner_node (faa_entry off m l)"
abbreviation "f_ticket off m n \<equiv> ticket (faa_node off m n)"
abbreviation "f_active off m n \<equiv> active (faa_node off m n) \<noteq> 0"

lemmas faa_run_simps = prog_simps prog_assoc layout_simps faa_entry_def faa_node_def

lemmas faa_ptrs = line_bounds faa_get_ticket_ptr faa_get_entry_ptr

text \<open>The minimum search as a function of the ticket records.\<close>

fun faa_argmin :: "ShmOffset \<Rightarrow> mem \<Rightarrow> NodeId list \<Rightarrow> u32 \<Rightarrow> NodeId \<Rightarrow> NodeId" where
  "faa_argmin off m [] min_ticket min_node = min_node"
| "faa_argmin off m (n # ns) min_ticket min_node =
     (if f_active off m n \<and> f_ticket off m n < min_ticket
      then faa_argmin off m ns (f_ticket off m n) n
      else faa_argmin off m ns min_ticket min_node)"

lemma faa_argmin_cases:
  "faa_argmin off m ns t n0 = n0 \<and> (\<forall>n \<in> set ns. f_active off m n \<longrightarrow> t \<le> f_ticket off m n) \<or>
   (let r = faa_argmin off m ns t n0
    in r \<in> set ns \<and> f_active off m r \<and> f_ticket off m r < t \<and>
       (\<forall>n \<in> set ns. f_active off m n \<longrightarrow> f_ticket off m r \<le> f_ticket off m n))"
proof (induction ns arbitrary: t n0)
  case Nil
  then show ?case by simp
next
  case (Cons n ns)
  show ?case
  proof (cases "f_active off m n \<and> f_ticket off m n < t")
    case True
    then show ?thesis
      using Cons.IH [of "f_ticket off m n" n] by (auto simp: Let_def)
  next
    case False
    then show ?thesis
      using Cons.IH [of t n0] by (fastforce simp: Let_def not_less)
  qed
qed

lemma run_faa_scan_min:
  assumes fit: "lines_fit sh nc off" and "\<forall>n \<in> set ns. n < nc"
  shows "run sh (faa_scan_min sh off ns t n0) m = Result (faa_argmin off m ns t n0) m"
  using assms(2)
proof (induction ns arbitrary: t n0)
  case Nil
  then show ?case by simp
next
  case (Cons n ns)
  then show ?case by (simp add: faa_run_simps faa_ptrs [OF fit])
qed

lemma run_faa_check:
  assumes fit: "lines_fit sh nc off" and l: "l < MAX_LOCK_COUNT"
  shows "run sh (faa_check_grant l (Some sh) off nc) m =
    Result (if f_owner off m l \<noteq> INVALID_NODE_ID then INVALID_NODE_ID
            else faa_argmin off m (u32_upto nc) (- 1) INVALID_NODE_ID) m"
proof -
  have "nc \<noteq> 0" using fit by (auto simp: lines_fit_def)
  then show ?thesis
    using l run_faa_scan_min [OF fit, of "u32_upto nc"]
    by (simp add: faa_check_grant_def faa_run_simps faa_ptrs [OF fit])
qed

text \<open>What the other routines write, on the records of the lock and of the nodes.\<close>

lemma run_faa_acquire:
  assumes fit: "lines_fit sh nc off" and l: "l < MAX_LOCK_COUNT" and n: "n < nc"
  shows "\<exists>m'. run sh (faa_acquire_lock \<lparr>faa_node_count = nc\<rparr> n l (Some sh) off) m = Result SUCCESS m' \<and>
     faa_entry off m' l = (faa_entry off m l)\<lparr>next_ticket := f_next off m l + 1\<rparr> \<and>
     f_ticket off m' n = f_next off m l \<and> f_active off m' n \<and>
     (\<forall>n'. n' \<noteq> n \<longrightarrow> faa_node off m' n' = faa_node off m n')"
  using l n lines_fit_node [OF fit n]
  by (simp add: faa_acquire_lock_def faa_run_simps faa_ptrs [OF fit])

lemma run_faa_release:
  assumes fit: "lines_fit sh nc off" and l: "l < MAX_LOCK_COUNT" and n: "n < nc"
  shows "\<exists>m'. run sh (faa_release_lock \<lparr>faa_node_count = nc\<rparr> n l (Some sh) off) m = Result SUCCESS m' \<and>
     faa_entry off m' l = (faa_entry off m l)\<lparr>owner_node := INVALID_NODE_ID\<rparr> \<and>
     \<not> f_active off m' n \<and> (\<forall>n'. n' \<noteq> n \<longrightarrow> faa_node off m' n' = faa_node off m n')"
  using l n lines_fit_node [OF fit n]
  by (simp add: faa_release_lock_def faa_run_simps faa_ptrs [OF fit])

lemma run_faa_grant:
  assumes fit: "lines_fit sh nc off" and l: "l < MAX_LOCK_COUNT" and n: "n < nc"
  shows "\<exists>m'. run sh (faa_grant_lock \<lparr>faa_node_count = nc\<rparr> n l (Some sh) off) m = Result SUCCESS m' \<and>
     faa_entry off m' l = (faa_entry off m l)\<lparr>owner_node := n, now_serving := f_ticket off m n\<rparr> \<and>
     (\<forall>n'. faa_node off m' n' = faa_node off m n')"
  using l n lines_fit_node [OF fit n]
  by (simp add: faa_grant_lock_def faa_run_simps faa_ptrs [OF fit])

lemma tt_granted_faa:
  assumes fit: "lines_fit sh nc off" and l: "l < MAX_LOCK_COUNT" and n: "n < nc"
    and "client_lock (FaaAlgorithm a) sh nc off n tt"
  shows "tt_granted tt l =
    bind (atomic_load (entry_ptr sh off l + 4)) (\<lambda>serving.
    bind (atomic_load (node_ptr sh off n)) (\<lambda>my_ticket.
    bind (atomic_load (node_ptr sh off n + 4)) (\<lambda>act.
      Ret (serving \<ge> my_ticket \<and> act \<noteq> 0))))"
  using l n assms(4) node_offset_to_ptr [OF fit n] entry_offset_to_ptr [OF fit l]
  by (simp add: tt_granted_def client_lock_def deref_Some)

lemma run_tt_granted_faa:
  assumes fit: "lines_fit sh nc off" and l: "l < MAX_LOCK_COUNT" and n: "n < nc"
    and "client_lock (FaaAlgorithm a) sh nc off n tt"
  shows "run sh (tt_granted tt l) m =
    Result (f_ticket off m n \<le> f_serving off m l \<and> f_active off m n) m"
  using l n by (simp add: tt_granted_faa [OF assms] faa_run_simps line_bounds [OF fit])

section \<open>The service, for one lock\<close>

definition faa_impl ::
  "SharedMemoryRegion \<Rightarrow> u32 \<Rightarrow> ShmOffset \<Rightarrow> LockId \<Rightarrow> mem \<Rightarrow> service \<Rightarrow> bool"
where
  "faa_impl sh nc off L m s \<longleftrightarrow> lines_fit sh nc off \<and> L < MAX_LOCK_COUNT \<and>
     (f_serving off m L < f_next off m L \<or> f_serving off m L = 0 \<and> f_next off m L = 0) \<and>
     (\<forall>n < nc. f_active off m n \<longrightarrow> f_ticket off m n < f_next off m L) \<and>
     (\<forall>n < nc. \<forall>n' < nc. f_active off m n \<longrightarrow> f_active off m n' \<longrightarrow>
        f_ticket off m n = f_ticket off m n' \<longrightarrow> n = n') \<and>
     (\<forall>n. holder s L = Some n \<longleftrightarrow> n < nc \<and> f_active off m n \<and> f_ticket off m n \<le> f_serving off m L) \<and>
     (\<forall>n. n \<in> waiters s L \<longleftrightarrow> n < nc \<and> f_active off m n \<and> f_serving off m L < f_ticket off m n) \<and>
     (f_owner off m L \<noteq> INVALID_NODE_ID \<longrightarrow> holder s L \<noteq> None)"

definition faa_may_request :: "ShmOffset \<Rightarrow> mem \<Rightarrow> service \<Rightarrow> NodeId \<Rightarrow> LockId \<Rightarrow> bool" where
  "faa_may_request off m s n l \<longleftrightarrow>
     f_next off m l < - 1 \<and> n \<notin> waiters s l \<and> holder s l \<noteq> Some n"

text \<open>The parts of the invariant.\<close>

lemma faa_implD:
  assumes "faa_impl sh nc off L m s"
  shows "lines_fit sh nc off" and "L < MAX_LOCK_COUNT"
    and "f_serving off m L < f_next off m L \<or> f_serving off m L = 0 \<and> f_next off m L = 0"
    and "\<And>n. n < nc \<Longrightarrow> f_active off m n \<Longrightarrow> f_ticket off m n < f_next off m L"
    and "\<And>n n'. n < nc \<Longrightarrow> n' < nc \<Longrightarrow> f_active off m n \<Longrightarrow> f_active off m n' \<Longrightarrow>
           f_ticket off m n = f_ticket off m n' \<Longrightarrow> n = n'"
    and "\<And>n. holder s L = Some n \<longleftrightarrow> n < nc \<and> f_active off m n \<and> f_ticket off m n \<le> f_serving off m L"
    and "\<And>n. n \<in> waiters s L \<longleftrightarrow> n < nc \<and> f_active off m n \<and> f_serving off m L < f_ticket off m n"
    and "f_owner off m L \<noteq> INVALID_NODE_ID \<Longrightarrow> holder s L \<noteq> None"
  using assms unfolding faa_impl_def by (simp_all del: not_None_eq)

text \<open>A node leaves: a holder by \<open>release_lock\<close>, a waiter by the same call when it gives up.\<close>

lemma faa_leave:
  assumes impl: "faa_impl sh nc off L m s" and n: "n < nc"
    and e: "faa_entry off m' L = (faa_entry off m L)\<lparr>owner_node := INVALID_NODE_ID\<rparr>"
    and a: "\<not> f_active off m' n" and o: "\<forall>n'. n' \<noteq> n \<longrightarrow> faa_node off m' n' = faa_node off m n'"
    and h: "\<And>x. holder s' L = Some x \<longleftrightarrow> x \<noteq> n \<and> holder s L = Some x"
    and w: "waiters s' L = waiters s L - {n}"
  shows "faa_impl sh nc off L m' s'"
proof -
  note d = faa_implD [OF impl]
  have same: "f_active off m' x \<longleftrightarrow> x \<noteq> n \<and> f_active off m x" "x \<noteq> n \<Longrightarrow> f_ticket off m' x = f_ticket off m x" for x
    using a o by (cases "x = n"; simp)+
  have sv: "f_serving off m' L = f_serving off m L" using e by simp
  show ?thesis
    unfolding faa_impl_def
  proof (intro conjI allI impI)
    show "f_serving off m' L < f_next off m' L \<or> f_serving off m' L = 0 \<and> f_next off m' L = 0"
      using d(3) e by simp
    show "holder s' L = Some x \<longleftrightarrow> x < nc \<and> f_active off m' x \<and> f_ticket off m' x \<le> f_serving off m' L" for x
      by (cases "x = n") (simp_all add: d(6) h same sv a)
    show "x \<in> waiters s' L \<longleftrightarrow> x < nc \<and> f_active off m' x \<and> f_serving off m' L < f_ticket off m' x" for x
      by (cases "x = n") (simp_all add: d(7) w same sv a)
    show "f_ticket off m' x < f_next off m' L" if "x < nc" "f_active off m' x" for x
      using d(4) [of x] that same [of x] e by simp
    show "x = y" if "x < nc" "y < nc" "f_active off m' x" "f_active off m' y"
        "f_ticket off m' x = f_ticket off m' y" for x y
      using d(5) [of x y] that same [of x] same [of y] by simp
    show "holder s' L \<noteq> None" if "f_owner off m' L \<noteq> INVALID_NODE_ID"
      using that e by simp
  qed (rule d(1,2))+
qed

text \<open>What \<open>check_grant\<close> finds: the holder if the owner is not recorded, else the first waiter.\<close>

lemma faa_check_result:
  assumes impl: "faa_impl sh nc off L m s" and free: "f_owner off m L = INVALID_NODE_ID"
  defines "r \<equiv> faa_argmin off m (u32_upto nc) (- 1) INVALID_NODE_ID"
  shows "(r = INVALID_NODE_ID \<longleftrightarrow> holder s L = None \<and> waiters s L = {}) \<and>
    (r \<noteq> INVALID_NODE_ID \<longrightarrow> r < nc \<and> f_active off m r \<and>
       (\<forall>n < nc. f_active off m n \<longrightarrow> f_ticket off m r \<le> f_ticket off m n) \<and>
       (holder s L = Some r \<or> holder s L = None \<and> r \<in> waiters s L))"
proof -
  note d = faa_implD [OF impl]
  have small: "\<not> - 1 \<le> f_ticket off m n" if "n < nc" "f_active off m n" for n
  proof -
    have "f_ticket off m n < f_next off m L" by (rule d(4) [OF that])
    also have "f_next off m L \<le> - 1" by (rule word_n1_ge)
    finally show ?thesis by simp
  qed
  consider (none) "r = INVALID_NODE_ID" "\<forall>n < nc. \<not> f_active off m n"
    | (some) "r < nc" "f_active off m r" "\<forall>n < nc. f_active off m n \<longrightarrow> f_ticket off m r \<le> f_ticket off m n"
    using faa_argmin_cases [of off m "u32_upto nc" "- 1" INVALID_NODE_ID] small
    unfolding r_def Let_def by auto
  then show ?thesis
  proof cases
    case none
    then show ?thesis using d(6,7) by (metis equals0I not_None_eq)
  next
    case some
    have r: "r \<noteq> INVALID_NODE_ID" using lines_fit_node [OF d(1) some(1)] .
    show ?thesis
    proof (cases "f_ticket off m r \<le> f_serving off m L")
      case True
      then have "holder s L = Some r" using some d(6) by blast
      then show ?thesis using some r by simp
    next
      case False
      then have "r \<in> waiters s L" using some d(7) by (simp add: not_le)
      moreover have "holder s L = None"
      proof (rule ccontr)
        assume "holder s L \<noteq> None"
        then obtain x where "x < nc" "f_active off m x" "f_ticket off m x \<le> f_serving off m L"
          using d(6) by auto
        then show False using some(3) False by (meson order_trans)
      qed
      ultimately show ?thesis using some r by auto
    qed
  qed
qed

text \<open>A node joins: with the first ticket of all it is let in at once, else it waits.\<close>

lemma faa_join:
  assumes impl: "faa_impl sh nc off L m s" and n: "n < nc" and more: "f_next off m L < - 1"
    and new: "n \<notin> waiters s L" "holder s L \<noteq> Some n"
    and e: "faa_entry off m' L = (faa_entry off m L)\<lparr>next_ticket := f_next off m L + 1\<rparr>"
    and t: "f_ticket off m' n = f_next off m L" "f_active off m' n"
    and o: "\<forall>n'. n' \<noteq> n \<longrightarrow> faa_node off m' n' = faa_node off m n'"
  shows "\<exists>s'. faa_impl sh nc off L m' s' \<and>
    (s' = add_waiter n L s \<or> holder s L = None \<and> waiters s L = {} \<and> s' = let_in n L s)"
proof -
  note d = faa_implD [OF impl]
  have succ: "x < f_next off m L + 1 \<longleftrightarrow> x \<le> f_next off m L" for x
    by (rule u32_less_succ [OF more])
  have idle: "\<not> f_active off m n" using new d(6,7) n by (meson not_le)
  have fresh: "f_ticket off m x < f_next off m L" if "x < nc" "f_active off m x" for x
    using d(4) that .
  have other: "x \<noteq> n \<Longrightarrow> f_ticket off m' x = f_ticket off m x"
      "x \<noteq> n \<Longrightarrow> f_active off m' x \<longleftrightarrow> f_active off m x" for x
    using o by simp_all
  have base: "f_serving off m' L < f_next off m' L \<or> f_serving off m' L = 0 \<and> f_next off m' L = 0"
      "\<And>x. x < nc \<Longrightarrow> f_active off m' x \<Longrightarrow> f_ticket off m' x < f_next off m' L"
      "\<And>x y. x < nc \<Longrightarrow> y < nc \<Longrightarrow> f_active off m' x \<Longrightarrow> f_active off m' y \<Longrightarrow>
         f_ticket off m' x = f_ticket off m' y \<Longrightarrow> x = y"
      "f_owner off m' L \<noteq> INVALID_NODE_ID \<Longrightarrow> holder s L \<noteq> None"
  proof -
    show "f_serving off m' L < f_next off m' L \<or> f_serving off m' L = 0 \<and> f_next off m' L = 0"
    proof -
      have "f_serving off m L \<le> f_next off m L" using d(3) by auto
      then have "f_serving off m L < f_next off m L + 1" using succ [of "f_serving off m L"] by simp
      then show ?thesis using e by simp
    qed
    show "f_ticket off m' x < f_next off m' L" if "x < nc" "f_active off m' x" for x
    proof -
      have "f_ticket off m' x \<le> f_next off m L"
        using that fresh [of x] other [of x] t by (cases "x = n") auto
      then show ?thesis using e succ [of "f_ticket off m' x"] by simp
    qed
    show "x = y" if "x < nc" "y < nc" "f_active off m' x" "f_active off m' y"
        "f_ticket off m' x = f_ticket off m' y" for x y
      using that fresh [of x] fresh [of y] other [of x] other [of y] t d(5) [of x y]
      by (cases "x = n"; cases "y = n") auto
    show "holder s L \<noteq> None" if "f_owner off m' L \<noteq> INVALID_NODE_ID"
      using that d(8) e by simp
  qed
  show ?thesis
  proof (cases "f_serving off m L < f_next off m L")
    case True
    have "faa_impl sh nc off L m' (add_waiter n L s)"
      unfolding faa_impl_def
    proof (intro conjI allI impI)
      show "holder (add_waiter n L s) L = Some x \<longleftrightarrow>
          x < nc \<and> f_active off m' x \<and> f_ticket off m' x \<le> f_serving off m' L" for x
        using d(6) [of x] new(2) other [of x] t True e by (cases "x = n") (auto simp: add_waiter_def)
      show "x \<in> waiters (add_waiter n L s) L \<longleftrightarrow>
          x < nc \<and> f_active off m' x \<and> f_serving off m' L < f_ticket off m' x" for x
        using d(7) [of x] other [of x] t True e n by (cases "x = n") (auto simp: add_waiter_def)
    qed (use d(1,2) base in \<open>auto simp: add_waiter_def\<close>)
    then show ?thesis by blast
  next
    case False
    then have zero: "f_serving off m L = 0" "f_next off m L = 0" using d(3) by auto
    then have none: "\<not> f_active off m x" if "x < nc" for x using fresh [OF that] by auto
    have empty: "holder s L = None" "waiters s L = {}"
      using none d(6,7) by (metis not_None_eq, blast)
    have "faa_impl sh nc off L m' (let_in n L s)"
      unfolding faa_impl_def
    proof (intro conjI allI impI)
      show "holder (let_in n L s) L = Some x \<longleftrightarrow>
          x < nc \<and> f_active off m' x \<and> f_ticket off m' x \<le> f_serving off m' L" for x
        using other [of x] none t zero e n by (cases "x = n") (auto simp: let_in_def)
      show "x \<in> waiters (let_in n L s) L \<longleftrightarrow>
          x < nc \<and> f_active off m' x \<and> f_serving off m' L < f_ticket off m' x" for x
        using other [of x] none t zero e empty by (cases "x = n") (auto simp: let_in_def)
    qed (use d(1,2) base in \<open>auto simp: let_in_def\<close>)
    then show ?thesis using empty by blast
  qed
qed

text \<open>The manager lets the first waiter in, or confirms the holder.\<close>

lemma faa_serve:
  assumes impl: "faa_impl sh nc off L m s" and r: "r < nc" "f_active off m r"
    and least: "\<forall>n < nc. f_active off m n \<longrightarrow> f_ticket off m r \<le> f_ticket off m n"
    and who: "holder s L = Some r \<or> holder s L = None \<and> r \<in> waiters s L"
    and e: "faa_entry off m' L = (faa_entry off m L)\<lparr>owner_node := r, now_serving := f_ticket off m r\<rparr>"
    and o: "\<forall>n'. faa_node off m' n' = faa_node off m n'"
    and s': "s' = (if holder s L = None then let_in r L s else s)"
  shows "faa_impl sh nc off L m' s'"
proof -
  note d = faa_implD [OF impl]
  have h: "holder s' L = Some r" using who s' by (auto simp: let_in_def)
  have others: "f_ticket off m r < f_ticket off m x" if "x < nc" "f_active off m x" "x \<noteq> r" for x
    using least d(5) [OF that(1) r(1) that(2) r(2)] that by (metis order_le_imp_less_or_eq)
  have wait: "x \<in> waiters s' L \<longleftrightarrow> x < nc \<and> f_active off m x \<and> x \<noteq> r" for x
  proof (cases "holder s L = None")
    case True
    then have "\<not> f_ticket off m x \<le> f_serving off m L" if "x < nc" "f_active off m x"
      using d(6) [of x] that by auto
    then show ?thesis using d(7) [of x] s' True by (auto simp: let_in_def not_le)
  next
    case False
    then have hr: "holder s L = Some r" using who by auto
    have "f_serving off m L < f_ticket off m x" if "x < nc" "f_active off m x" "x \<noteq> r"
      using d(6) [of x] hr that by (auto simp: not_le)
    moreover have "\<not> f_serving off m L < f_ticket off m r" using d(6) [of r] hr by (simp add: not_less)
    ultimately show ?thesis using d(7) [of x] s' False by auto
  qed
  show ?thesis
    unfolding faa_impl_def
  proof (intro conjI allI impI)
    show "holder s' L = Some x \<longleftrightarrow> x < nc \<and> f_active off m' x \<and> f_ticket off m' x \<le> f_serving off m' L" for x
      using h others [of x] r e o by (cases "x = r") (auto simp: not_le [symmetric])
    show "x \<in> waiters s' L \<longleftrightarrow> x < nc \<and> f_active off m' x \<and> f_serving off m' L < f_ticket off m' x" for x
      using wait [of x] others [of x] e o by (cases "x = r") auto
    show "f_serving off m' L < f_next off m' L \<or> f_serving off m' L = 0 \<and> f_next off m' L = 0"
      using d(4) [OF r] e by simp
  qed (use d(1,2,4,5) h e o in auto)
qed

interpretation faa: lock_live
  "FaaAlgorithm \<lparr>faa_node_count = nc\<rparr>" sh off nc "{L}" fuel "faa_impl sh nc off L"
  "faa_may_request off"
  for sh off nc L fuel
proof unfold_locales
  fix m s n l
  assume impl: "faa_impl sh nc off L m s" and "l \<in> {L}"
  then have l: "l = L" by simp
  note d = faa_implD [OF impl]
  note fit = d(1) and L = d(2)
  show "\<exists>m' s'. run sh (alg_acquire_lock fuel (FaaAlgorithm \<lparr>faa_node_count = nc\<rparr>) n l (Some sh) off) m =
          Result SUCCESS m' \<and> faa_impl sh nc off L m' s' \<and>
          (s' = add_waiter n l s \<or> holder s l = None \<and> waiters s l = {} \<and> s' = let_in n l s)"
    if "faa_may_request off m s n l" "n < nc"
    using run_faa_acquire [OF fit L that(2), of m] faa_join [OF impl that(2)] that(1) l
    by (fastforce simp: alg_acquire_lock_def faa_may_request_def)
  show "\<exists>m' s'. run sh (alg_release_lock fuel (FaaAlgorithm \<lparr>faa_node_count = nc\<rparr>) n l (Some sh) off) m =
          Result SUCCESS m' \<and> faa_impl sh nc off L m' s' \<and>
          (s' = let_out l s \<or> (\<exists>n' \<in> waiters s l. s' = let_in n' l s))"
    if h: "holder s l = Some n" "n < nc"
  proof -
    obtain m' where m': "run sh (faa_release_lock \<lparr>faa_node_count = nc\<rparr> n L (Some sh) off) m = Result SUCCESS m'"
        "faa_entry off m' L = (faa_entry off m L)\<lparr>owner_node := INVALID_NODE_ID\<rparr>"
        "\<not> f_active off m' n" "\<forall>n'. n' \<noteq> n \<longrightarrow> faa_node off m' n' = faa_node off m n'"
      using run_faa_release [OF fit L h(2), of m] by blast
    have "n \<notin> waiters s L" using d(6,7) h l by (meson not_le)
    then have "faa_impl sh nc off L m' (let_out L s)"
      using h l by (intro faa_leave [OF impl h(2) m'(2,3,4)]) (auto simp: let_out_def)
    then show ?thesis using m'(1) l by (auto simp: alg_release_lock_def)
  qed
  let ?check = "alg_check_grant (FaaAlgorithm \<lparr>faa_node_count = nc\<rparr>) l (Some sh) off nc"
  let ?r = "if f_owner off m L \<noteq> INVALID_NODE_ID then INVALID_NODE_ID
            else faa_argmin off m (u32_upto nc) (- 1) INVALID_NODE_ID"
  have check: "run sh ?check m = Result ?r m"
    using run_faa_check [OF fit L, of m] l by (simp add: alg_check_grant_def)
  show "\<exists>r m'. run sh ?check m = Result r m' \<and>
          (r = INVALID_NODE_ID \<and> faa_impl sh nc off L m' s \<or>
           r \<noteq> INVALID_NODE_ID \<and>
           (\<exists>m''. run sh (alg_grant_lock (FaaAlgorithm \<lparr>faa_node_count = nc\<rparr>) r l (Some sh) off) m' =
                Result SUCCESS m'' \<and>
              (holder s l = Some r \<and> faa_impl sh nc off L m'' s \<or>
               holder s l = None \<and> r \<in> waiters s l \<and> faa_impl sh nc off L m'' (let_in r l s))))"
  proof (cases "?r = INVALID_NODE_ID")
    case True
    then show ?thesis using check impl by auto
  next
    case False
    define r where "r = ?r"
    have free: "f_owner off m L = INVALID_NODE_ID" using False by (auto split: if_splits)
    have r: "r \<noteq> INVALID_NODE_ID" "r < nc" "f_active off m r"
        "\<forall>n < nc. f_active off m n \<longrightarrow> f_ticket off m r \<le> f_ticket off m n"
        "holder s L = Some r \<or> holder s L = None \<and> r \<in> waiters s L"
      using faa_check_result [OF impl free] False free unfolding r_def by auto
    obtain m' where m': "run sh (faa_grant_lock \<lparr>faa_node_count = nc\<rparr> r L (Some sh) off) m = Result SUCCESS m'"
        "faa_entry off m' L = (faa_entry off m L)\<lparr>owner_node := r, now_serving := f_ticket off m r\<rparr>"
        "\<forall>n'. faa_node off m' n' = faa_node off m n'"
      using run_faa_grant [OF fit L r(2), of m] by blast
    note served = faa_serve [OF impl r(2-5) m'(2,3) refl]
    have "run sh (alg_grant_lock (FaaAlgorithm \<lparr>faa_node_count = nc\<rparr>) r l (Some sh) off) m = Result SUCCESS m'"
      using m'(1) l by (simp add: alg_grant_lock_def)
    then show ?thesis
      using check [folded r_def] r(1,5) served l by (cases "holder s L = None") auto
  qed
  show "\<exists>r m'. run sh ?check m = Result r m' \<and> r \<noteq> INVALID_NODE_ID"
    if "holder s l = None" "waiters s l \<noteq> {}"
    using that check d(8) faa_check_result [OF impl] l by auto
  show "run sh (tt_granted tt l) m = Result (holder s l = Some n) m"
    if "n < nc" "client_lock (FaaAlgorithm \<lparr>faa_node_count = nc\<rparr>) sh nc off n tt" for tt
    using run_tt_granted_faa [OF fit L that, of m] d(6) [of n] that(1) l by auto
qed

interpretation faa_cancel: lock_cancel
  "FaaAlgorithm \<lparr>faa_node_count = nc\<rparr>" sh off nc "{L}" fuel "faa_impl sh nc off L"
  "faa_may_request off"
  for sh off nc L fuel
proof unfold_locales
  fix m s n l
  assume impl: "faa_impl sh nc off L m s" and w: "n \<in> waiters s l" "n < nc" and "l \<in> {L}"
  then have l: "l = L" by simp
  note d = faa_implD [OF impl]
  obtain m' where m': "run sh (faa_release_lock \<lparr>faa_node_count = nc\<rparr> n L (Some sh) off) m = Result SUCCESS m'"
      "faa_entry off m' L = (faa_entry off m L)\<lparr>owner_node := INVALID_NODE_ID\<rparr>"
      "\<not> f_active off m' n" "\<forall>n'. n' \<noteq> n \<longrightarrow> faa_node off m' n' = faa_node off m n'"
    using run_faa_release [OF d(1,2) w(2), of m] by blast
  have "holder s L \<noteq> Some n" using d(6,7) w l by (meson not_le)
  then have "faa_impl sh nc off L m' (drop_waiter n L s)"
    by (intro faa_leave [OF impl w(2) m'(2,3,4)]) (auto simp: drop_waiter_def)
  then show "\<exists>m'. run sh (alg_release_lock fuel (FaaAlgorithm \<lparr>faa_node_count = nc\<rparr>) n l (Some sh) off) m =
          Result SUCCESS m' \<and> faa_impl sh nc off L m' (drop_waiter n l s)"
    using m'(1) l by (simp add: alg_release_lock_def)
qed

section \<open>Properties\<close>

text \<open>
  C27. With one lock the FAA manager serves tickets in order: for a lock that is free and waited
  for, \<open>check_grant\<close> finds the waiter with the smallest ticket and \<open>grant_lock\<close> makes it the
  holder.
\<close>

theorem faa_manager_serves_in_ticket_order:
  assumes "faa_impl sh nc off L m s" and "holder s L = None" and "waiters s L \<noteq> {}"
  shows "\<exists>r m'. run sh (scan_lock (FaaAlgorithm \<lparr>faa_node_count = nc\<rparr>) (Some sh) off nc L) m = Result SUCCESS m' \<and>
    r \<in> waiters s L \<and> (\<forall>n. n \<in> waiters s L \<longrightarrow> ticket (faa_node off m r) \<le> ticket (faa_node off m n)) \<and>
    faa_impl sh nc off L m' (let_in r L s)"
proof -
  note d = faa_implD [OF assms(1)]
  have free: "f_owner off m L = INVALID_NODE_ID" using d(8) assms(2) by auto
  define r where "r = faa_argmin off m (u32_upto nc) (- 1) INVALID_NODE_ID"
  have r: "r \<noteq> INVALID_NODE_ID" "r < nc" "f_active off m r" "r \<in> waiters s L"
      "\<forall>n < nc. f_active off m n \<longrightarrow> f_ticket off m r \<le> f_ticket off m n"
    using faa_check_result [OF assms(1) free] assms(2,3) unfolding r_def [symmetric] by auto
  obtain m' where m': "run sh (faa_grant_lock \<lparr>faa_node_count = nc\<rparr> r L (Some sh) off) m = Result SUCCESS m'"
      "faa_entry off m' L = (faa_entry off m L)\<lparr>owner_node := r, now_serving := f_ticket off m r\<rparr>"
      "\<forall>n'. faa_node off m' n' = faa_node off m n'"
    using run_faa_grant [OF d(1,2) r(2), of m] by blast
  have "faa_impl sh nc off L m' (let_in r L s)"
    using faa_serve [OF assms(1) r(2,3,5) _ m'(2,3) refl] assms(2) r(4) by simp
  moreover have "run sh (scan_lock (FaaAlgorithm \<lparr>faa_node_count = nc\<rparr>) (Some sh) off nc L) m = Result SUCCESS m'"
    using run_faa_check [OF d(1,2), of m] free r(1) m'(1)
    by (simp add: scan_lock_def alg_check_grant_def alg_grant_lock_def run_bind r_def)
  ultimately show ?thesis using r(4,5) d(7) by blast
qed

text \<open>Node 1 holds ticket 1 and waits for lock 0, which nobody holds.\<close>

definition faa_demo_waiting :: mem where
  "faa_demo_waiting = (\<lambda>_. 0)(ecell 0 0 0 := 2, ecell 0 0 8 := - 1, ncell 0 1 0 := 1, ncell 0 1 4 := 1)"

definition faa_demo_service :: service where
  "faa_demo_service = \<lparr>holder = (\<lambda>_. None), waiters = (\<lambda>_. {1})\<rparr>"

lemma u32_less_2: "(n :: u32) < 2 \<longleftrightarrow> n = 0 \<or> n = 1"
  by (auto simp: u32_less_unat word_unat_eq_iff)

lemma faa_demo_impl: "faa_impl demo_region 2 0 0 faa_demo_waiting faa_demo_service"
  by (simp add: faa_impl_def lines_fit_def lines_size_def faa_demo_waiting_def faa_demo_service_def
      MAX_NODE_COUNT_def MAX_LOCK_COUNT_def faa_entry_def faa_node_def layout_simps u32_less_2
      INVALID_NODE_ID_def)

theorem faa_manager_serves_in_ticket_order_witness:
  "\<exists>m'. run demo_region (scan_lock (FaaAlgorithm \<lparr>faa_node_count = 2\<rparr>) (Some demo_region) 0 2 0)
          faa_demo_waiting = Result SUCCESS m' \<and>
     faa_impl demo_region 2 0 0 m' (let_in 1 0 faa_demo_service)"
  using faa_manager_serves_in_ticket_order [OF faa_demo_impl] by (simp add: faa_demo_service_def)

text \<open>
  With one lock, one pass of the manager under the FAA algorithm leaves nobody waiting for
  a free lock, and changes holders and waiters only by letting a waiter in.
\<close>

theorem faa_scan_serves:
  assumes "faa_impl sh nc off 0 m s" and "manager_ready (FaaAlgorithm \<lparr>faa_node_count = nc\<rparr>) sh nc off lm"
    and "lm_max_locks lm = 1"
  shows "\<exists>lm' m' s'. run sh (run_single_scan lm) m = Result lm' m' \<and> faa_impl sh nc off 0 m' s' \<and>
    scanned {0} s s' \<and> (waiters s 0 \<noteq> {} \<longrightarrow> holder s' 0 \<noteq> None)"
proof -
  have "{l. l < lm_max_locks lm} = {0}"
    using assms(3) by (auto simp: word_less_1)
  then show ?thesis
    using faa.single_scan_serves [OF assms(1,2)] assms(3) by (fastforce simp: word_less_1)
qed

theorem faa_scan_serves_witness:
  "\<exists>lm' m' s'. run demo_region (run_single_scan (demo_manager (FaaAlgorithm \<lparr>faa_node_count = 2\<rparr>)))
       faa_demo_waiting = Result lm' m' \<and> faa_impl demo_region 2 0 0 m' s' \<and> holder s' 0 = Some 1"
proof -
  have "lm_max_locks (demo_manager (FaaAlgorithm \<lparr>faa_node_count = 2\<rparr>)) = 1"
    by (simp add: demo_manager_def)
  from faa_scan_serves [OF faa_demo_impl demo_manager_ready this]
  obtain lm' m' s' where m': "run demo_region
        (run_single_scan (demo_manager (FaaAlgorithm \<lparr>faa_node_count = 2\<rparr>))) faa_demo_waiting = Result lm' m'"
      "faa_impl demo_region 2 0 0 m' s'" and s': "scanned {0} faa_demo_service s'" "holder s' 0 \<noteq> None"
    by (auto simp: faa_demo_service_def)
  have "holder s' 0 = Some 1"
    using s' unfolding scanned_def faa_demo_service_def by (auto dest: spec [of _ 0])
  with m' show ?thesis by blast
qed

text \<open>
  Under the FAA algorithm an acquisition that fails while another node holds the lock
  withdraws its ticket: it returns \<open>ERROR_BUSY\<close> or \<open>ERROR_TIMEOUT\<close>, and holder and waiters
  are as before.
\<close>

theorem faa_failed_acquire_withdraws:
  assumes "faa_impl sh nc off L m s" and "next_ticket (faa_entry off m L) < - 1" and "n < nc"
    and "n \<notin> waiters s L" and "holder s L = Some h" and "h \<noteq> n"
    and "client_lock (FaaAlgorithm \<lparr>faa_node_count = nc\<rparr>) sh nc off n tt"
    and "poll_ends fuel clk timeout"
  shows "\<exists>m'. run sh (tt_global_acquire fuel tt (FaaAlgorithm \<lparr>faa_node_count = nc\<rparr>) clk L timeout) m =
           Result (poll_failure timeout) m' \<and> faa_impl sh nc off L m' s"
proof -
  have "faa_may_request off m s n L"
    using assms(2,4-6) by (simp add: faa_may_request_def)
  from faa_cancel.failed_acquire [OF assms(1) this assms(3) _ assms(4) _ _ assms(7,8)]
  show ?thesis using assms(5,6) by simp
qed

text \<open>Node 0 holds lock 0 with ticket 0.\<close>

definition faa_demo_held :: mem where
  "faa_demo_held = (\<lambda>_. 0)(ecell 0 0 0 := 1, ncell 0 0 4 := 1)"

lemma faa_demo_held_impl:
  "faa_impl demo_region 2 0 0 faa_demo_held \<lparr>holder = (\<lambda>_. Some 0), waiters = (\<lambda>_. {})\<rparr>"
  by (simp add: faa_impl_def lines_fit_def lines_size_def faa_demo_held_def
      MAX_NODE_COUNT_def MAX_LOCK_COUNT_def faa_entry_def faa_node_def layout_simps u32_less_2
      INVALID_NODE_ID_def)

theorem faa_failed_acquire_withdraws_witness:
  "\<exists>m'. run demo_region (tt_global_acquire 8 (demo_lock (FaaAlgorithm \<lparr>faa_node_count = 2\<rparr>) 1)
          (FaaAlgorithm \<lparr>faa_node_count = 2\<rparr>) of_nat 0 5) faa_demo_held = Result ERROR_TIMEOUT m' \<and>
     faa_impl demo_region 2 0 0 m' \<lparr>holder = (\<lambda>_. Some 0), waiters = (\<lambda>_. {})\<rparr>"
proof -
  have e: "poll_ends 8 of_nat 5"
    by (simp add: poll_ends_def) (rule exI [of _ 5], simp)
  have n: "next_ticket (faa_entry 0 faa_demo_held 0) < - 1"
    by (simp add: faa_demo_held_def faa_entry_def layout_simps MAX_LOCK_COUNT_def)
  from faa_failed_acquire_withdraws [where n = 1 and h = 0, OF faa_demo_held_impl n _ _ _ _ demo_lock_client e]
  show ?thesis by (simp add: poll_failure_def)
qed

text \<open>
  The last ticket is never served: the minimum search of \<open>check_grant\<close> starts from
  \<open>UINT32_MAX\<close> and compares strictly, so a node that drew that ticket is not returned, in any
  memory, even when it is the only one that waits.
\<close>

theorem faa_last_ticket_never_granted:
  assumes "lines_fit sh nc off" and "L < MAX_LOCK_COUNT" and "n < nc"
    and "ticket (faa_node off m n) = - 1"
  shows "\<exists>r. run sh (faa_check_grant L (Some sh) off nc) m = Result r m \<and> r \<noteq> n"
proof -
  have "faa_argmin off m (u32_upto nc) (- 1) INVALID_NODE_ID \<noteq> n"
    using faa_argmin_cases [of off m "u32_upto nc" "- 1" INVALID_NODE_ID] assms(4)
      lines_fit_node [OF assms(1,3)] by (auto simp: Let_def)
  then show ?thesis
    using run_faa_check [OF assms(1,2), of m] lines_fit_node [OF assms(1,3)] by auto
qed

theorem faa_last_ticket_never_granted_witness:
  "\<exists>r. run demo_region (faa_check_grant 0 (Some demo_region) 0 2)
        ((\<lambda>_. 0)(ecell 0 0 8 := - 1, ncell 0 1 0 := - 1, ncell 0 1 4 := 1)) =
      Result r ((\<lambda>_. 0)(ecell 0 0 8 := - 1, ncell 0 1 0 := - 1, ncell 0 1 4 := 1)) \<and> r \<noteq> 1"
proof -
  have fit: "lines_fit demo_region 2 0" using faa_implD(1) [OF faa_demo_impl] .
  show ?thesis
    by (rule faa_last_ticket_never_granted [OF fit])
       (simp_all add: MAX_LOCK_COUNT_def faa_node_def layout_simps)
qed

end
