(* ===== verification/Software_Consistency.thy ===== *)
theory Software_Consistency
  imports Cached_Memory Region_Properties Cas_Service Faa_Service
begin

text \<open>
  The locks between hosts under \<open>SOFTWARE_CONSISTENCY\<close>. The routines flush most of what they
  write, but the algorithms read the cells that other hosts write without dropping them from the
  cache first; only the node registry does. Each theorem is about one run of each host, from
  start to end, one after the other, without evictions except by \<open>CLFLUSH\<close>; only polling is followed through the evictions and the
  writes of other hosts that can happen meanwhile, because what it sees depends on them.
\<close>

section \<open>Polling\<close>

lemma reads_only_granted: "reads_only (tt_granted tt l)"
  by (auto simp: tt_granted_def tree_simps split: option.split GlobalLockAlgorithm.split)

lemma reads_only_poll: "reads_only (poll_for_grant fuel tt clk l timeout)"
proof -
  have "reads_only (tt_poll fuel tt l timeout clk i spin)" for i spin
  proof (induction fuel arbitrary: i spin)
    case (Suc fuel)
    show ?case
      unfolding tt_poll.simps by (rule reads_only_bind [OF reads_only_granted]) (use Suc in simp)
  qed simp
  then show ?thesis by (simp add: poll_for_grant_def)
qed

lemma flatten_Result:
  "flatten x = Result r M \<Longrightarrow> \<exists>c m. x = CResult r c m \<and> view c m = M"
  by (cases x) auto

lemma crun_reads_Result:
  assumes "reads_only p" and "run sh p (view c m) = Result r (view c m)"
  shows "\<exists>c'. crun sh p c m = CResult r c' m \<and> extends c c' \<and> view c' m = view c m"
proof -
  have "flatten (crun sh p c m) = Result r (view c m)"
    using crun_reads_run [OF assms(1)] assms(2) by simp
  from flatten_Result [OF this]
  obtain c' m' where r: "crun sh p c m = CResult r c' m'" "view c' m' = view c m" by blast
  then show ?thesis using crun_reads_extends [OF assms(1) r(1)] by simp
qed

text \<open>The poll, as long as the lines of the test stay in the cache: all its tests fail.\<close>

lemma cached_poll_blind:
  assumes "crun sh (tt_granted tt l) c m0 = CResult False c1 m1" and keep: "\<And>i. evicted i \<inter> cached_lines c1 = {}"
    and "run sh (tt_granted tt l) m2 = Result False m2" and "run sh (tt_poll fuel tt l timeout clk k spin) m2 = Result rc m2"
    and "extends c1 d"
  shows "\<exists>j d' m'. crun_env sh evicted others (tt_poll fuel tt l timeout clk k spin) i d m = CResult (rc, j) d' m'"
  using assms(4,5)
proof (induction fuel arbitrary: k spin i d m)
  case (Suc fuel)
  obtain j d' m' where again: "crun_env sh evicted others (tt_granted tt l) i d m = CResult (False, j) d' m'" "extends c1 d'"
    using crun_env_again [where evicted = evicted and others = others, OF reads_only_granted assms(1) Suc.prems(2) keep] by blast
  show ?case
    using Suc.prems(1) Suc.IH [OF _ again(2)] again(1) by (auto simp: run_bind assms(3) crun_env_bind split: if_splits)
qed simp

lemma view_evicted: "view (drop_lines (cached_lines c) c) m = m"
  by (auto simp: view_def drop_lines_def)

text \<open>
  C25. Under software consistency a host that has polled once without success depends on the hardware to see its grant: the lines of the
  test are in its cache by then and \<open>poll_for_grant\<close> does not drop them. As long as none of the lines in the cache is evicted, the poll ends with
  \<open>ERROR_BUSY\<close> or \<open>ERROR_TIMEOUT\<close>, whatever the lock manager and the other hosts write to the memory at any time before and during
  the poll; once they are evicted, it succeeds at the next test when the memory has the grant. This holds for all four algorithms.
\<close>

theorem cached_poll_needs_eviction:
  assumes "crun sh (tt_granted tt l) c m = CResult False c1 m1" and "poll_ends fuel clk timeout"
  shows "((\<forall>i. evicted i \<inter> cached_lines c1 = {}) \<longrightarrow>
       (\<exists>j c2 m3. crun_env sh evicted others (poll_for_grant fuel tt clk l timeout) i c1 m2 = CResult (poll_failure timeout, j) c2 m3)) \<and>
    (\<forall>m3. m3 = write_back (cached_lines c1) c1 m2 \<longrightarrow> run sh (tt_granted tt l) m3 = Result True m3 \<longrightarrow>
       (\<exists>c2. crun sh (poll_for_grant fuel tt clk l timeout) (drop_lines (cached_lines c1) c1) m3 = CResult SUCCESS c2 m3))"
proof (intro conjI allI impI)
  assume keep: "\<forall>i. evicted i \<inter> cached_lines c1 = {}"
  have "m1 = m"
    using crun_reads_extends [OF reads_only_granted assms(1)] by simp
  then have "crun sh (tt_granted tt l) c1 m = CResult False c1 m"
    using crun_again [OF reads_only_granted] assms(1) by simp
  then have no: "run sh (tt_granted tt l) (view c1 m) = Result False (view c1 m)"
    using crun_reads_run [OF reads_only_granted, of sh tt l c1 m] by simp
  note run_poll_not_granted [OF no assms(2)]
  then show "\<exists>j c2 m3. crun_env sh evicted others (poll_for_grant fuel tt clk l timeout) i c1 m2 = CResult (poll_failure timeout, j) c2 m3"
    unfolding poll_for_grant_def using cached_poll_blind [where evicted = evicted and others = others, OF assms(1) _ no _ extends_refl] keep by blast
next
  fix m3
  assume granted: "run sh (tt_granted tt l) m3 = Result True m3"
  have "0 < fuel" using assms(2) by (auto simp: poll_ends_def split: if_splits)
  then have "run sh (poll_for_grant fuel tt clk l timeout) m3 = Result SUCCESS m3" using granted by (intro run_poll_granted)
  then show "\<exists>c2. crun sh (poll_for_grant fuel tt clk l timeout) (drop_lines (cached_lines c1) c1) m3 = CResult SUCCESS c2 m3"
    using crun_reads_Result [OF reads_only_poll] by (metis view_evicted)
qed

section \<open>The lock manager\<close>

lemma reads_only_cas_check: "reads_only (cas_check_grant l shm off nc)"
proof -
  have "reads_only (cas_read_slot_state l n nc sh off)" for n sh
    by (simp add: cas_read_slot_state_def tree_simps split: option.split)
  then have "reads_only (cas_scan_locked l nc sh off ns)" "reads_only (cas_scan_waiting l nc sh off ns)" for sh ns
    by (induction ns) (auto intro!: reads_only_bind)
  then show ?thesis by (auto simp: cas_check_grant_def intro!: reads_only_bind split: option.split)
qed

text \<open>A scan over slots none of which is \<open>WAITING\<close>, in the view of the host of the manager.\<close>

lemma crun_cas_idle_scan:
  assumes "cas_fits sh nc off" and "\<forall>l \<in> set ls. l < MAX_LOCK_COUNT"
    and "\<forall>l < MAX_LOCK_COUNT. \<forall>n < nc. view c m (cas_slot nc off l n) \<noteq> 1"
  shows "\<exists>c1. crun sh (scan_locks (CasAlgorithm a) (Some sh) off nc ls w st) c m = CResult (w, st) c1 m \<and>
    extends c c1 \<and> view c1 m = view c m \<and>
    (\<forall>d m2 w st. extends c1 d \<longrightarrow>
       crun sh (scan_locks (CasAlgorithm a) (Some sh) off nc ls w st) d m2 = CResult (w, st) d m2)"
  using assms(2,3)
proof (induction ls arbitrary: c)
  case Nil
  then show ?case by simp
next
  case (Cons l ls)
  have l: "l < MAX_LOCK_COUNT" using Cons.prems by simp
  have "cas_pick nc (\<lambda>n. view c m (cas_slot nc off l n)) = None"
    using Cons.prems(2) l by (simp add: cas_pick_None)
  then obtain c1 where c1: "crun sh (cas_check_grant l (Some sh) off nc) c m = CResult INVALID_NODE_ID c1 m"
    "extends c c1" "view c1 m = view c m"
    using crun_reads_Result [OF reads_only_cas_check, of sh l "Some sh" off nc c m]
      run_cas_check [OF assms(1) l, of "view c m"] by auto
  have again: "crun sh (cas_check_grant l (Some sh) off nc) d m2 = CResult INVALID_NODE_ID d m2"
    if "extends c1 d" for d m2
    by (rule crun_again [OF reads_only_cas_check c1(1) that])
  obtain c2 where c2: "crun sh (scan_locks (CasAlgorithm a) (Some sh) off nc ls w st) c1 m = CResult (w, st) c2 m"
    "extends c1 c2" "view c2 m = view c1 m"
    "\<forall>d m2 w st. extends c2 d \<longrightarrow>
       crun sh (scan_locks (CasAlgorithm a) (Some sh) off nc ls w st) d m2 = CResult (w, st) d m2"
    using Cons.IH [of c1] Cons.prems c1(3) by auto
  have "extends c c2" using c1(2) c2(2) extends_trans by blast
  moreover have "crun sh (scan_locks (CasAlgorithm a) (Some sh) off nc (l # ls) w' st') d m2 = CResult (w', st') d m2"
    if "extends c2 d" for d m2 w' st'
    using again [OF extends_trans [OF c2(2) that]] c2(4) that
    by (simp add: crun_bind alg_check_grant_def)
  ultimately show ?case
    using c1 c2 by (simp add: crun_bind alg_check_grant_def)
qed

definition idle_cycle :: "LockManager \<Rightarrow> LockManager" where
  "idle_cycle lm = lm\<lparr>lm_stats := (lm_stats lm)\<lparr>scan_cycles := scan_cycles (lm_stats lm) + 1,
     idle_cycles := idle_cycles (lm_stats lm) + 1\<rparr>\<rparr>"

text \<open>
  The lock manager has the same blindness under the CAS algorithm: once it has scanned a table in which nobody waits,
  the lines of the table stay in the cache of its host, and every later scan is idle, whatever
  requests the nodes on other hosts have written and flushed to the memory.
\<close>

theorem cached_manager_never_sees_request:
  assumes "cas_fits sh nc off" and "manager_ready (CasAlgorithm a) sh nc off lm"
    and "\<forall>l < MAX_LOCK_COUNT. \<forall>n < nc. view c m (cas_slot nc off l n) \<noteq> 1"
  shows "\<exists>c1. crun sh (run_single_scan lm) c m = CResult (idle_cycle lm) c1 m \<and>
    crun sh (run_single_scan (idle_cycle lm)) c1 m2 = CResult (idle_cycle (idle_cycle lm)) c1 m2"
proof -
  have ls: "\<forall>l \<in> set (u32_upto (lm_max_locks lm)). l < MAX_LOCK_COUNT"
    using assms(2) by (auto simp: manager_ready_def intro: order.strict_trans2)
  obtain c1 where "crun sh (scan_locks (CasAlgorithm a) (Some sh) off nc (u32_upto (lm_max_locks lm)) False (lm_stats lm)) c m =
      CResult (False, lm_stats lm) c1 m"
    "\<forall>d m2 w st. extends c1 d \<longrightarrow> crun sh (scan_locks (CasAlgorithm a) (Some sh) off nc
      (u32_upto (lm_max_locks lm)) w st) d m2 = CResult (w, st) d m2"
    using crun_cas_idle_scan [OF assms(1) ls assms(3)] by blast
  then show ?thesis
    using assms(2)
    by (intro exI [of _ c1]) (simp add: run_single_scan_def manager_ready_def crun_bind Let_def idle_cycle_def)
qed

section \<open>What a flush writes back\<close>

lemma flushed_line:
  "0 < unat n \<Longrightarrow> unat n \<le> 64 \<Longrightarrow> flushed_lines a (unat n) = {line_of a}"
  by (subst flushed_lines_eq) (simp_all add: div_le_dividend)

lemma crun_flush [simp]:
  assumes "shm_valid sh" and "shm_consistency sh = SOFTWARE_CONSISTENCY" and "0 < n" and "n \<le> 64"
  shows "crun sh (seq (flush_cache sh p n) q) c m =
    crun sh q (drop_lines {line_of_cell (cell_of sh p)} c) (write_back {line_of_cell (cell_of sh p)} c m)"
proof -
  have "0 < unat n" "unat n \<le> 64" using assms(3,4) by (simp_all add: word_less_nat_alt word_le_nat_alt)
  then show ?thesis
    using assms(1,2,3) by (auto simp: flush_cache_def seq_def Let_def flushed_line line_of_cell_def)
qed

lemma crun_basic:
  "crun sh (bind (atomic_load p) f) c m =
     (if in_bounds sh p 4 then
        crun sh (f (view c m (cell_of sh p))) (fetch {line_of_cell (cell_of sh p)} c m) m else CFault)"
  "crun sh (seq (atomic_store p v) q) c m =
     (if in_bounds sh p 4 then crun sh q (cache_write (cell_of sh p) v c m) m else CFault)"
  "crun sh (seq (plain_store p v) q) c m =
     (if in_bounds sh p 4 then crun sh q (cache_write (cell_of sh p) v c m) m else CFault)"
  "crun sh (bind (fetch_add p v) f) c m =
     (if in_bounds sh p 4 then
        crun sh (f (view c m (cell_of sh p)))
          (cache_write (cell_of sh p) (view c m (cell_of sh p) + v) (fetch {line_of_cell (cell_of sh p)} c m) m) m
      else CFault)"
  "crun sh (seq memory_fence q) c m = crun sh q c m"
  by (simp_all add: tree_simps Let_def)

section \<open>The CAS slots\<close>

text \<open>A node that writes its slot publishes it, and with it the line as its cache has it.\<close>

definition publish :: "u64 \<Rightarrow> u32 \<Rightarrow> cache \<Rightarrow> mem \<Rightarrow> mem" where
  "publish a v c m = (\<lambda>x. if x = a then v else if line_of_cell x = line_of_cell a then view c m x else m x)"

definition forget :: "u64 \<Rightarrow> u32 \<Rightarrow> cache \<Rightarrow> mem \<Rightarrow> cache" where
  "forget a v c m = drop_lines {line_of_cell a} (cache_write a v c m)"

lemma write_back_publish: "write_back {line_of_cell a} (cache_write a v c m) m = publish a v c m"
  by (auto simp: write_back_def cache_write_def publish_def fetch_def view_def Let_def)

lemma crun_cas_acquire:
  assumes "cas_fits sh nc off" and "shm_consistency sh = SOFTWARE_CONSISTENCY" and "l < MAX_LOCK_COUNT" and "n < nc"
  shows "crun sh (cas_acquire_lock \<lparr>cas_node_count = nc\<rparr> n l (Some sh) off) c m =
      CResult SUCCESS (forget (cas_slot nc off l n) 1 c m) (publish (cas_slot nc off l n) 1 c m)"
    and "crun sh (cas_release_lock \<lparr>cas_node_count = nc\<rparr> n l (Some sh) off) c m =
      CResult SUCCESS (forget (cas_slot nc off l n) 0 c m) (publish (cas_slot nc off l n) 0 c m)"
proof -
  have "shm_valid sh" using assms(1) by (simp add: cas_fits_def region_ok_def)
  then show "crun sh (cas_acquire_lock \<lparr>cas_node_count = nc\<rparr> n l (Some sh) off) c m =
      CResult SUCCESS (forget (cas_slot nc off l n) 1 c m) (publish (cas_slot nc off l n) 1 c m)"
    and "crun sh (cas_release_lock \<lparr>cas_node_count = nc\<rparr> n l (Some sh) off) c m =
      CResult SUCCESS (forget (cas_slot nc off l n) 0 c m) (publish (cas_slot nc off l n) 0 c m)"
    using assms cas_fits_node [OF assms(1,4)] cas_slot_addr [OF assms(1,3,4)]
    by (simp_all add: cas_acquire_lock_def cas_release_lock_def cas_write_slot_state_def prog_assoc deref_Some
        crun_basic forget_def write_back_publish cell_of_base)
qed

lemma crun_granted_cas:
  assumes "cas_fits sh nc off" and "l < MAX_LOCK_COUNT" and "n < nc"
    and "client_lock (CasAlgorithm a) sh nc off n tt"
  shows "crun sh (tt_granted tt l) c m =
    CResult (view c m (cas_slot nc off l n) = 2) (fetch {line_of_cell (cas_slot nc off l n)} c m) m"
  using assms(4) cas_slot_addr [OF assms(1-3)]
  by (simp add: tt_granted_def client_lock_def cas_get_slot_addr_def cas_get_slot_offset_def deref_Some
      crun_basic cell_of_base)

text \<open>
  C24. Under software consistency the CAS algorithm loses requests: the slots of 16 nodes share a cache line. Node \<open>n\<close>
  requests the lock and polls, so that its host has the line; node \<open>n'\<close> on another host requests
  the lock; then \<open>n\<close>, whose line has not been evicted, gives up, and the flush of its slot writes the old line back over the request of \<open>n'\<close>. All calls
  return \<open>SUCCESS\<close>, and \<open>n'\<close> waits for a lock that the memory does not know it wants.
\<close>

theorem cas_cached_request_lost:
  assumes "cas_fits sh nc off" and "shm_consistency sh = SOFTWARE_CONSISTENCY" and "l < MAX_LOCK_COUNT"
    and "n < nc" and "n' < nc" and "n \<noteq> n'"
    and "line_of_cell (cas_get_slot_offset l n nc off) = line_of_cell (cas_get_slot_offset l n' nc off)"
    and "client_lock (CasAlgorithm \<lparr>cas_node_count = nc\<rparr>) sh nc off n tt"
    and "m (cas_get_slot_offset l n' nc off) = 0"
  shows "\<exists>c1 c2 c3 c4 m1 m2 m3.
    crun sh (alg_acquire_lock fuel (CasAlgorithm \<lparr>cas_node_count = nc\<rparr>) n l (Some sh) off) empty_cache m =
      CResult SUCCESS c1 m1 \<and>
    crun sh (tt_granted tt l) c1 m1 = CResult False c2 m1 \<and>
    crun sh (alg_acquire_lock fuel (CasAlgorithm \<lparr>cas_node_count = nc\<rparr>) n' l (Some sh) off) empty_cache m1 =
      CResult SUCCESS c3 m2 \<and>
    m2 (cas_get_slot_offset l n' nc off) = 1 \<and>
    crun sh (alg_release_lock fuel (CasAlgorithm \<lparr>cas_node_count = nc\<rparr>) n l (Some sh) off) c2 m2 =
      CResult SUCCESS c4 m3 \<and>
    m3 (cas_get_slot_offset l n' nc off) = 0"
proof -
  let ?a = "cas_slot nc off l n" and ?b = "cas_slot nc off l n'"
  define m1 where "m1 = publish ?a 1 empty_cache m"
  define c1 where "c1 = forget ?a 1 empty_cache m"
  define c2 where "c2 = fetch {line_of_cell ?a} c1 m1"
  have nc: "nc \<le> MAX_NODE_COUNT" using assms(1) by (simp add: cas_fits_def)
  have ab: "?a \<noteq> ?b" using cas_slot_inj [OF nc assms(3,4,3,5), of off] assms(6) by simp
  have c1: "cached_lines c1 = {}"
    by (simp add: c1_def forget_def drop_lines_def cache_write_def fetch_def empty_cache_def Let_def)
  have m1: "m1 ?a = 1" "m1 ?b = 0"
    using ab assms(9) by (simp_all add: m1_def publish_def view_def empty_cache_def)
  have "view c1 m1 ?a \<noteq> 2" using c1 m1 by (simp add: view_def)
  then have poll: "crun sh (tt_granted tt l) c1 m1 = CResult False c2 m1"
    using crun_granted_cas [OF assms(1,3,4,8)] by (simp add: c2_def)
  have "view c2 (publish ?b 1 empty_cache m1) ?b = m1 ?b"
    using c1 assms(7) by (simp add: view_def c2_def fetch_def)
  then have "publish ?a 0 c2 (publish ?b 1 empty_cache m1) ?b = 0"
    using ab assms(7) m1 by (simp add: publish_def)
  moreover have "publish ?b 1 empty_cache m1 ?b = 1" by (simp add: publish_def)
  ultimately show ?thesis
    using poll crun_cas_acquire [OF assms(1,2,3,4)] crun_cas_acquire [OF assms(1,2,3,5)]
    unfolding alg_acquire_lock_def alg_release_lock_def m1_def c1_def by simp
qed

section \<open>The FAA tickets\<close>

lemma line_div: "f < 64 \<Longrightarrow> b mod 64 = 0 \<Longrightarrow> (b + i * 64 + f) div 64 = b div 64 + (i :: nat)"
proof -
  assume f: "f < 64" and b: "b mod 64 = 0"
  from b obtain q where "b = 64 * q" by blast
  then have "b + i * 64 + f = f + 64 * (q + i)" by simp
  then have "(b + i * 64 + f) div 64 = (q + i) + f div 64"
    by (metis div_mult_self2 zero_neq_numeral)
  then show ?thesis using f \<open>b = 64 * q\<close> by simp
qed

lemma line_of_entry:
  assumes "lines_fit sh nc off" and "unat off mod 64 = 0" and "l < MAX_LOCK_COUNT" and "unat f < 64"
  shows "line_of_cell (ecell off l f) = unat off div 64 + unat l"
  unfolding line_of_cell_def line_of_def ecell_unat(1) [OF assms(1,3,4)] using assms(2,4) by (simp add: line_div)

lemma line_of_node:
  assumes "lines_fit sh nc off" and "unat off mod 64 = 0" and "n < nc" and "unat f < 64"
  shows "line_of_cell (ncell off n f) = unat off div 64 + (1024 + unat n)"
proof -
  have "unat (ncell off n f) = unat off + (1024 + unat n) * 64 + unat f"
    using ncell_unat(1) [OF assms(1,3,4)] by simp
  then show ?thesis
    unfolding line_of_cell_def line_of_def using assms(2,4) by (simp only: line_div)
qed

text \<open>
  What a request does when the host has neither line: the ticket counter stays in the cache, the
  ticket record goes to the memory.
\<close>

lemma crun_faa_acquire:
  assumes fit: "lines_fit sh nc off" and "unat off mod 64 = 0" and "shm_consistency sh = SOFTWARE_CONSISTENCY"
    and l: "l < MAX_LOCK_COUNT" and n: "n < nc"
  shows "\<exists>c1 m1. crun sh (faa_acquire_lock self n l (Some sh) off) empty_cache m = CResult SUCCESS c1 m1 \<and>
    m1 (ncell off n 0) = m (ecell off l 0) \<and> m1 (ncell off n 4) = 1 \<and>
    (\<forall>x. line_of_cell x \<noteq> line_of_cell (ncell off n 0) \<longrightarrow> m1 x = m x) \<and>
    cached_lines c1 = {line_of_cell (ecell off l 0)} \<and> line_data c1 (ecell off l 4) = m (ecell off l 4)"
proof -
  have valid: "shm_valid sh" using fit by (simp add: lines_fit_def region_ok_def)
  have le: "line_of_cell (ecell off l f) = unat off div 64 + unat l" if "unat f < 64" for f
    by (rule line_of_entry [OF fit assms(2) l that])
  have ln: "line_of_cell (ncell off n f) = unat off div 64 + (1024 + unat n)" if "unat f < 64" for f
    by (rule line_of_node [OF fit assms(2) n that])
  have ul: "unat l < 1024" using l by (simp add: u32_less_unat MAX_LOCK_COUNT_def)
  have e: "ecell off l 4 \<noteq> ecell off l 0" "ncell off n 4 \<noteq> ncell off n 0"
    "ecell off l 4 \<noteq> ncell off n 0" "ecell off l 4 \<noteq> ncell off n 4"
    by (simp_all add: ecell_inj ncell_inj ecell_neq_ncell [OF l])
  show ?thesis
    using valid assms(3) lines_fit_node [OF fit n] le [of 0] le [of 4] ln [of 0] ln [of 4] e ul
    by (simp add: faa_acquire_lock_def prog_assoc deref_Some faa_ptrs [OF fit] l n crun_basic prog_simps
        view_def empty_cache_def fetch_def cache_write_def write_back_def drop_lines_def Let_def)
qed

lemma crun_granted_faa:
  assumes "lines_fit sh nc off" and "l < MAX_LOCK_COUNT" and "n < nc"
    and "client_lock (FaaAlgorithm a) sh nc off n tt"
  shows "\<exists>c'. crun sh (tt_granted tt l) c m =
    CResult (view c m (ecell off l 4) \<ge> view c m (ncell off n 0) \<and> view c m (ncell off n 4) \<noteq> 0) c' m"
proof -
  have "run sh (tt_granted tt l) (view c m) =
      Result (view c m (ecell off l 4) \<ge> view c m (ncell off n 0) \<and> view c m (ncell off n 4) \<noteq> 0) (view c m)"
    by (simp add: tt_granted_faa [OF assms] prog_simps faa_ptrs [OF assms(1)] assms(2,3))
  then show ?thesis using crun_reads_Result [OF reads_only_granted] by blast
qed

text \<open>
  C23. Under software consistency the FAA algorithm lets two nodes in at once, without any race: \<open>acquire_lock\<close> does
  not flush the ticket counter, so two hosts that request a lock one after the other, without an eviction in between, draw the
  same ticket, and when it is served, both polls report the grant. In freshly initialised memory the first ticket is
  served from the start.
\<close>

theorem faa_cached_not_exclusive:
  assumes "lines_fit sh nc off" and "unat off mod 64 = 0" and "shm_consistency sh = SOFTWARE_CONSISTENCY"
    and "l < MAX_LOCK_COUNT" and "n < nc" and "n' < nc" and "n \<noteq> n'"
    and "client_lock (FaaAlgorithm a) sh nc off n tt" and "client_lock (FaaAlgorithm a) sh nc off n' tt'"
    and "m (ecell off l 0) \<le> m (ecell off l 4)"
  shows "\<exists>c1 c2 c1' c2' m1 m2.
    crun sh (alg_acquire_lock fuel (FaaAlgorithm a) n l (Some sh) off) empty_cache m = CResult SUCCESS c1 m1 \<and>
    crun sh (alg_acquire_lock fuel (FaaAlgorithm a) n' l (Some sh) off) empty_cache m1 = CResult SUCCESS c2 m2 \<and>
    m2 (ncell off n 0) = m2 (ncell off n' 0) \<and>
    crun sh (tt_granted tt l) c1 m2 = CResult True c1' m2 \<and>
    crun sh (tt_granted tt' l) c2 m2 = CResult True c2' m2"
proof -
  note fit = assms(1) and line_e = line_of_entry [OF assms(1,2,4)] and line_n = line_of_node [OF assms(1,2)]
  have ul: "unat l < 1024" using assms(4) by (simp add: u32_less_unat MAX_LOCK_COUNT_def)
  have nn: "unat n \<noteq> unat n'" using assms(7) by (simp add: word_unat_eq_iff)
  obtain c1 m1 where r1: "crun sh (faa_acquire_lock a n l (Some sh) off) empty_cache m = CResult SUCCESS c1 m1"
    "m1 (ncell off n 0) = m (ecell off l 0)" "m1 (ncell off n 4) = 1"
    "\<forall>x. line_of_cell x \<noteq> line_of_cell (ncell off n 0) \<longrightarrow> m1 x = m x"
    "cached_lines c1 = {line_of_cell (ecell off l 0)}" "line_data c1 (ecell off l 4) = m (ecell off l 4)"
    using crun_faa_acquire [OF fit assms(2,3,4,5)] by blast
  obtain c2 m2 where r2: "crun sh (faa_acquire_lock a n' l (Some sh) off) empty_cache m1 = CResult SUCCESS c2 m2"
    "m2 (ncell off n' 0) = m1 (ecell off l 0)" "m2 (ncell off n' 4) = 1"
    "\<forall>x. line_of_cell x \<noteq> line_of_cell (ncell off n' 0) \<longrightarrow> m2 x = m1 x"
    "cached_lines c2 = {line_of_cell (ecell off l 0)}" "line_data c2 (ecell off l 4) = m1 (ecell off l 4)"
    using crun_faa_acquire [OF fit assms(2,3,4,6)] by blast
  have m1e: "m1 (ecell off l 0) = m (ecell off l 0)" "m1 (ecell off l 4) = m (ecell off l 4)"
    using r1(4) line_e line_n [OF assms(5)] ul by simp_all
  have m2n: "m2 (ncell off n 0) = m (ecell off l 0)" "m2 (ncell off n 4) = 1"
    using r1(2,3) r2(4) line_n [OF assms(5)] line_n [OF assms(6)] nn by simp_all
  have v: "view c1 m2 (ecell off l 4) = m (ecell off l 4)" "view c2 m2 (ecell off l 4) = m (ecell off l 4)"
    "view c1 m2 (ncell off n f) = m2 (ncell off n f)" "view c2 m2 (ncell off n' f) = m2 (ncell off n' f)"
    if "unat f < 64" for f
    using that r1(5,6) r2(5,6) m1e line_e line_n [OF assms(5)] line_n [OF assms(6)] ul by (simp_all add: view_def)
  obtain c1' where g1: "crun sh (tt_granted tt l) c1 m2 = CResult True c1' m2"
    using crun_granted_faa [OF fit assms(4,5,8), of c1 m2] v [of 0] v [of 4] m2n assms(10) by auto
  obtain c2' where g2: "crun sh (tt_granted tt' l) c2 m2 = CResult True c2' m2"
    using crun_granted_faa [OF fit assms(4,6,9), of c2 m2] v [of 0] v [of 4] r2(2,3) m1e assms(10) by auto
  show ?thesis
    using r1(1) r2(1,2) m1e m2n g1 g2 by (auto simp: alg_acquire_lock_def)
qed

section \<open>A concrete region\<close>

definition soft_region :: SharedMemoryRegion where
  "soft_region = demo_region\<lparr>shm_consistency := SOFTWARE_CONSISTENCY\<rparr>"

definition soft_lock :: "GlobalLockAlgorithm \<Rightarrow> NodeId \<Rightarrow> TwoTierLock" where
  "soft_lock alg n = (demo_lock alg n)\<lparr>tt_shm := Some soft_region\<rparr>"

definition soft_manager :: LockManager where
  "soft_manager = (demo_manager (CasAlgorithm \<lparr>cas_node_count = 2\<rparr>))\<lparr>lm_shm := Some soft_region\<rparr>"

lemma soft_region_mode: "shm_consistency soft_region = SOFTWARE_CONSISTENCY"
  by (simp add: soft_region_def)

lemma soft_cas_fits: "cas_fits soft_region 2 0"
  using demo_cas_fits [of 2] by (simp add: cas_fits_def region_ok_def soft_region_def MAX_NODE_COUNT_def)

lemma soft_lines_fit: "lines_fit soft_region 2 0"
  using demo_fit(1) by (simp add: lines_fit_def region_ok_def soft_region_def)

lemma soft_lock_client: "client_lock alg soft_region 2 0 n (soft_lock alg n)"
  using demo_lock_client [of alg n] by (simp add: client_lock_def soft_lock_def)

lemma soft_manager_ready: "manager_ready (CasAlgorithm \<lparr>cas_node_count = 2\<rparr>) soft_region 2 0 soft_manager"
  using demo_manager_ready [of "CasAlgorithm \<lparr>cas_node_count = 2\<rparr>"]
  by (simp add: manager_ready_def soft_manager_def)

lemma first_lock: "(0 :: u32) < MAX_LOCK_COUNT"
  by (simp add: MAX_LOCK_COUNT_def)

text \<open>
  The manager writes \<open>LOCKED\<close> into the slot of node 1 during the poll, before its third access; nothing is evicted, and the poll
  fails. With the line evicted the poll succeeds.
\<close>

theorem cached_poll_needs_eviction_witness:
  "(\<exists>c1 j c2 m3. crun_env soft_region (\<lambda>_. {}) (\<lambda>i m. if i = 2 then m(cas_slot 2 0 0 1 := 2) else m)
     (poll_for_grant 1002 (soft_lock (CasAlgorithm \<lparr>cas_node_count = 2\<rparr>) 1) (\<lambda>_. 0) 0 0) 0 c1 (\<lambda>_. 0) = CResult (ERROR_BUSY, j) c2 m3 \<and>
     (\<exists>c3. crun soft_region (poll_for_grant 1002 (soft_lock (CasAlgorithm \<lparr>cas_node_count = 2\<rparr>) 1) (\<lambda>_. 0) 0 0)
       (drop_lines (cached_lines c1) c1) ((\<lambda>_. 0)(cas_slot 2 0 0 1 := 2)) = CResult SUCCESS c3 ((\<lambda>_. 0)(cas_slot 2 0 0 1 := 2))))"
proof -
  let ?tt = "soft_lock (CasAlgorithm \<lparr>cas_node_count = 2\<rparr>) 1" and ?m = "(\<lambda>_. 0)(cas_slot 2 0 0 1 := 2) :: mem"
  define c1 where "c1 = fetch {line_of_cell (cas_slot 2 0 0 1)} empty_cache (\<lambda>_. 0)"
  have one: "(1 :: u32) < 2" by simp
  have first: "crun soft_region (tt_granted ?tt 0) empty_cache (\<lambda>_. 0) = CResult False c1 (\<lambda>_. 0)"
    using crun_granted_cas [OF soft_cas_fits first_lock one soft_lock_client]
    by (simp add: view_def empty_cache_def c1_def)
  have ends: "poll_ends 1002 (\<lambda>_. 0) 0" by (simp add: poll_ends_def)
  have clean: "?m = write_back (cached_lines c1) c1 ?m"
    by (simp add: write_back_def c1_def fetch_def empty_cache_def fun_eq_iff)
  have granted: "run soft_region (tt_granted ?tt 0) ?m = Result True ?m"
    using run_tt_granted_cas [OF soft_cas_fits first_lock one soft_lock_client] by simp
  note both = cached_poll_needs_eviction [OF first ends]
  have "\<forall>i :: nat. {} \<inter> cached_lines c1 = {}" by simp
  from both [THEN conjunct1, rule_format, OF this [rule_format]] both [THEN conjunct2, rule_format, OF clean granted] show ?thesis
    unfolding poll_failure_def if_P [OF refl] by blast
qed

theorem cached_manager_never_sees_request_witness:
  "\<exists>c1. crun soft_region (run_single_scan (idle_cycle soft_manager)) c1 ((\<lambda>_. 0)(cas_slot 2 0 0 1 := 1)) =
     CResult (idle_cycle (idle_cycle soft_manager)) c1 ((\<lambda>_. 0)(cas_slot 2 0 0 1 := 1))"
proof -
  have "\<forall>l < MAX_LOCK_COUNT. \<forall>n < 2. view empty_cache (\<lambda>_. 0) (cas_slot 2 0 l n) \<noteq> 1"
    by (simp add: view_def empty_cache_def)
  from cached_manager_never_sees_request [OF soft_cas_fits soft_manager_ready this] show ?thesis by blast
qed

text \<open>Nodes 0 and 1 of two, with their slots next to each other.\<close>

theorem cas_cached_request_lost_witness:
  "\<exists>c1 c2 c3 c4 m1 m2 m3.
    crun soft_region (alg_acquire_lock 0 (CasAlgorithm \<lparr>cas_node_count = 2\<rparr>) 0 0 (Some soft_region) 0) empty_cache (\<lambda>_. 0) =
      CResult SUCCESS c1 m1 \<and>
    crun soft_region (tt_granted (soft_lock (CasAlgorithm \<lparr>cas_node_count = 2\<rparr>) 0) 0) c1 m1 = CResult False c2 m1 \<and>
    crun soft_region (alg_acquire_lock 0 (CasAlgorithm \<lparr>cas_node_count = 2\<rparr>) 1 0 (Some soft_region) 0) empty_cache m1 =
      CResult SUCCESS c3 m2 \<and>
    m2 (cas_get_slot_offset 0 1 2 0) = 1 \<and>
    crun soft_region (alg_release_lock 0 (CasAlgorithm \<lparr>cas_node_count = 2\<rparr>) 0 0 (Some soft_region) 0) c2 m2 =
      CResult SUCCESS c4 m3 \<and>
    m3 (cas_get_slot_offset 0 1 2 0) = 0"
proof (rule cas_cached_request_lost [OF soft_cas_fits soft_region_mode first_lock])
  show "line_of_cell (cas_get_slot_offset 0 0 2 0) = line_of_cell (cas_get_slot_offset 0 1 2 0)"
    by (simp add: cas_get_slot_offset_def line_of_cell_def line_of_def)
qed (simp_all add: soft_lock_client)

text \<open>In zeroed memory both nodes hold ticket 0, which is the one in service.\<close>

theorem faa_cached_not_exclusive_witness:
  "\<exists>c1 c2 c1' c2' m1 m2.
    crun soft_region (alg_acquire_lock 0 (FaaAlgorithm \<lparr>faa_node_count = 2\<rparr>) 0 0 (Some soft_region) 0) empty_cache (\<lambda>_. 0) = CResult SUCCESS c1 m1 \<and>
    crun soft_region (alg_acquire_lock 0 (FaaAlgorithm \<lparr>faa_node_count = 2\<rparr>) 1 0 (Some soft_region) 0) empty_cache m1 = CResult SUCCESS c2 m2 \<and>
    m2 (ncell 0 0 0) = m2 (ncell 0 1 0) \<and>
    crun soft_region (tt_granted (soft_lock (FaaAlgorithm \<lparr>faa_node_count = 2\<rparr>) 0) 0) c1 m2 = CResult True c1' m2 \<and>
    crun soft_region (tt_granted (soft_lock (FaaAlgorithm \<lparr>faa_node_count = 2\<rparr>) 1) 0) c2 m2 = CResult True c2' m2"
  by (rule faa_cached_not_exclusive [OF soft_lines_fit _ soft_region_mode first_lock]) (simp_all add: soft_lock_client)

text \<open>Two requests of one host for a slot, with the line in the cache in between.\<close>

theorem crun_refines_run_witness:
  "flatten (crun soft_region (cas_acquire_lock \<lparr>cas_node_count = 2\<rparr> 1 0 (Some soft_region) 0) empty_cache (\<lambda>_. 0)) =
    run soft_region (cas_acquire_lock \<lparr>cas_node_count = 2\<rparr> 1 0 (Some soft_region) 0) (\<lambda>_. 0)"
proof -
  have "cache_ok empty_cache (\<lambda>_. 0)" "view empty_cache (\<lambda>_. 0) = (\<lambda>_. 0)"
    by (simp_all add: cache_ok_def view_def empty_cache_def)
  then show ?thesis
    using crun_refines_run [of empty_cache "\<lambda>_. 0" soft_region
      "cas_acquire_lock \<lparr>cas_node_count = 2\<rparr> 1 0 (Some soft_region) 0"] by simp
qed

end
