(* ===== verification/Interleave.thy ===== *)
theory Interleave
  imports Lock_Contract
begin

text \<open>
  The whole lock system, one shared-memory access at a time: any number of client threads
  and one lock manager. A client thread is named by its node and its lock: among the threads
  of a node only the one that holds the local mutex of a lock is past \<open>LocalLockArray\<close>, so at
  most one per node and lock works on shared memory (\<open>Thread_System\<close> proves that nothing is lost by this). It runs the global part of
  \<open>TwoTierLock::acquire\<close>, is in its critical section once that returned \<open>SUCCESS\<close>, and then
  runs the global part of \<open>TwoTierLock::release\<close>. The manager runs \<open>run_single_scan\<close> over and
  over. Each thread reaches the memory through the mapping of its own process.
\<close>

section \<open>States and steps\<close>

datatype client =
    Idle
  | Acquiring "LockResult prog"
  | Critical
  | Releasing "LockResult prog"

record ('t, 'm) protocol =
  region_of :: "'t \<Rightarrow> SharedMemoryRegion"
  manager_region :: SharedMemoryRegion
  acquisition :: "'t \<Rightarrow> LockResult prog \<Rightarrow> bool"
  release :: "'t \<Rightarrow> LockResult prog \<Rightarrow> bool"
  next_scan :: "'m \<Rightarrow> 'm prog"

record ('t, 'm) system =
  shared :: mem
  clients :: "'t \<Rightarrow> client"
  manager :: "'m prog"

inductive client_move ::
  "('t, 'm) protocol \<Rightarrow> 't \<Rightarrow> client \<Rightarrow> mem \<Rightarrow> client \<Rightarrow> mem \<Rightarrow> bool"
  for P :: "('t, 'm) protocol" and t :: 't
where
  start_acquire: "acquisition P t p \<Longrightarrow> client_move P t Idle m (Acquiring p) m"
| acquire_access: "pstep (region_of P t) p m = (p', m') \<Longrightarrow>
     client_move P t (Acquiring p) m (Acquiring p') m'"
| acquire_success: "client_move P t (Acquiring (Ret SUCCESS)) m Critical m"
| acquire_failure: "rc \<noteq> SUCCESS \<Longrightarrow> client_move P t (Acquiring (Ret rc)) m Idle m"
| start_release: "release P t p \<Longrightarrow> client_move P t Critical m (Releasing p) m"
| release_access: "pstep (region_of P t) p m = (p', m') \<Longrightarrow>
     client_move P t (Releasing p) m (Releasing p') m'"
| release_done: "client_move P t (Releasing (Ret rc)) m Idle m"

inductive manager_move ::
  "('t, 'm) protocol \<Rightarrow> 'm prog \<Rightarrow> mem \<Rightarrow> 'm prog \<Rightarrow> mem \<Rightarrow> bool"
  for P :: "('t, 'm) protocol"
where
  scan_access: "pstep (manager_region P) q m = (q', m') \<Longrightarrow> manager_move P q m q' m'"
| scan_next: "manager_move P (Ret x) m (next_scan P x) m"

inductive sys_step :: "('t, 'm) protocol \<Rightarrow> ('t, 'm) system \<Rightarrow> ('t, 'm) system \<Rightarrow> bool"
  for P :: "('t, 'm) protocol"
where
  client_step: "client_move P t (clients s t) (shared s) c' m' \<Longrightarrow>
     sys_step P s (s\<lparr>shared := m', clients := (clients s)(t := c')\<rparr>)"
| manager_step: "manager_move P (manager s) (shared s) q' m' \<Longrightarrow>
     sys_step P s (s\<lparr>shared := m', manager := q'\<rparr>)"

inductive reachable :: "('t, 'm) protocol \<Rightarrow> ('t, 'm) system \<Rightarrow> ('t, 'm) system \<Rightarrow> bool"
  for P :: "('t, 'm) protocol" and s0 :: "('t, 'm) system"
where
  reachable_start: "reachable P s0 s0"
| reachable_step: "reachable P s0 s \<Longrightarrow> sys_step P s s' \<Longrightarrow> reachable P s0 s'"

definition initial_system :: "mem \<Rightarrow> 'm \<Rightarrow> ('t, 'm) system" where
  "initial_system m x = \<lparr>shared = m, clients = (\<lambda>_. Idle), manager = Ret x\<rparr>"

section \<open>Schedules\<close>

text \<open>
  A schedule chooses, move by move, who runs next; \<open>run_schedule\<close> executes it and skips a choice
  that is not possible. What a schedule of allowed choices reaches is reachable.
\<close>

datatype 't choice =
    StartAcquire 't "LockResult prog"
  | StartRelease 't "LockResult prog"
  | Advance 't nat
  | AdvanceManager nat
  | NextScan

fun advance_client ::
  "SharedMemoryRegion \<Rightarrow> client \<Rightarrow> mem \<Rightarrow> client \<times> mem"
where
  "advance_client sh (Acquiring (Ret rc)) m = (if rc = SUCCESS then Critical else Idle, m)"
| "advance_client sh (Releasing (Ret rc)) m = (Idle, m)"
| "advance_client sh (Acquiring p) m = (case pstep sh p m of (p', m') \<Rightarrow> (Acquiring p', m'))"
| "advance_client sh (Releasing p) m = (case pstep sh p m of (p', m') \<Rightarrow> (Releasing p', m'))"
| "advance_client sh c m = (c, m)"

fun advance_client_by :: "nat \<Rightarrow> SharedMemoryRegion \<Rightarrow> client \<Rightarrow> mem \<Rightarrow> client \<times> mem" where
  "advance_client_by 0 sh c m = (c, m)"
| "advance_client_by (Suc k) sh c m =
     (case advance_client sh c m of (c', m') \<Rightarrow> advance_client_by k sh c' m')"

fun advance_prog_by :: "nat \<Rightarrow> SharedMemoryRegion \<Rightarrow> 'm prog \<Rightarrow> mem \<Rightarrow> 'm prog \<times> mem" where
  "advance_prog_by 0 sh q m = (q, m)"
| "advance_prog_by (Suc k) sh q m =
     (case pstep sh q m of (q', m') \<Rightarrow> advance_prog_by k sh q' m')"

fun make_choice :: "('t, 'm) protocol \<Rightarrow> 't choice \<Rightarrow> ('t, 'm) system \<Rightarrow> ('t, 'm) system" where
  "make_choice P (StartAcquire t p) s =
     (case clients s t of Idle \<Rightarrow> s\<lparr>clients := (clients s)(t := Acquiring p)\<rparr> | _ \<Rightarrow> s)"
| "make_choice P (StartRelease t p) s =
     (case clients s t of Critical \<Rightarrow> s\<lparr>clients := (clients s)(t := Releasing p)\<rparr> | _ \<Rightarrow> s)"
| "make_choice P (Advance t k) s =
     (case advance_client_by k (region_of P t) (clients s t) (shared s) of
        (c', m') \<Rightarrow> s\<lparr>shared := m', clients := (clients s)(t := c')\<rparr>)"
| "make_choice P (AdvanceManager k) s =
     (case advance_prog_by k (manager_region P) (manager s) (shared s) of
        (q', m') \<Rightarrow> s\<lparr>shared := m', manager := q'\<rparr>)"
| "make_choice P NextScan s =
     (case manager s of Ret x \<Rightarrow> s\<lparr>manager := next_scan P x\<rparr> | _ \<Rightarrow> s)"

fun choice_allowed :: "('t, 'm) protocol \<Rightarrow> 't choice \<Rightarrow> bool" where
  "choice_allowed P (StartAcquire t p) = acquisition P t p"
| "choice_allowed P (StartRelease t p) = release P t p"
| "choice_allowed P _ = True"

lemma advance_numeral [simp]:
  "advance_client_by (numeral k) sh c m =
     (case advance_client sh c m of (c', m') \<Rightarrow> advance_client_by (pred_numeral k) sh c' m')"
  "advance_prog_by (numeral k) sh q m' =
     (case pstep sh q m' of (q', m'') \<Rightarrow> advance_prog_by (pred_numeral k) sh q' m'')"
  by (simp_all add: numeral_eq_Suc)

definition run_schedule ::
  "('t, 'm) protocol \<Rightarrow> 't choice list \<Rightarrow> ('t, 'm) system \<Rightarrow> ('t, 'm) system"
where
  "run_schedule P cs s = foldl (\<lambda>s c. make_choice P c s) s cs"

lemma reachable_trans: "reachable P s1 s2 \<Longrightarrow> reachable P s0 s1 \<Longrightarrow> reachable P s0 s2"
  by (induction rule: reachable.induct) (auto intro: reachable.intros)

lemma reachable_one: "sys_step P s s' \<Longrightarrow> reachable P s s'"
  by (rule reachable_step [OF reachable_start])

lemma advance_client_move:
  "advance_client (region_of P t) c m = (c', m') \<Longrightarrow> c' = c \<and> m' = m \<or> client_move P t c m c' m'"
  by (cases "(region_of P t, c, m)" rule: advance_client.cases)
     (auto intro: client_move.intros split: prod.splits if_splits)

lemma reachable_client_move:
  assumes "client_move P t c m c' m'" and "clients s t = c" and "shared s = m"
  shows "reachable P s (s\<lparr>shared := m', clients := (clients s)(t := c')\<rparr>)"
  using assms by (intro reachable_one client_step) simp

lemma system_same:
  "s\<lparr>shared := shared s, clients := (clients s)(t := clients s t)\<rparr> = s"
  by simp

lemma reachable_same_client:
  "c' = clients s t \<Longrightarrow> m' = shared s \<Longrightarrow>
   reachable P s (s\<lparr>shared := m', clients := (clients s)(t := c')\<rparr>)"
  using reachable_start [of P s] by (simp only: system_same)

lemma reachable_same_manager:
  "q' = manager s \<Longrightarrow> m' = shared s \<Longrightarrow> reachable P s (s\<lparr>shared := m', manager := q'\<rparr>)"
  using reachable_start [of P s] by simp

lemma reachable_advance_client:
  "advance_client_by k (region_of P t) (clients s t) (shared s) = (c', m') \<Longrightarrow>
   reachable P s (s\<lparr>shared := m', clients := (clients s)(t := c')\<rparr>)"
proof (induction k arbitrary: s)
  case 0
  then show ?case by (intro reachable_same_client) simp_all
next
  case (Suc k)
  obtain c1 m1 where one: "advance_client (region_of P t) (clients s t) (shared s) = (c1, m1)"
    by fastforce
  let ?s1 = "s\<lparr>shared := m1, clients := (clients s)(t := c1)\<rparr>"
  have "reachable P s ?s1"
  proof (cases "c1 = clients s t \<and> m1 = shared s")
    case True
    then show ?thesis by (intro reachable_same_client) simp_all
  next
    case False
    then show ?thesis
      using advance_client_move [OF one] by (intro reachable_client_move [OF _ refl refl]) blast
  qed
  moreover have "reachable P ?s1 (?s1\<lparr>shared := m', clients := (clients ?s1)(t := c')\<rparr>)"
    using Suc.prems one by (intro Suc.IH) simp
  ultimately have "reachable P s (?s1\<lparr>shared := m', clients := (clients ?s1)(t := c')\<rparr>)"
    using reachable_trans by blast
  moreover have "?s1\<lparr>shared := m', clients := (clients ?s1)(t := c')\<rparr> =
      s\<lparr>shared := m', clients := (clients s)(t := c')\<rparr>"
    by (rule system.equality) (simp_all add: fun_eq_iff)
  ultimately show ?case by (simp only:)
qed

lemma reachable_advance_manager:
  "advance_prog_by k (manager_region P) (manager s) (shared s) = (q', m') \<Longrightarrow>
   reachable P s (s\<lparr>shared := m', manager := q'\<rparr>)"
proof (induction k arbitrary: s)
  case 0
  then show ?case by (intro reachable_same_manager) simp_all
next
  case (Suc k)
  obtain q1 m1 where one: "pstep (manager_region P) (manager s) (shared s) = (q1, m1)"
    by fastforce
  let ?s1 = "s\<lparr>shared := m1, manager := q1\<rparr>"
  have "reachable P s ?s1"
    using one by (intro reachable_one manager_step scan_access)
  moreover have "reachable P ?s1 (?s1\<lparr>shared := m', manager := q'\<rparr>)"
    using Suc.prems one by (intro Suc.IH) simp
  ultimately have "reachable P s (?s1\<lparr>shared := m', manager := q'\<rparr>)"
    using reachable_trans by blast
  then show ?case by simp
qed

lemma reachable_make_choice: "choice_allowed P c \<Longrightarrow> reachable P s (make_choice P c s)"
proof (cases c)
  case (StartAcquire t p)
  assume "choice_allowed P c"
  with StartAcquire show ?thesis
    using reachable_client_move [OF start_acquire [of P t p "shared s"], of s]
    by (cases "clients s t") (auto intro: reachable_start)
next
  case (StartRelease t p)
  assume "choice_allowed P c"
  with StartRelease show ?thesis
    using reachable_client_move [OF start_release [of P t p "shared s"], of s]
    by (cases "clients s t") (auto intro: reachable_start)
next
  case (Advance t k)
  then show ?thesis
    by (auto intro: reachable_advance_client split: prod.splits)
next
  case (AdvanceManager k)
  then show ?thesis
    by (auto intro: reachable_advance_manager split: prod.splits)
next
  case NextScan
  show ?thesis
  proof (cases "manager s")
    case (Ret x)
    then have "sys_step P s (s\<lparr>shared := shared s, manager := next_scan P x\<rparr>)"
      using manager_step [of P s "next_scan P x" "shared s"] scan_next [of P x "shared s"] by simp
    with NextScan Ret show ?thesis by (simp add: reachable_one)
  qed (use NextScan in \<open>auto intro: reachable_start\<close>)
qed

lemma run_schedule_reachable:
  "list_all (choice_allowed P) cs \<Longrightarrow> reachable P s (run_schedule P cs s)"
proof (induction cs arbitrary: s)
  case Nil
  then show ?case by (simp add: run_schedule_def reachable_start)
next
  case (Cons c cs)
  then show ?case
    using reachable_trans [OF _ reachable_make_choice [of P c s]] by (simp add: run_schedule_def)
qed

text \<open>
  A schedule is executed the same way whatever the requests it may start with are; with the
  test \<open>is_critical\<close> its execution can be evaluated.
\<close>

lemma make_choice_cong:
  "region_of P = region_of Q \<Longrightarrow> manager_region P = manager_region Q \<Longrightarrow> next_scan P = next_scan Q \<Longrightarrow>
   make_choice P c s = make_choice Q c s"
  by (cases c) (simp_all split: prog.splits)

lemma run_schedule_cong:
  assumes "region_of P = region_of Q" "manager_region P = manager_region Q" "next_scan P = next_scan Q"
  shows "run_schedule P cs s = run_schedule Q cs s"
proof -
  have "make_choice P = make_choice Q"
    using make_choice_cong [OF assms] by (intro ext)
  then show ?thesis by (simp add: run_schedule_def)
qed

fun is_critical :: "client \<Rightarrow> bool" where
  "is_critical Critical = True"
| "is_critical _ = False"

lemma is_critical_iff: "is_critical c \<longleftrightarrow> c = Critical"
  by (cases c) simp_all

text \<open>
  A tree that runs to a result without interference can be scheduled in one go; so a client
  enters its critical section when its request, a scan and its poll run one after the other.
\<close>

lemma advance_client_by_Suc:
  "advance_client sh c m = (c1, m1) \<Longrightarrow> \<exists>k. advance_client_by k sh c1 m1 = r \<Longrightarrow>
   \<exists>k. advance_client_by k sh c m = r"
  by (elim exE, rule_tac x = "Suc k" in exI) simp

lemma client_acquires_by:
  "run sh A m = Result r m' \<Longrightarrow>
   \<exists>k. advance_client_by k sh (Acquiring (bind A f)) m = (Acquiring (f r), m')"
proof (induction A arbitrary: m)
  case (Ret x)
  then show ?case by (intro exI [of _ 0]) simp
qed (fastforce split: if_splits intro: advance_client_by_Suc [rotated])+

lemma advance_prog_by_Suc:
  "pstep sh q m = (q1, m1) \<Longrightarrow> \<exists>k. advance_prog_by k sh q1 m1 = r \<Longrightarrow>
   \<exists>k. advance_prog_by k sh q m = r"
  by (elim exE, rule_tac x = "Suc k" in exI) simp

lemma prog_runs_by:
  "run sh q m = Result r m' \<Longrightarrow> \<exists>k. advance_prog_by k sh q m = (Ret r, m')"
proof (induction q arbitrary: m)
  case (Ret x)
  then show ?case by (intro exI [of _ 0]) simp
qed (fastforce split: if_splits intro: advance_prog_by_Suc [rotated])+

lemma reachable_acquires:
  assumes "reachable P s0 s" and "clients s t = Acquiring (bind A f)"
    and "run (region_of P t) A (shared s) = Result r m'"
  shows "\<exists>s'. reachable P s0 s' \<and> clients s' = (clients s)(t := Acquiring (f r)) \<and>
              shared s' = m' \<and> manager s' = manager s"
proof -
  obtain k where "advance_client_by k (region_of P t) (clients s t) (shared s) = (Acquiring (f r), m')"
    using client_acquires_by [OF assms(3)] assms(2) by metis
  then have "reachable P s (s\<lparr>shared := m', clients := (clients s)(t := Acquiring (f r))\<rparr>)"
    by (rule reachable_advance_client)
  then show ?thesis using reachable_trans [OF _ assms(1)] by fastforce
qed

lemma reachable_scan:
  assumes "reachable P s0 s" and "manager s = Ret x"
    and "run (manager_region P) (next_scan P x) (shared s) = Result x' m'"
  shows "\<exists>s'. reachable P s0 s' \<and> clients s' = clients s \<and> shared s' = m' \<and> manager s' = Ret x'"
proof -
  let ?s = "s\<lparr>shared := shared s, manager := next_scan P x\<rparr>"
  have "sys_step P s ?s"
    using assms(2) by (intro manager_step) (simp add: scan_next)
  then have 1: "reachable P s0 ?s" by (rule reachable_step [OF assms(1)])
  obtain k where "advance_prog_by k (manager_region P) (manager ?s) (shared ?s) = (Ret x', m')"
    using prog_runs_by [OF assms(3)] by fastforce
  then have "reachable P ?s (?s\<lparr>shared := m', manager := Ret x'\<rparr>)"
    by (rule reachable_advance_manager)
  then show ?thesis using reachable_trans [OF _ 1] by fastforce
qed

lemma reachable_client_step:
  assumes "reachable P s0 s" and "client_move P t (clients s t) (shared s) c' m'"
  shows "\<exists>s'. reachable P s0 s' \<and> clients s' = (clients s)(t := c') \<and> shared s' = m' \<and>
              manager s' = manager s"
  using reachable_step [OF assms(1) client_step [OF assms(2)]] by fastforce

lemma can_enter:
  assumes "acquisition P t (bind A F)" and "run (region_of P t) A m = Result r1 m1"
    and "F r1 = bind B G" and "run (manager_region P) (next_scan P x) m1 = Result x' m2"
    and "run (region_of P t) B m2 = Result r2 m3" and "G r2 = Ret SUCCESS"
  shows "\<exists>s. reachable P (initial_system m x) s \<and> clients s = (\<lambda>_. Idle)(t := Critical) \<and>
             shared s = m3 \<and> manager s = Ret x'"
proof -
  let ?s0 = "initial_system m x :: ('a, 'b) system"
  obtain s1 where s1: "reachable P ?s0 s1" "clients s1 = (\<lambda>_. Idle)(t := Acquiring (bind A F))"
      "shared s1 = m" "manager s1 = Ret x"
    using reachable_client_step [OF reachable_start, of P t ?s0] start_acquire [OF assms(1)]
    by (fastforce simp: initial_system_def)
  then obtain s2 where s2: "reachable P ?s0 s2" "clients s2 = (\<lambda>_. Idle)(t := Acquiring (bind B G))"
      "shared s2 = m1" "manager s2 = Ret x"
    using reachable_acquires [OF s1(1), of t A F r1 m1] assms(2,3) by auto
  then obtain s3 where s3: "reachable P ?s0 s3" "clients s3 = (\<lambda>_. Idle)(t := Acquiring (bind B G))"
      "shared s3 = m2" "manager s3 = Ret x'"
    using reachable_scan [OF s2(1,4)] assms(4) by auto
  then obtain s4 where s4: "reachable P ?s0 s4" "clients s4 = (\<lambda>_. Idle)(t := Acquiring (Ret SUCCESS))"
      "shared s4 = m3" "manager s4 = Ret x'"
    using reachable_acquires [OF s3(1), of t B G r2 m3] assms(5,6) by auto
  then show ?thesis
    using reachable_client_step [OF s4(1), of t Critical m3] acquire_success [of P t m3] by auto
qed

section \<open>Invariants by non-interference\<close>

text \<open>
  The proof rule for the interleaved system. A global invariant of the memory, one of every
  client (in its control state) and one of the manager: each move keeps the global invariant
  and the mover's own, and does not disturb the invariants of the others.
\<close>

locale interleaved_invariant =
  fixes P :: "('t, 'm) protocol"
    and ginv :: "mem \<Rightarrow> bool"
    and cinv :: "'t \<Rightarrow> client \<Rightarrow> mem \<Rightarrow> bool"
    and minv :: "'m prog \<Rightarrow> mem \<Rightarrow> bool"
  assumes client_keeps:
      "client_move P t c m c' m' \<Longrightarrow> ginv m \<Longrightarrow> cinv t c m \<Longrightarrow> ginv m' \<and> cinv t c' m'"
    and client_stable:
      "client_move P t c m c' m' \<Longrightarrow> ginv m \<Longrightarrow> cinv t c m \<Longrightarrow> t' \<noteq> t \<Longrightarrow> cinv t' d m \<Longrightarrow> cinv t' d m'"
    and client_manager_stable:
      "client_move P t c m c' m' \<Longrightarrow> ginv m \<Longrightarrow> cinv t c m \<Longrightarrow> minv q m \<Longrightarrow> minv q m'"
    and manager_keeps:
      "manager_move P q m q' m' \<Longrightarrow> ginv m \<Longrightarrow> minv q m \<Longrightarrow> ginv m' \<and> minv q' m'"
    and manager_client_stable:
      "manager_move P q m q' m' \<Longrightarrow> ginv m \<Longrightarrow> minv q m \<Longrightarrow> cinv t d m \<Longrightarrow> cinv t d m'"
begin

definition all_inv :: "('t, 'm) system \<Rightarrow> bool" where
  "all_inv s \<longleftrightarrow>
     ginv (shared s) \<and> (\<forall>t. cinv t (clients s t) (shared s)) \<and> minv (manager s) (shared s)"

lemma step_all_inv: "sys_step P s s' \<Longrightarrow> all_inv s \<Longrightarrow> all_inv s'"
proof (induction rule: sys_step.induct)
  case (client_step t s c' m')
  then have inv: "ginv (shared s)" "\<And>t. cinv t (clients s t) (shared s)" "minv (manager s) (shared s)"
    by (simp_all add: all_inv_def)
  show ?case
    using client_keeps [OF client_step.hyps inv(1,2)]
      client_stable [OF client_step.hyps inv(1,2) _ inv(2)]
      client_manager_stable [OF client_step.hyps inv(1,2,3)]
    by (simp add: all_inv_def)
next
  case (manager_step s q' m')
  then have inv: "ginv (shared s)" "\<And>t. cinv t (clients s t) (shared s)" "minv (manager s) (shared s)"
    by (simp_all add: all_inv_def)
  show ?case
    using manager_keeps [OF manager_step.hyps inv(1,3)]
      manager_client_stable [OF manager_step.hyps inv(1,3) inv(2)]
    by (simp add: all_inv_def)
qed

lemma reachable_all_inv: "reachable P s0 s \<Longrightarrow> all_inv s0 \<Longrightarrow> all_inv s"
  by (induction rule: reachable.induct) (auto intro: step_all_inv)

lemma reachable_client:
  assumes "reachable P (initial_system m x) s" and "ginv m" and "minv (Ret x) m"
    and "\<And>t. cinv t Idle m"
  shows "ginv (shared s)" and "cinv t (clients s t) (shared s)"
proof -
  have "all_inv (initial_system m x)"
    using assms(2-4) by (simp add: all_inv_def initial_system_def)
  from reachable_all_inv [OF assms(1) this]
  show "ginv (shared s)" and "cinv t (clients s t) (shared s)"
    by (simp_all add: all_inv_def)
qed

end

section \<open>Simulation by a protocol\<close>

text \<open>
  The rule for algorithms whose safety depends on where the other threads are: an abstract state
  \<open>g\<close> that moves along with the system. \<open>R\<close> relates it to the memory, \<open>rc\<close> to the control
  state of each client, \<open>rm\<close> to the manager's.
\<close>

locale interleaved_simulation =
  fixes P :: "('t, 'm) protocol"
    and R :: "'g \<Rightarrow> mem \<Rightarrow> bool"
    and rc :: "'t \<Rightarrow> client \<Rightarrow> 'g \<Rightarrow> bool"
    and rm :: "'m prog \<Rightarrow> 'g \<Rightarrow> bool"
  assumes client_simulated:
      "client_move P t c m c' m' \<Longrightarrow> R g m \<Longrightarrow> rc t c g \<Longrightarrow>
       \<exists>g'. R g' m' \<and> rc t c' g' \<and> (\<forall>t' d. t' \<noteq> t \<longrightarrow> rc t' d g \<longrightarrow> rc t' d g') \<and> (\<forall>q. rm q g \<longrightarrow> rm q g')"
    and manager_simulated:
      "manager_move P q m q' m' \<Longrightarrow> R g m \<Longrightarrow> rm q g \<Longrightarrow>
       \<exists>g'. R g' m' \<and> rm q' g' \<and> (\<forall>t d. rc t d g \<longrightarrow> rc t d g')"
begin

definition simulated :: "'g \<Rightarrow> ('t, 'm) system \<Rightarrow> bool" where
  "simulated g s \<longleftrightarrow> R g (shared s) \<and> (\<forall>t. rc t (clients s t) g) \<and> rm (manager s) g"

lemma step_simulated: "sys_step P s s' \<Longrightarrow> simulated g s \<Longrightarrow> \<exists>g'. simulated g' s'"
proof (induction rule: sys_step.induct)
  case (client_step t s c' m')
  then have "R g (shared s)" "rc t (clients s t) g" by (simp_all add: simulated_def)
  from client_simulated [OF client_step.hyps this]
  obtain g' where "R g' m'" "rc t c' g'" "\<forall>t' d. t' \<noteq> t \<longrightarrow> rc t' d g \<longrightarrow> rc t' d g'" "\<forall>q. rm q g \<longrightarrow> rm q g'"
    by blast
  then have "simulated g' (s\<lparr>shared := m', clients := (clients s)(t := c')\<rparr>)"
    using client_step.prems by (simp add: simulated_def)
  then show ?case ..
next
  case (manager_step s q' m')
  then have "R g (shared s)" "rm (manager s) g" by (simp_all add: simulated_def)
  from manager_simulated [OF manager_step.hyps this]
  obtain g' where "R g' m'" "rm q' g'" "\<forall>t d. rc t d g \<longrightarrow> rc t d g'" by blast
  then have "simulated g' (s\<lparr>shared := m', manager := q'\<rparr>)"
    using manager_step.prems by (simp add: simulated_def)
  then show ?case ..
qed

lemma reachable_simulated: "reachable P s0 s \<Longrightarrow> simulated g s0 \<Longrightarrow> \<exists>g'. simulated g' s"
  by (induction arbitrary: g rule: reachable.induct) (auto dest: step_simulated)

lemma reachable_related:
  assumes "reachable P (initial_system m x) s" and "R g m" and "\<And>t. rc t Idle g" and "rm (Ret x) g"
  shows "\<exists>g'. R g' (shared s) \<and> (\<forall>t. rc t (clients s t) g')"
proof -
  have "simulated g (initial_system m x)"
    using assms(2-4) by (simp add: simulated_def initial_system_def)
  from reachable_simulated [OF assms(1) this] show ?thesis by (auto simp: simulated_def)
qed

end

section \<open>The lock system over an algorithm\<close>

text \<open>
  \<open>lock_protocol\<close> is the system in which the two-tier locks of all nodes and the manager use
  one algorithm.
\<close>

definition lock_protocol ::
  "GlobalLockAlgorithm \<Rightarrow> u32 \<Rightarrow> ShmOffset \<Rightarrow> (NodeId \<times> LockId \<Rightarrow> SharedMemoryRegion) \<Rightarrow>
   SharedMemoryRegion \<Rightarrow> (NodeId \<times> LockId, LockManager) protocol"
where
  "lock_protocol alg nc off reg mreg =
     \<lparr>region_of = reg, manager_region = mreg,
      acquisition = (\<lambda>(n, l) p. n < nc \<and> l < MAX_LOCK_COUNT \<and>
        (\<exists>fuel tt clk timeout. client_lock alg (reg (n, l)) nc off n tt \<and>
           p = tt_global_acquire fuel tt alg clk l timeout)),
      release = (\<lambda>(n, l) p. n < nc \<and> l < MAX_LOCK_COUNT \<and>
        (\<exists>fuel tt. client_lock alg (reg (n, l)) nc off n tt \<and>
           p = tt_global_release fuel tt alg l)),
      next_scan = run_single_scan\<rparr>"

text \<open>The same system with arbitrary requests, for evaluation.\<close>

definition open_protocol ::
  "(NodeId \<times> LockId \<Rightarrow> SharedMemoryRegion) \<Rightarrow> SharedMemoryRegion \<Rightarrow>
   (NodeId \<times> LockId, LockManager) protocol"
where
  "open_protocol reg mreg =
     \<lparr>region_of = reg, manager_region = mreg, acquisition = (\<lambda>_ _. True),
      release = (\<lambda>_ _. True), next_scan = run_single_scan\<rparr>"

lemma run_schedule_open:
  "run_schedule (lock_protocol alg nc off reg mreg) cs s = run_schedule (open_protocol reg mreg) cs s"
  by (rule run_schedule_cong) (simp_all add: lock_protocol_def open_protocol_def)

text \<open>A node that asks for a free lock gets in, for every algorithm that serves.\<close>

lemma can_enter_free_lock:
  fixes P :: "(NodeId \<times> LockId, LockManager) protocol"
  assumes live: "lock_live alg sh off nc locks fuel impl may_request"
    and "impl m s" and "may_request m s n l" and "n < nc" and "l \<in> locks"
    and "holder s l = None" and "waiters s l = {}"
    and "manager_ready alg sh nc off lm" and "l < lm_max_locks lm" and "{l. l < lm_max_locks lm} \<subseteq> locks"
    and tt: "client_lock alg sh nc off n tt" and "0 < fuel"
    and P: "region_of P (n, l) = sh" "manager_region P = sh" "next_scan P = run_single_scan"
    and acq: "acquisition P (n, l) (tt_global_acquire fuel tt alg clk l timeout)"
  shows "\<exists>s'. reachable P (initial_system m lm) s' \<and> clients s' = (\<lambda>_. Idle)((n, l) := Critical)"
proof -
  let ?A = "alg_acquire_lock fuel alg n l (Some sh) off" and ?B = "poll_for_grant fuel tt clk l timeout"
  obtain F G where req: "tt_global_acquire fuel tt alg clk l timeout = bind ?A F"
      and F: "F SUCCESS = bind ?B G" and G: "G SUCCESS = Ret SUCCESS"
    using tt that by (simp add: tt_global_acquire_def client_lock_def)
  obtain m1 lm' m2 where "run sh ?A m = Result SUCCESS m1" "run sh (run_single_scan lm) m1 = Result lm' m2"
      "run sh ?B m2 = Result SUCCESS m2"
    using lock_live.request_served [OF assms(1-12)] by blast
  then show ?thesis
    using can_enter [of P "(n, l)" ?A F m SUCCESS m1 ?B G lm lm' m2 SUCCESS m2] acq req F G P by auto
qed

end
