(* ===== verification/Mcs_Protocol.thy ===== *)
theory Mcs_Protocol
  imports Mcs_Lock
begin

text \<open>
  The MCS algorithm as a protocol between nodes and the lock manager: where each of them is
  between two accesses to shared memory, and what each access does to the queue of a lock. The
  steps are those of \<open>mcs_acquire_lock\<close>, the poll, \<open>mcs_release_lock\<close>, \<open>mcs_check_grant\<close> and
  \<open>mcs_grant_lock\<close>; \<open>Mcs_Mutex\<close> shows that the code takes no others. Every node uses one lock,
  \<open>lk n\<close>, and does not give up a request. The invariant says who may enter at each moment;
  mutual exclusion follows.
\<close>

section \<open>Control points\<close>

text \<open>
  \<open>Prep a b\<close>: outside the queue; \<open>a\<close> and \<open>b\<close> are what the node knows of its own record, that
  \<open>next_node\<close> is invalid and that \<open>locked\<close> is 1. \<open>New_Head\<close>, \<open>Link p\<close>: after the swap of the tail,
  with old value invalid or \<open>p\<close>. \<open>Check_Owner\<close> to \<open>Await_Next\<close>: in \<open>release_lock\<close>, before the choice
  between the two ways out; \<open>Clear_Head\<close>, \<open>Clear_Owner\<close>: the queue was empty; \<open>Pass_Head s\<close>,
  \<open>Pass_Owner s\<close>, \<open>Pass_Grant s\<close>: passing the lock to \<open>s\<close>.
\<close>

datatype point =
    Prep bool bool
  | New_Head
  | Link NodeId
  | Waiting
  | Holding
  | Check_Owner
  | Check_Next
  | Close_Tail
  | Await_Next
  | Clear_Head
  | Clear_Owner
  | Pass_Head NodeId
  | Pass_Owner NodeId
  | Pass_Grant NodeId

text \<open>The manager: what it knows of the lock it looks at, and the grant it is writing.\<close>

datatype scan_point =
    Scanning
  | Saw_Free LockId
  | Saw_Head LockId NodeId
  | Granted LockId NodeId

text \<open>
  Who may enter. \<open>Granting h\<close>: the manager has let \<open>h\<close> in and not yet recorded it as the owner.
  \<open>Dead h\<close>: \<open>h\<close> has released in that gap and was refused; nobody ever enters again.
\<close>

datatype token =
    Free
  | Granting NodeId
  | Owned NodeId
  | Closing NodeId
  | Passing NodeId NodeId
  | Dead NodeId

record protocol_state =
  tail_of :: "LockId \<Rightarrow> NodeId"
  head_of :: "LockId \<Rightarrow> NodeId"
  owner_of :: "LockId \<Rightarrow> NodeId"
  next_of :: "NodeId \<Rightarrow> NodeId"
  locked_of :: "NodeId \<Rightarrow> u32"
  point_of :: "NodeId \<Rightarrow> point"
  scan_of :: scan_point
  token_of :: "LockId \<Rightarrow> token"
  queue_of :: "LockId \<Rightarrow> NodeId list"

section \<open>Steps\<close>

abbreviation (input) "go n p s \<equiv> s\<lparr>point_of := (point_of s)(n := p)\<rparr>"

inductive node_step :: "(NodeId \<Rightarrow> LockId) \<Rightarrow> NodeId \<Rightarrow> protocol_state \<Rightarrow> protocol_state \<Rightarrow> bool"
  for lk :: "NodeId \<Rightarrow> LockId" and n :: NodeId
where
  own_next: "point_of s n = Prep a b \<Longrightarrow>
     node_step lk n s (go n (Prep (v = INVALID_NODE_ID) b) (s\<lparr>next_of := (next_of s)(n := v)\<rparr>))"
| own_locked: "point_of s n = Prep a b \<Longrightarrow>
     node_step lk n s (go n (Prep a (v = 1)) (s\<lparr>locked_of := (locked_of s)(n := v)\<rparr>))"
| swap_first: "point_of s n = Prep True True \<Longrightarrow> tail_of s (lk n) = INVALID_NODE_ID \<Longrightarrow>
     node_step lk n s (go n New_Head (s\<lparr>tail_of := (tail_of s)(lk n := n),
       queue_of := (queue_of s)(lk n := queue_of s (lk n) @ [n])\<rparr>))"
| swap_behind: "point_of s n = Prep True True \<Longrightarrow> tail_of s (lk n) = p \<Longrightarrow> p \<noteq> INVALID_NODE_ID \<Longrightarrow>
     node_step lk n s (go n (Link p) (s\<lparr>tail_of := (tail_of s)(lk n := n),
       queue_of := (queue_of s)(lk n := queue_of s (lk n) @ [n])\<rparr>))"
| swap_own: "point_of s n = Prep True True \<Longrightarrow> tail_of s (lk n) = n \<Longrightarrow> node_step lk n s (go n (Link n) s)"
| set_head: "point_of s n = New_Head \<Longrightarrow>
     node_step lk n s (go n Waiting (s\<lparr>head_of := (head_of s)(lk n := n)\<rparr>))"
| set_link: "point_of s n = Link p \<Longrightarrow>
     node_step lk n s (go n Waiting (s\<lparr>next_of := (next_of s)(p := n)\<rparr>))"
| see_grant: "point_of s n = Waiting \<Longrightarrow> locked_of s n \<noteq> 1 \<Longrightarrow> node_step lk n s (go n Holding s)"
| begin_release: "point_of s n = Holding \<Longrightarrow> node_step lk n s (go n Check_Owner s)"
| is_owner: "point_of s n = Check_Owner \<Longrightarrow> owner_of s (lk n) = n \<Longrightarrow> node_step lk n s (go n Check_Next s)"
| refused: "point_of s n = Check_Owner \<Longrightarrow> owner_of s (lk n) \<noteq> n \<Longrightarrow>
     node_step lk n s (go n (Prep False False) (s\<lparr>token_of := (token_of s)(lk n := Dead n)\<rparr>))"
| no_next: "point_of s n = Check_Next \<Longrightarrow> next_of s n = INVALID_NODE_ID \<Longrightarrow> node_step lk n s (go n Close_Tail s)"
| some_next: "point_of s n = Check_Next \<or> point_of s n = Await_Next \<Longrightarrow> next_of s n = x \<Longrightarrow> x \<noteq> INVALID_NODE_ID \<Longrightarrow>
     node_step lk n s (go n (Pass_Head x) (s\<lparr>token_of := (token_of s)(lk n := Passing n x),
       queue_of := (queue_of s)(lk n := tl (queue_of s (lk n)))\<rparr>))"
| close_tail: "point_of s n = Close_Tail \<Longrightarrow> tail_of s (lk n) = n \<Longrightarrow>
     node_step lk n s (go n Clear_Head (s\<lparr>tail_of := (tail_of s)(lk n := INVALID_NODE_ID),
       token_of := (token_of s)(lk n := Closing n), queue_of := (queue_of s)(lk n := [])\<rparr>))"
| not_last: "point_of s n = Close_Tail \<Longrightarrow> tail_of s (lk n) \<noteq> n \<Longrightarrow> node_step lk n s (go n Await_Next s)"
| clear_head: "point_of s n = Clear_Head \<Longrightarrow>
     node_step lk n s (go n Clear_Owner (s\<lparr>head_of := (head_of s)(lk n := INVALID_NODE_ID)\<rparr>))"
| clear_owner: "point_of s n = Clear_Owner \<Longrightarrow>
     node_step lk n s (go n (Prep False False) (s\<lparr>owner_of := (owner_of s)(lk n := INVALID_NODE_ID),
       token_of := (token_of s)(lk n := Free)\<rparr>))"
| pass_head: "point_of s n = Pass_Head x \<Longrightarrow>
     node_step lk n s (go n (Pass_Owner x) (s\<lparr>head_of := (head_of s)(lk n := x)\<rparr>))"
| pass_owner: "point_of s n = Pass_Owner x \<Longrightarrow>
     node_step lk n s (go n (Pass_Grant x) (s\<lparr>owner_of := (owner_of s)(lk n := x)\<rparr>))"
| pass_grant: "point_of s n = Pass_Grant x \<Longrightarrow>
     node_step lk n s (go n (Prep False False) (s\<lparr>locked_of := (locked_of s)(x := 0),
       token_of := (token_of s)(lk n := Owned x)\<rparr>))"

inductive scan_step :: "protocol_state \<Rightarrow> protocol_state \<Rightarrow> bool" where
  saw_free: "\<forall>l h. scan_of s \<noteq> Granted l h \<Longrightarrow> owner_of s l = INVALID_NODE_ID \<Longrightarrow> l < MAX_LOCK_COUNT \<Longrightarrow>
     scan_step s (s\<lparr>scan_of := Saw_Free l\<rparr>)"
| saw_head: "scan_of s = Saw_Free l \<Longrightarrow> head_of s l = h \<Longrightarrow> h \<noteq> INVALID_NODE_ID \<Longrightarrow>
     scan_step s (s\<lparr>scan_of := Saw_Head l h\<rparr>)"
| scan_on: "\<forall>l h. scan_of s \<noteq> Granted l h \<Longrightarrow> scan_step s (s\<lparr>scan_of := Scanning\<rparr>)"
| write_grant: "scan_of s = Saw_Head l h \<Longrightarrow>
     scan_step s (s\<lparr>locked_of := (locked_of s)(h := 2), scan_of := Granted l h,
       token_of := (token_of s)(l := Granting h)\<rparr>)"
| record_owner: "scan_of s = Granted l h \<Longrightarrow>
     scan_step s (s\<lparr>owner_of := (owner_of s)(l := h), scan_of := Scanning,
       token_of := (token_of s)(l := if token_of s l = Granting h then Owned h else token_of s l)\<rparr>)"

section \<open>The queue of a lock\<close>

text \<open>
  Behind its first member every member waits: it has linked itself to the one before, or is
  about to.
\<close>

fun queued :: "(NodeId \<Rightarrow> point) \<Rightarrow> (NodeId \<Rightarrow> NodeId) \<Rightarrow> (NodeId \<Rightarrow> u32) \<Rightarrow> NodeId list \<Rightarrow> bool" where
  "queued pt nx lo [] = True"
| "queued pt nx lo [x] = (nx x = INVALID_NODE_ID)"
| "queued pt nx lo (x # y # ys) =
     (lo y = 1 \<and> (pt y = Link x \<and> nx x = INVALID_NODE_ID \<or> pt y = Waiting \<and> nx x = y) \<and>
      queued pt nx lo (y # ys))"

lemma queued_cong:
  "(\<And>x. x \<in> set (tl q) \<Longrightarrow> pt' x = pt x \<and> lo' x = lo x) \<Longrightarrow> (\<And>x. x \<in> set q \<Longrightarrow> nx' x = nx x) \<Longrightarrow>
   queued pt' nx' lo' q \<longleftrightarrow> queued pt nx lo q"
  by (induction pt nx lo q rule: queued.induct) auto

lemma queued_same:
  assumes "\<And>x. x \<in> set q \<Longrightarrow> pt' x = pt x \<and> lo' x = lo x \<and> nx' x = nx x"
  shows "queued pt' nx' lo' q \<longleftrightarrow> queued pt nx lo q"
  using assms by (intro queued_cong) (cases q; simp)+

lemma queued_behind:
  "queued pt nx lo q \<Longrightarrow> x \<in> set (tl q) \<Longrightarrow> lo x = 1 \<and> (pt x = Waiting \<or> (\<exists>p \<in> set q. pt x = Link p))"
proof (induction pt nx lo q rule: queued.induct)
  case (3 pt nx lo x y ys)
  then show ?case by (cases ys) auto
qed auto

lemma queued_last: "queued pt nx lo q \<Longrightarrow> q \<noteq> [] \<Longrightarrow> nx (last q) = INVALID_NODE_ID"
  by (induction pt nx lo q rule: queued.induct) auto

lemma queued_tl: "queued pt nx lo q \<Longrightarrow> queued pt nx lo (tl q)"
  by (cases "(pt, nx, lo, q)" rule: queued.cases) auto

lemma queued_snoc:
  assumes "queued pt nx lo q" and "q \<noteq> []" and "n \<notin> set q" and "nx n = INVALID_NODE_ID" and "lo n = 1"
  shows "queued (pt(n := Link (last q))) nx lo (q @ [n])"
  using assms by (induction pt nx lo q rule: queued.induct) auto

lemma queued_link:
  assumes "queued pt nx lo q" and "distinct q" and "pt n = Link p" and "n \<in> set (tl q)"
    and "pt' n = Waiting" and "nx' p = n" and "\<And>x. x \<noteq> n \<Longrightarrow> pt' x = pt x" and "\<And>x. x \<noteq> p \<Longrightarrow> nx' x = nx x"
  shows "queued pt' nx' lo q \<and> p \<in> set q"
  using assms(1,2,4)
proof (induction q)
  case (Cons x q)
  show ?case
  proof (cases q)
    case (Cons y ys)
    note prems = Cons.prems [unfolded Cons]
    show ?thesis
    proof (cases "n = y")
      case True
      then have p: "p = x" "x \<noteq> y" using prems assms(3) by auto
      have "pt' z = pt z \<and> nx' z = nx z" if "z \<in> set ys" for z
      proof -
        have "z \<noteq> n" "z \<noteq> p" using that p True prems(2) by auto
        then show ?thesis using assms(7,8) by simp
      qed
      then have "queued pt' nx' lo (y # ys) \<longleftrightarrow> queued pt nx lo (y # ys)"
        using p True assms(8) by (intro queued_cong) auto
      then show ?thesis using True prems assms(3,5-) Cons by auto
    next
      case False
      then have q: "queued pt' nx' lo (y # ys) \<and> p \<in> set (y # ys)"
        using prems Cons.IH Cons by auto
      then have "x \<noteq> p" "y \<noteq> n" using prems(2) False by auto
      then have "pt' y = pt y" "nx' x = nx x" using assms(7,8) by simp_all
      then show ?thesis using q prems Cons by auto
    qed
  qed (use Cons in auto)
qed auto

lemma queued_next:
  assumes "queued pt nx lo (n # q)" and "nx n \<noteq> INVALID_NODE_ID"
  shows "\<exists>q'. q = nx n # q' \<and> pt (nx n) = Waiting \<and> lo (nx n) = 1"
  using assms by (cases q) auto

section \<open>The invariant\<close>

text \<open>Where a node that is not in the queue can be.\<close>

fun outside :: "token \<Rightarrow> NodeId \<Rightarrow> point \<Rightarrow> bool" where
  "outside t x (Prep a b) = True"
| "outside t x Clear_Head = (t = Closing x)"
| "outside t x Clear_Owner = (t = Closing x)"
| "outside t x (Pass_Head y) = (t = Passing x y)"
| "outside t x (Pass_Owner y) = (t = Passing x y)"
| "outside t x (Pass_Grant y) = (t = Passing x y)"
| "outside t x p = False"

definition fresh_first :: "(NodeId \<Rightarrow> point) \<Rightarrow> (NodeId \<Rightarrow> u32) \<Rightarrow> NodeId list \<Rightarrow> bool" where
  "fresh_first pt lo q \<longleftrightarrow> (q \<noteq> [] \<longrightarrow> (pt (hd q) = New_Head \<or> pt (hd q) = Waiting) \<and> lo (hd q) = 1)"

definition head_right :: "NodeId \<Rightarrow> (NodeId \<Rightarrow> point) \<Rightarrow> NodeId list \<Rightarrow> bool" where
  "head_right h pt q \<longleftrightarrow> h = INVALID_NODE_ID \<or> q \<noteq> [] \<and> h = hd q \<and> pt h = Waiting"

fun token_inv ::
  "scan_point \<Rightarrow> LockId \<Rightarrow> NodeId \<Rightarrow> NodeId \<Rightarrow> (NodeId \<Rightarrow> point) \<Rightarrow> (NodeId \<Rightarrow> u32) \<Rightarrow> NodeId list \<Rightarrow> token \<Rightarrow> bool"
where
  "token_inv sc l h ow pt lo q Free \<longleftrightarrow>
     ow = INVALID_NODE_ID \<and> fresh_first pt lo q \<and> head_right h pt q"
| "token_inv sc l h ow pt lo q (Granting n) \<longleftrightarrow>
     ow = INVALID_NODE_ID \<and> q \<noteq> [] \<and> hd q = n \<and> pt n \<in> {Waiting, Holding, Check_Owner} \<and> sc = Granted l n"
| "token_inv sc l h ow pt lo q (Owned n) \<longleftrightarrow>
     ow = n \<and> q \<noteq> [] \<and> hd q = n \<and>
     pt n \<in> {Waiting, Holding, Check_Owner, Check_Next, Close_Tail, Await_Next}"
| "token_inv sc l h ow pt lo q (Closing n) \<longleftrightarrow>
     ow = n \<and> n \<notin> set q \<and> fresh_first pt lo q \<and>
     (pt n = Clear_Head \<or> pt n = Clear_Owner \<and> head_right h pt q)"
| "token_inv sc l h ow pt lo q (Passing n x) \<longleftrightarrow>
     n \<notin> set q \<and> q \<noteq> [] \<and> hd q = x \<and> pt x = Waiting \<and> lo x = 1 \<and>
     (pt n = Pass_Head x \<and> ow = n \<or> pt n = Pass_Owner x \<and> ow = n \<or> pt n = Pass_Grant x \<and> ow = x)"
| "token_inv sc l h ow pt lo q (Dead n) \<longleftrightarrow> False"

fun leaver_here :: "u32 \<Rightarrow> (NodeId \<Rightarrow> LockId) \<Rightarrow> LockId \<Rightarrow> token \<Rightarrow> bool" where
  "leaver_here nc lk l (Closing n) = (n < nc \<and> lk n = l)"
| "leaver_here nc lk l (Passing n x) = (n < nc \<and> lk n = l)"
| "leaver_here nc lk l k = True"

definition live_inv ::
  "u32 \<Rightarrow> (NodeId \<Rightarrow> LockId) \<Rightarrow> LockId \<Rightarrow> NodeId \<Rightarrow> (NodeId \<Rightarrow> point) \<Rightarrow> (NodeId \<Rightarrow> NodeId) \<Rightarrow> (NodeId \<Rightarrow> u32) \<Rightarrow>
   NodeId list \<Rightarrow> token \<Rightarrow> bool"
where
  "live_inv nc lk l t pt nx lo q k \<longleftrightarrow>
     distinct q \<and> queued pt nx lo q \<and> t = (if q = [] then INVALID_NODE_ID else last q) \<and>
     (\<forall>x \<in> set q. x < nc \<and> lk x = l) \<and>
     (\<forall>x < nc. lk x = l \<longrightarrow> x \<notin> set q \<longrightarrow> outside k x (pt x)) \<and>
     (\<forall>x < nc. lk x = l \<longrightarrow> (\<forall>a b. pt x = Prep a b \<longrightarrow> (a \<longrightarrow> nx x = INVALID_NODE_ID) \<and> (b \<longrightarrow> lo x = 1))) \<and>
     leaver_here nc lk l k"

text \<open>A lock that nobody can enter any more.\<close>

fun shut_out :: "u32 \<Rightarrow> (NodeId \<Rightarrow> LockId) \<Rightarrow> LockId \<Rightarrow> u32 \<Rightarrow> point \<Rightarrow> bool" where
  "shut_out nc lk l v (Prep a b) = (b \<longrightarrow> v = 1)"
| "shut_out nc lk l v New_Head = (v = 1)"
| "shut_out nc lk l v (Link p) = (v = 1 \<and> p < nc \<and> lk p = l)"
| "shut_out nc lk l v Waiting = (v = 1)"
| "shut_out nc lk l v p = False"

definition dead_inv ::
  "u32 \<Rightarrow> (NodeId \<Rightarrow> LockId) \<Rightarrow> scan_point \<Rightarrow> LockId \<Rightarrow> NodeId \<Rightarrow> NodeId \<Rightarrow> (NodeId \<Rightarrow> point) \<Rightarrow> (NodeId \<Rightarrow> u32) \<Rightarrow>
   NodeId \<Rightarrow> bool"
where
  "dead_inv nc lk sc l t ow pt lo n \<longleftrightarrow>
     n < nc \<and> (ow = n \<or> sc = Granted l n) \<and> (t = INVALID_NODE_ID \<or> t < nc \<and> lk t = l) \<and>
     (\<forall>x < nc. lk x = l \<longrightarrow> shut_out nc lk l (lo x) (pt x))"

definition lock_inv :: "u32 \<Rightarrow> (NodeId \<Rightarrow> LockId) \<Rightarrow> protocol_state \<Rightarrow> LockId \<Rightarrow> bool" where
  "lock_inv nc lk s l \<longleftrightarrow>
     (\<exists>n. token_of s l = Dead n \<and>
        dead_inv nc lk (scan_of s) l (tail_of s l) (owner_of s l) (point_of s) (locked_of s) n) \<or>
     live_inv nc lk l (tail_of s l) (point_of s) (next_of s) (locked_of s) (queue_of s l) (token_of s l) \<and>
     token_inv (scan_of s) l (head_of s l) (owner_of s l) (point_of s) (locked_of s) (queue_of s l) (token_of s l)"

fun scan_inv :: "protocol_state \<Rightarrow> scan_point \<Rightarrow> bool" where
  "scan_inv s Scanning = True"
| "scan_inv s (Saw_Free l) = (l < MAX_LOCK_COUNT \<and> token_of s l = Free)"
| "scan_inv s (Saw_Head l h) =
     (l < MAX_LOCK_COUNT \<and> token_of s l = Free \<and> queue_of s l \<noteq> [] \<and> hd (queue_of s l) = h \<and> point_of s h = Waiting)"
| "scan_inv s (Granted l h) = (l < MAX_LOCK_COUNT \<and> (token_of s l = Granting h \<or> token_of s l = Dead h))"

definition protocol_inv :: "u32 \<Rightarrow> (NodeId \<Rightarrow> LockId) \<Rightarrow> protocol_state \<Rightarrow> bool" where
  "protocol_inv nc lk s \<longleftrightarrow> (\<forall>l < MAX_LOCK_COUNT. lock_inv nc lk s l) \<and> scan_inv s (scan_of s)"

section \<open>Other locks\<close>

lemma live_inv_frame:
  assumes "live_inv nc lk l t pt nx lo q k"
    and "\<And>x. lk x = l \<Longrightarrow> pt' x = pt x \<and> nx' x = nx x \<and> lo' x = lo x"
  shows "live_inv nc lk l t pt' nx' lo' q k"
proof -
  have q: "lk x = l" if "x \<in> set q" for x using assms(1) that by (simp add: live_inv_def)
  have "queued pt' nx' lo' q \<longleftrightarrow> queued pt nx lo q"
    using assms(2) q by (intro queued_cong) (metis list.sel(2) list.set_sel(2))+
  then show ?thesis using assms by (simp add: live_inv_def)
qed

lemma token_inv_frame:
  assumes "token_inv sc l h ow pt lo q k" and "\<forall>x \<in> set q. lk x = l"
    and eq: "\<And>x. lk x = l \<Longrightarrow> pt' x = pt x" "\<And>x. lk x = l \<Longrightarrow> lo' x = lo x"
    and "\<And>n. k = Closing n \<Longrightarrow> lk n = l" and "\<And>n x. k = Passing n x \<Longrightarrow> lk n = l"
    and "\<And>n. sc = Granted l n \<Longrightarrow> sc' = Granted l n"
  shows "token_inv sc' l h ow pt' lo' q k"
proof -
  have hd: "pt' (hd q) = pt (hd q)" "lo' (hd q) = lo (hd q)" if "q \<noteq> []"
    using assms(2) that eq by simp_all
  have "fresh_first pt' lo' q = fresh_first pt lo q" "head_right h pt' q = head_right h pt q"
    using hd by (auto simp: fresh_first_def head_right_def)
  then show ?thesis
    using assms(1) hd assms(5-7) eq by (cases k) auto
qed

lemma lock_inv_frame:
  assumes "lock_inv nc lk s l"
    and "tail_of s' l = tail_of s l" "head_of s' l = head_of s l" "owner_of s' l = owner_of s l"
    and "token_of s' l = token_of s l" "queue_of s' l = queue_of s l"
    and eq: "\<And>x. lk x = l \<Longrightarrow> point_of s' x = point_of s x \<and> next_of s' x = next_of s x \<and> locked_of s' x = locked_of s x"
    and sc: "\<And>n. scan_of s = Granted l n \<Longrightarrow> scan_of s' = Granted l n"
    and "\<And>n. token_of s l = Closing n \<Longrightarrow> lk n = l" and "\<And>n x. token_of s l = Passing n x \<Longrightarrow> lk n = l"
  shows "lock_inv nc lk s' l"
proof -
  consider (dead) n where "token_of s l = Dead n"
      "dead_inv nc lk (scan_of s) l (tail_of s l) (owner_of s l) (point_of s) (locked_of s) n"
    | (live) "live_inv nc lk l (tail_of s l) (point_of s) (next_of s) (locked_of s) (queue_of s l) (token_of s l)"
      "token_inv (scan_of s) l (head_of s l) (owner_of s l) (point_of s) (locked_of s) (queue_of s l) (token_of s l)"
    using assms(1) by (auto simp: lock_inv_def)
  then show ?thesis
  proof cases
    case dead
    have "dead_inv nc lk (scan_of s') l (tail_of s' l) (owner_of s' l) (point_of s') (locked_of s') n"
      using dead(2) eq sc assms(2-4) unfolding dead_inv_def by metis
    then show ?thesis using dead(1) assms(5) by (simp add: lock_inv_def)
  next
    case live
    have q: "\<forall>x \<in> set (queue_of s l). lk x = l" using live(1) by (simp add: live_inv_def)
    have "token_inv (scan_of s') l (head_of s l) (owner_of s l) (point_of s') (locked_of s') (queue_of s l) (token_of s l)"
      by (rule token_inv_frame [OF live(2) q]) (use eq sc assms(9,10) in auto)
    then show ?thesis
      using live_inv_frame [OF live(1) eq] assms(2-6) by (simp add: lock_inv_def)
  qed
qed

text \<open>What the invariant of a lock says of one of its nodes.\<close>

lemma live_member:
  assumes "live_inv nc lk l t pt nx lo q k" and "x \<in> set q" and "x \<noteq> hd q"
  shows "lo x = 1 \<and> (pt x = Waiting \<or> (\<exists>p \<in> set q. pt x = Link p))"
proof -
  have "x \<in> set (tl q)" using assms(2,3) by (cases q) auto
  then show ?thesis using assms(1) by (auto simp: live_inv_def dest: queued_behind)
qed

lemma live_inv_set_point:
  assumes "live_inv nc lk l t pt nx lo q k" and "n < nc" and "lk n = l"
    and "n \<in> set q \<Longrightarrow> n = hd q" and "n \<notin> set q \<Longrightarrow> outside k' n p"
    and "\<And>a b. p = Prep a b \<Longrightarrow> (a \<longrightarrow> nx n = INVALID_NODE_ID) \<and> (b \<longrightarrow> lo n = 1)"
    and "\<And>x. x < nc \<Longrightarrow> lk x = l \<Longrightarrow> x \<noteq> n \<Longrightarrow> x \<notin> set q \<Longrightarrow> outside k x (pt x) \<Longrightarrow> outside k' x (pt x)"
    and "leaver_here nc lk l k \<Longrightarrow> leaver_here nc lk l k'"
  shows "live_inv nc lk l t (pt(n := p)) nx lo q k'"
proof -
  have "n \<notin> set (tl q)"
    using assms(1,4) by (cases q) (auto simp: live_inv_def)
  then have "queued (pt(n := p)) nx lo q \<longleftrightarrow> queued pt nx lo q"
    by (intro queued_cong) auto
  moreover have "outside k' x ((pt(n := p)) x)" if "x < nc" "lk x = l" "x \<notin> set q" for x
  proof (cases "x = n")
    case False
    have "outside k x (pt x)" using assms(1) that by (simp add: live_inv_def)
    then show ?thesis using assms(7) that False by simp
  qed (use assms(5) that in simp)
  moreover have "leaver_here nc lk l k'" using assms(1,8) by (simp add: live_inv_def)
  moreover have "(a \<longrightarrow> nx x = INVALID_NODE_ID) \<and> (b \<longrightarrow> lo x = 1)"
    if "x < nc" "lk x = l" "(pt(n := p)) x = Prep a b" for x a b
    using assms(1,6) that by (cases "x = n") (simp_all add: live_inv_def)
  ultimately show ?thesis
    using assms(1) by (simp add: live_inv_def)
qed

section \<open>Steps of a node\<close>

lemma dead_node_step:
  assumes "node_step lk n s s'" and "n < nc" and "token_of s (lk n) = Dead d"
    and "dead_inv nc lk (scan_of s) (lk n) (tail_of s (lk n)) (owner_of s (lk n)) (point_of s) (locked_of s) d"
  shows "lock_inv nc lk s' (lk n)"
proof -
  have shut: "shut_out nc lk (lk n) (locked_of s n) (point_of s n)"
    and others: "\<And>x. x < nc \<Longrightarrow> lk x = lk n \<Longrightarrow> shut_out nc lk (lk n) (locked_of s x) (point_of s x)"
    and d: "d < nc" "owner_of s (lk n) = d \<or> scan_of s = Granted (lk n) d"
      "tail_of s (lk n) = INVALID_NODE_ID \<or> tail_of s (lk n) < nc \<and> lk (tail_of s (lk n)) = lk n"
    using assms(2,4) by (simp_all add: dead_inv_def)
  have "token_of s' (lk n) = Dead d \<and>
    dead_inv nc lk (scan_of s') (lk n) (tail_of s' (lk n)) (owner_of s' (lk n)) (point_of s') (locked_of s') d"
    using assms(1)
  proof cases
    case (some_next x)
    then show ?thesis using shut by auto
  qed (use shut others d assms(2,3) in \<open>auto simp: dead_inv_def\<close>)
  then show ?thesis unfolding lock_inv_def by blast
qed

text \<open>A lock that is not dead.\<close>

abbreviation (input) "live nc lk l s \<equiv>
  live_inv nc lk l (tail_of s l) (point_of s) (next_of s) (locked_of s) (queue_of s l) (token_of s l) \<and>
  token_inv (scan_of s) l (head_of s l) (owner_of s l) (point_of s) (locked_of s) (queue_of s l) (token_of s l)"

fun in_queue :: "point \<Rightarrow> bool" where
  "in_queue New_Head = True"
| "in_queue (Link p) = True"
| "in_queue Waiting = True"
| "in_queue Holding = True"
| "in_queue Check_Owner = True"
| "in_queue Check_Next = True"
| "in_queue Close_Tail = True"
| "in_queue Await_Next = True"
| "in_queue p = False"

fun releasing :: "point \<Rightarrow> bool" where
  "releasing Holding = True"
| "releasing Check_Owner = True"
| "releasing Check_Next = True"
| "releasing Close_Tail = True"
| "releasing Await_Next = True"
| "releasing p = False"

lemma first_point:
  assumes "token_inv sc l h ow pt lo q k" and "q \<noteq> []"
  shows "in_queue (pt (hd q))"
    and "releasing (pt (hd q)) \<Longrightarrow> k = Owned (hd q) \<or> k = Granting (hd q) \<and> pt (hd q) \<in> {Holding, Check_Owner}"
  using assms by (cases k; auto simp: fresh_first_def)+

lemma live_in_queue:
  assumes "live nc lk l s" and "n \<in> set (queue_of s l)"
  shows "in_queue (point_of s n)"
proof (cases "hd (queue_of s l) = n")
  case True
  have "queue_of s l \<noteq> []" using assms(2) by auto
  then show ?thesis using first_point(1) assms(1) True by blast
next
  case False
  then show ?thesis using live_member [OF conjunct1 [OF assms(1)] assms(2)] by auto
qed

lemma live_outside:
  assumes "live nc lk l s" and "n < nc" and "lk n = l" and "\<not> in_queue (point_of s n)"
  shows "n \<notin> set (queue_of s l) \<and> outside (token_of s l) n (point_of s n)"
  using assms live_in_queue [OF assms(1)] by (auto simp: live_inv_def)

lemma live_releaser:
  assumes "live nc lk l s" and "n < nc" and "lk n = l" and "releasing (point_of s n)"
  shows "n \<in> set (queue_of s l) \<and> hd (queue_of s l) = n \<and>
    (token_of s l = Owned n \<or> token_of s l = Granting n \<and> point_of s n \<in> {Holding, Check_Owner})"
proof -
  have n: "n \<in> set (queue_of s l)"
  proof (rule ccontr)
    assume "n \<notin> set (queue_of s l)"
    then have "outside (token_of s l) n (point_of s n)"
      using assms(1-3) by (simp add: live_inv_def)
    then show False using assms(4) by (cases "point_of s n") auto
  qed
  then have hd: "hd (queue_of s l) = n"
    using live_member [OF conjunct1 [OF assms(1)] n] assms(4) by fastforce
  have "queue_of s l \<noteq> []" using n by auto
  then show ?thesis
    using first_point(2) [OF conjunct2 [OF assms(1)]] assms(4) n hd by simp
qed

text \<open>Outside the queue a node may change its own record.\<close>

lemma live_own_record:
  assumes "live nc lk l s" and "point_of s n = Prep a b" and "n < nc" and "lk n = l"
    and "s' = s\<lparr>next_of := (next_of s)(n := v), locked_of := (locked_of s)(n := w), point_of := (point_of s)(n := Prep a' b')\<rparr>"
    and "a' \<longrightarrow> v = INVALID_NODE_ID" and "b' \<longrightarrow> w = 1"
  shows "live nc lk l s'"
proof -
  let ?q = "queue_of s l"
  have n: "n \<notin> set ?q" using live_in_queue [OF assms(1), of n] assms(2) by auto
  have h: "?q \<noteq> [] \<Longrightarrow> hd ?q \<noteq> n" using n by auto
  have "queued (point_of s') (next_of s') (locked_of s') ?q \<longleftrightarrow>
      queued (point_of s) (next_of s) (locked_of s) ?q"
    using n assms(5) by (intro queued_same) auto
  moreover have "live_inv nc lk l (tail_of s l) (point_of s) (next_of s) (locked_of s) ?q (token_of s l)"
    using assms(1) by blast
  ultimately have 1: "live_inv nc lk l (tail_of s l) (point_of s') (next_of s') (locked_of s') ?q (token_of s l)"
    using n assms(3-7) by (auto simp: live_inv_def)
  have "token_inv (scan_of s) l (head_of s l) (owner_of s l) (point_of s) (locked_of s) ?q (token_of s l)"
    using assms(1) by blast
  then have "token_inv (scan_of s) l (head_of s l) (owner_of s l) (point_of s') (locked_of s') ?q (token_of s l)"
    using h assms(2,5) by (cases "token_of s l") (auto simp: fresh_first_def head_right_def)
  with 1 show ?thesis using assms(5) by simp
qed

text \<open>The first member may move on, as far as the token allows.\<close>

lemma live_first_moves:
  assumes "live nc lk l s" and "n \<in> set (queue_of s l)" and "hd (queue_of s l) = n"
    and "\<forall>a b. p \<noteq> Prep a b"
    and "s' = s\<lparr>point_of := (point_of s)(n := p)\<rparr>"
    and "token_inv (scan_of s) l (head_of s l) (owner_of s l) (point_of s') (locked_of s) (queue_of s l) (token_of s l)"
  shows "live nc lk l s'"
proof -
  have "n < nc" "lk n = l" using assms(1,2) by (auto simp: live_inv_def)
  then have "live_inv nc lk l (tail_of s l) ((point_of s)(n := p)) (next_of s) (locked_of s) (queue_of s l) (token_of s l)"
    using assms(1-4) by (intro live_inv_set_point [where k = "token_of s l"]) auto
  then show ?thesis using assms(5,6) by simp
qed

text \<open>A request: the tail is swapped, then the node is linked.\<close>

lemma live_empty:
  assumes "live nc lk l s" and "nc \<le> MAX_NODE_COUNT"
  shows "tail_of s l = INVALID_NODE_ID \<longleftrightarrow> queue_of s l = []"
    and "queue_of s l \<noteq> [] \<Longrightarrow> tail_of s l = last (queue_of s l)"
proof -
  show t: "queue_of s l \<noteq> [] \<Longrightarrow> tail_of s l = last (queue_of s l)"
    using assms(1) by (simp add: live_inv_def)
  have "last (queue_of s l) \<noteq> INVALID_NODE_ID" if "queue_of s l \<noteq> []"
  proof -
    have "last (queue_of s l) < nc"
      using assms(1) that last_in_set by (auto simp: live_inv_def)
    then show ?thesis by (rule node_valid [OF assms(2)])
  qed
  then show "tail_of s l = INVALID_NODE_ID \<longleftrightarrow> queue_of s l = []"
    using t assms(1) by (auto simp: live_inv_def)
qed

lemma live_swap:
  assumes live: "live nc lk l s" and "n < nc" and "lk n = l" and nc: "nc \<le> MAX_NODE_COUNT"
    and "point_of s n = Prep True True"
    and "p = (if tail_of s l = INVALID_NODE_ID then New_Head else Link (tail_of s l))"
    and s': "s' = s\<lparr>tail_of := (tail_of s)(l := n), queue_of := (queue_of s)(l := queue_of s l @ [n]),
      point_of := (point_of s)(n := p)\<rparr>"
  shows "live nc lk l s'"
proof -
  let ?q = "queue_of s l"
  have n: "n \<notin> set ?q" using live_in_queue [OF live, of n] assms(5) by auto
  have own: "next_of s n = INVALID_NODE_ID" "locked_of s n = 1"
    using live assms(2,3,5) by (auto simp: live_inv_def)
  have p: "p = (if ?q = [] then New_Head else Link (last ?q))"
    using assms(6) live_empty [OF live nc] by simp
  have "queued (point_of s) (next_of s) (locked_of s) ?q" using live by (simp add: live_inv_def)
  then have "queued ((point_of s)(n := p)) (next_of s) (locked_of s) (?q @ [n])"
    using n own p queued_snoc by (cases "?q = []") auto
  then have 1: "live_inv nc lk l (tail_of s' l) (point_of s') (next_of s') (locked_of s') (queue_of s' l) (token_of s' l)"
    using live n own p assms(2,3) by (auto simp: live_inv_def s')
  have hd: "hd (?q @ [n]) = (if ?q = [] then n else hd ?q)" by (cases ?q) simp_all
  have h: "?q \<noteq> [] \<Longrightarrow> hd ?q \<noteq> n" using n by auto
  have "token_inv (scan_of s') l (head_of s' l) (owner_of s' l) (point_of s') (locked_of s') (queue_of s' l) (token_of s' l)"
    using live n own p hd h assms(5)
    by (cases "token_of s l") (auto simp: fresh_first_def head_right_def s')
  with 1 show ?thesis by blast
qed

lemma live_new_head:
  assumes live: "live nc lk l s" and "n < nc" and "lk n = l" and "point_of s n = New_Head"
    and s': "s' = s\<lparr>head_of := (head_of s)(l := n), point_of := (point_of s)(n := Waiting)\<rparr>"
  shows "live nc lk l s'"
proof -
  let ?q = "queue_of s l"
  have n: "n \<in> set ?q"
  proof (rule ccontr)
    assume "n \<notin> set ?q"
    then have "outside (token_of s l) n (point_of s n)" using live assms(2,3) by (simp add: live_inv_def)
    then show False using assms(4) by simp
  qed
  have hd: "hd ?q = n" using live_member [OF conjunct1 [OF live] n] assms(4) by auto
  have ne: "?q \<noteq> []" using n by auto
  have "live_inv nc lk l (tail_of s l) ((point_of s)(n := Waiting)) (next_of s) (locked_of s) ?q (token_of s l)"
    using live assms(2,3) n hd by (intro live_inv_set_point [where k = "token_of s l"]) auto
  moreover have "token_inv (scan_of s) l n (owner_of s l) ((point_of s)(n := Waiting)) (locked_of s) ?q (token_of s l)"
    using live assms(4) hd ne by (cases "token_of s l") (auto simp: fresh_first_def head_right_def)
  ultimately show ?thesis by (simp add: s')
qed

lemma live_link:
  assumes live: "live nc lk l s" and "n < nc" and "lk n = l" and "point_of s n = Link p"
    and s': "s' = s\<lparr>next_of := (next_of s)(p := n), point_of := (point_of s)(n := Waiting)\<rparr>"
  shows "live nc lk l s'"
proof -
  let ?q = "queue_of s l"
  have n: "n \<in> set ?q"
  proof (rule ccontr)
    assume "n \<notin> set ?q"
    then have "outside (token_of s l) n (point_of s n)" using live assms(2,3) by (simp add: live_inv_def)
    then show False using assms(4) by simp
  qed
  have ne: "?q \<noteq> []" using n by auto
  have hd: "hd ?q \<noteq> n"
  proof
    assume "hd ?q = n"
    then show False
      using live ne assms(4) by (cases "token_of s l") (auto simp: fresh_first_def)
  qed
  then have "n \<in> set (tl ?q)" using n by (cases ?q) auto
  then have q: "queued (point_of s') (next_of s') (locked_of s') ?q" "p \<in> set ?q"
    using queued_link [of "point_of s" "next_of s" "locked_of s" ?q n p "point_of s'" "next_of s'"] live assms(4)
    by (auto simp: live_inv_def s')
  have p: "in_queue (point_of s p)" by (rule live_in_queue [OF live q(2)])
  have "live_inv nc lk l (tail_of s l) (point_of s') (next_of s') (locked_of s') ?q (token_of s l)"
    using live q p n by (auto simp: live_inv_def s')
  moreover have "token_inv (scan_of s) l (head_of s l) (owner_of s l) (point_of s') (locked_of s') ?q (token_of s l)"
    using live hd ne assms(4) by (cases "token_of s l") (auto simp: fresh_first_def head_right_def s')
  ultimately show ?thesis by (simp add: s')
qed

text \<open>A release: refused, through the empty queue, or to the next node.\<close>

lemma live_refused:
  assumes live: "live nc lk l s" and "n < nc" and "lk n = l" and "point_of s n = Check_Owner" and "owner_of s l \<noteq> n"
    and s': "s' = s\<lparr>token_of := (token_of s)(l := Dead n), point_of := (point_of s)(n := Prep False False)\<rparr>"
  shows "dead_inv nc lk (scan_of s') l (tail_of s' l) (owner_of s' l) (point_of s') (locked_of s') n"
proof -
  let ?q = "queue_of s l"
  have n: "n \<in> set ?q" "hd ?q = n" "token_of s l = Owned n \<or> token_of s l = Granting n"
    using live_releaser [OF live assms(2,3)] assms(4) by auto
  then have k: "token_of s l = Granting n" "scan_of s = Granted l n"
    using live assms(5) by auto
  have "shut_out nc lk l (locked_of s x) (point_of s' x)" if x: "x < nc" "lk x = l" for x
  proof (cases "x \<in> set ?q")
    case True
    show ?thesis
    proof (cases "x = n")
      case False
      then show ?thesis
        using live_member [OF conjunct1 [OF live] True] n(2) live by (auto simp: live_inv_def s')
    qed (simp add: s')
  next
    case False
    then have "outside (token_of s l) x (point_of s x)"
      using live x by (simp add: live_inv_def)
    then obtain a b where p: "point_of s x = Prep a b"
      using k(1) by (cases "point_of s x") auto
    then show ?thesis
      using live x False n(1) by (auto simp: live_inv_def s')
  qed
  moreover have "tail_of s l = last ?q" "last ?q < nc" "lk (last ?q) = l"
  proof -
    have "?q \<noteq> []" using n(1) by auto
    then show "tail_of s l = last ?q" "last ?q < nc" "lk (last ?q) = l"
      using live last_in_set by (auto simp: live_inv_def)
  qed
  ultimately show ?thesis
    using assms(2) k(2) by (simp add: dead_inv_def s')
qed

lemma live_close:
  assumes live: "live nc lk l s" and "n < nc" and "lk n = l" and "point_of s n = Close_Tail" and "tail_of s l = n"
    and s': "s' = s\<lparr>tail_of := (tail_of s)(l := INVALID_NODE_ID), token_of := (token_of s)(l := Closing n),
      queue_of := (queue_of s)(l := []), point_of := (point_of s)(n := Clear_Head)\<rparr>"
  shows "live nc lk l s'"
proof -
  let ?q = "queue_of s l"
  have n: "n \<in> set ?q" "hd ?q = n" "token_of s l = Owned n"
    using live_releaser [OF live assms(2,3)] assms(4) by auto
  obtain q' where q': "?q = n # q'" using n(1,2) by (cases ?q) auto
  have "distinct ?q" "last ?q = n" using live q' assms(5) by (simp_all add: live_inv_def)
  then have "q' = []" using q' last_in_set [of q'] by (cases "q' = []") auto
  with q' have q: "?q = [n]" by simp
  have "outside (Closing n) x (point_of s' x)" if "x < nc" "lk x = l" for x
  proof (cases "x = n")
    case False
    then have "outside (Owned n) x (point_of s x)" using live that n(3) q by (auto simp: live_inv_def)
    then show ?thesis using False by (cases "point_of s x") (auto simp: s')
  qed (simp add: s')
  then have "live_inv nc lk l (tail_of s' l) (point_of s') (next_of s') (locked_of s') (queue_of s' l) (token_of s' l)"
    using live q by (auto simp: live_inv_def s')
  moreover have "owner_of s l = n" using live n(3) by simp
  ultimately show ?thesis by (simp add: s' fresh_first_def)
qed

lemma live_pass:
  assumes live: "live nc lk l s" and "n < nc" and "lk n = l" and "point_of s n = Check_Next \<or> point_of s n = Await_Next"
    and x: "next_of s n = x" "x \<noteq> INVALID_NODE_ID"
    and s': "s' = s\<lparr>token_of := (token_of s)(l := Passing n x), queue_of := (queue_of s)(l := tl (queue_of s l)),
      point_of := (point_of s)(n := Pass_Head x)\<rparr>"
  shows "live nc lk l s'"
proof -
  let ?q = "queue_of s l"
  have n: "n \<in> set ?q" "hd ?q = n" "token_of s l = Owned n"
    using live_releaser [OF live assms(2,3)] assms(4) by auto
  obtain q where q: "?q = n # q" using n(1,2) by (cases ?q) auto
  have inv: "distinct (n # q)" "queued (point_of s) (next_of s) (locked_of s) (n # q)"
    using live q by (auto simp: live_inv_def)
  from queued_next [OF inv(2)] x obtain q' where q': "q = x # q'" "point_of s x = Waiting" "locked_of s x = 1" by auto
  have y: "outside (Passing n x) y (point_of s' y)" if "y < nc" "lk y = l" "y \<notin> set q" for y
  proof (cases "y = n")
    case False
    then have "outside (Owned n) y (point_of s y)" using live that n(3) q by (auto simp: live_inv_def)
    then show ?thesis using False by (cases "point_of s y") (auto simp: s')
  qed (simp add: s')
  have "queued (point_of s') (next_of s) (locked_of s) q \<longleftrightarrow> queued (point_of s) (next_of s) (locked_of s) q"
    using inv(1) by (intro queued_same) (auto simp: s')
  then have "queued (point_of s') (next_of s) (locked_of s) q"
    using queued_tl [OF inv(2)] by simp
  then have "live_inv nc lk l (tail_of s' l) (point_of s') (next_of s') (locked_of s') (queue_of s' l) (token_of s' l)"
    using live q q'(1) y by (auto simp: live_inv_def s')
  moreover have "owner_of s l = n" using live n(3) by simp
  ultimately show ?thesis using q q' inv(1) by (auto simp: s')
qed

lemma live_leave:
  assumes live: "live nc lk l s" and "n < nc" and "lk n = l"
    and "outside (token_of s l) n p" and "\<not> in_queue (point_of s n)" and "\<forall>a b. p \<noteq> Prep a b"
  shows "live_inv nc lk l (tail_of s l) ((point_of s)(n := p)) (next_of s) (locked_of s) (queue_of s l) (token_of s l)"
  using live_outside [OF live assms(2,3,5)] live assms(2-6)
  by (intro live_inv_set_point [where k = "token_of s l"]) auto

lemma live_clear_head:
  assumes live: "live nc lk l s" and "n < nc" and "lk n = l" and "point_of s n = Clear_Head"
    and s': "s' = s\<lparr>head_of := (head_of s)(l := INVALID_NODE_ID), point_of := (point_of s)(n := Clear_Owner)\<rparr>"
  shows "live nc lk l s'"
proof -
  have n: "n \<notin> set (queue_of s l)" "token_of s l = Closing n"
    using live_outside [OF live assms(2,3)] assms(4) by auto
  then have "queue_of s l \<noteq> [] \<Longrightarrow> hd (queue_of s l) \<noteq> n" by auto
  then show ?thesis
    using live_leave [OF live assms(2,3), of Clear_Owner] live n assms(4)
    by (auto simp: s' fresh_first_def head_right_def)
qed

lemma live_clear_owner:
  assumes live: "live nc lk l s" and "n < nc" and "lk n = l" and "point_of s n = Clear_Owner"
    and s': "s' = s\<lparr>owner_of := (owner_of s)(l := INVALID_NODE_ID), token_of := (token_of s)(l := Free),
      point_of := (point_of s)(n := Prep False False)\<rparr>"
  shows "live nc lk l s'"
proof -
  have n: "n \<notin> set (queue_of s l)" "token_of s l = Closing n"
    using live_outside [OF live assms(2,3)] assms(4) by auto
  have "outside Free x (point_of s x)" if "outside (Closing n) x (point_of s x)" "x \<noteq> n" for x
    using that by (cases "point_of s x") auto
  then have "live_inv nc lk l (tail_of s l) (point_of s') (next_of s) (locked_of s) (queue_of s l) Free"
    unfolding s' using live n assms(2-4)
    by (simp, intro live_inv_set_point [where k = "Closing n"]) auto
  moreover have "queue_of s l \<noteq> [] \<Longrightarrow> hd (queue_of s l) \<noteq> n" using n by auto
  ultimately show ?thesis
    using live n assms(4) by (auto simp: s' fresh_first_def head_right_def)
qed

lemma live_pass_on:
  assumes live: "live nc lk l s" and "n < nc" and "lk n = l"
    and "point_of s n = Pass_Head x \<and> s' = s\<lparr>head_of := (head_of s)(l := x), point_of := (point_of s)(n := Pass_Owner x)\<rparr> \<or>
      point_of s n = Pass_Owner x \<and> s' = s\<lparr>owner_of := (owner_of s)(l := x), point_of := (point_of s)(n := Pass_Grant x)\<rparr>"
  shows "live nc lk l s'"
proof -
  have n: "n \<notin> set (queue_of s l)" "token_of s l = Passing n x"
    using live_outside [OF live assms(2,3)] assms(4) by auto
  then have k: "token_inv (scan_of s) l (head_of s l) (owner_of s l) (point_of s) (locked_of s) (queue_of s l) (Passing n x)"
    using live by simp
  then have "queue_of s l \<noteq> []" "hd (queue_of s l) = x" by simp_all
  with n(1) have "x \<noteq> n" by auto
  then show ?thesis
    using live_leave [OF live assms(2,3), of "Pass_Owner x"] live_leave [OF live assms(2,3), of "Pass_Grant x"]
      n k assms(4) by auto
qed

lemma live_pass_grant:
  assumes live: "live nc lk l s" and "n < nc" and "lk n = l" and "point_of s n = Pass_Grant x"
    and s': "s' = s\<lparr>locked_of := (locked_of s)(x := 0), token_of := (token_of s)(l := Owned x),
      point_of := (point_of s)(n := Prep False False)\<rparr>"
  shows "live nc lk l s'"
proof -
  let ?q = "queue_of s l"
  have n: "n \<notin> set ?q" "token_of s l = Passing n x"
    using live_outside [OF live assms(2,3)] assms(4) by auto
  then have k: "?q \<noteq> []" "hd ?q = x" "point_of s x = Waiting" "owner_of s l = x"
    using live assms(4) by auto
  then obtain q where q: "?q = x # q" by (cases ?q) auto
  have "x \<notin> set q" using live q by (auto simp: live_inv_def)
  then have "queued (point_of s') (next_of s) (locked_of s') ?q \<longleftrightarrow> queued (point_of s) (next_of s) (locked_of s) ?q"
    using n(1) q by (intro queued_cong) (auto simp: s')
  moreover have "outside (Owned x) y (point_of s y)" if "outside (Passing n x) y (point_of s y)" "y \<noteq> n" for y
    using that by (cases "point_of s y") auto
  ultimately have "live_inv nc lk l (tail_of s l) (point_of s') (next_of s) (locked_of s') ?q (Owned x)"
    using live n k assms(2,3) by (auto simp: live_inv_def s')
  then show ?thesis using k n(1) by (auto simp: s')
qed

lemma lock_inv_live: "live nc lk l s \<Longrightarrow> lock_inv nc lk s l"
  by (simp add: lock_inv_def)

lemma live_node_step:
  assumes "node_step lk n s s'" and n: "n < nc" "lk n = l" and nc: "nc \<le> MAX_NODE_COUNT"
    and live: "live nc lk l s"
  shows "lock_inv nc lk s' l"
  using assms(1)
proof cases
  case (own_next a b v)
  note p = own_next(2)
  have "b \<longrightarrow> locked_of s n = 1" using live n p by (auto simp: live_inv_def)
  then have "live nc lk l s'"
    using own_next by (intro live_own_record [OF live p n, where v = v and w = "locked_of s n"
      and a' = "v = INVALID_NODE_ID" and b' = b]) simp_all
  then show ?thesis by (rule lock_inv_live)
next
  case (own_locked a b v)
  note p = own_locked(2)
  have "a \<longrightarrow> next_of s n = INVALID_NODE_ID" using live n p by (auto simp: live_inv_def)
  then have "live nc lk l s'"
    using own_locked by (intro live_own_record [OF live p n, where v = "next_of s n" and w = v
      and a' = a and b' = "v = 1"]) simp_all
  then show ?thesis by (rule lock_inv_live)
next
  case swap_first
  then show ?thesis
    using n by (intro lock_inv_live live_swap [OF live n nc, where p = New_Head]) simp_all
next
  case (swap_behind p)
  then show ?thesis
    using n by (intro lock_inv_live live_swap [OF live n nc, where p = "Link p"]) simp_all
next
  case swap_own
  then have "n \<notin> set (queue_of s l)" using live_in_queue [OF live, of n] by auto
  then have False
    using live_empty [OF live nc] swap_own n node_valid [OF nc n(1)] last_in_set [of "queue_of s l"]
    by (cases "queue_of s l = []") auto
  then show ?thesis ..
next
  case set_head
  then show ?thesis using n by (intro lock_inv_live live_new_head [OF live n]) simp_all
next
  case (set_link p)
  then show ?thesis using n by (intro lock_inv_live live_link [OF live n]) simp_all
next
  case see_grant
  have q: "n \<in> set (queue_of s l)"
  proof (rule ccontr)
    assume "n \<notin> set (queue_of s l)"
    then have "outside (token_of s l) n (point_of s n)" using live n by (simp add: live_inv_def)
    then show False using see_grant by simp
  qed
  then have hd: "hd (queue_of s l) = n"
    using live_member [OF conjunct1 [OF live] q] see_grant by auto
  then have "token_inv (scan_of s) l (head_of s l) (owner_of s l) (point_of s') (locked_of s) (queue_of s l) (token_of s l)"
    using live see_grant q by (cases "token_of s l") (auto simp: fresh_first_def)
  then show ?thesis
    using see_grant by (intro lock_inv_live live_first_moves [OF live q hd, of Holding]) simp_all
next
  case begin_release
  then have r: "n \<in> set (queue_of s l)" "hd (queue_of s l) = n" "token_of s l = Owned n \<or> token_of s l = Granting n"
    using live_releaser [OF live n] by auto
  then show ?thesis
    using live begin_release by (intro lock_inv_live live_first_moves [OF live r(1,2), of Check_Owner]) auto
next
  case is_owner
  then have r: "n \<in> set (queue_of s l)" "hd (queue_of s l) = n" "token_of s l = Owned n \<or> token_of s l = Granting n"
    using live_releaser [OF live n] by auto
  then show ?thesis
    using live is_owner n node_valid [OF nc n(1)]
    by (intro lock_inv_live live_first_moves [OF live r(1,2), of Check_Next]) auto
next
  case refused
  then show ?thesis
    using live_refused [OF live n, of s'] n unfolding lock_inv_def by auto
next
  case no_next
  then have r: "n \<in> set (queue_of s l)" "hd (queue_of s l) = n" "token_of s l = Owned n"
    using live_releaser [OF live n] by auto
  then show ?thesis
    using live no_next by (intro lock_inv_live live_first_moves [OF live r(1,2), of Close_Tail]) auto
next
  case (some_next x)
  then show ?thesis using n by (intro lock_inv_live live_pass [OF live n]) simp_all
next
  case close_tail
  then show ?thesis using n by (intro lock_inv_live live_close [OF live n]) simp_all
next
  case not_last
  then have r: "n \<in> set (queue_of s l)" "hd (queue_of s l) = n" "token_of s l = Owned n"
    using live_releaser [OF live n] by auto
  then show ?thesis
    using live not_last by (intro lock_inv_live live_first_moves [OF live r(1,2), of Await_Next]) auto
next
  case clear_head
  then show ?thesis using n by (intro lock_inv_live live_clear_head [OF live n]) simp_all
next
  case clear_owner
  then show ?thesis using n by (intro lock_inv_live live_clear_owner [OF live n]) simp_all
next
  case (pass_head x)
  then show ?thesis using n by (intro lock_inv_live live_pass_on [OF live n]) auto
next
  case (pass_owner x)
  then show ?thesis using n by (intro lock_inv_live live_pass_on [OF live n]) auto
next
  case (pass_grant x)
  then show ?thesis using n by (intro lock_inv_live live_pass_grant [OF live n]) simp_all
qed

section \<open>All locks\<close>

lemma node_step_locality:
  assumes "node_step lk n s s'" and "n < nc" and "lock_inv nc lk s (lk n)"
  shows "l \<noteq> lk n \<Longrightarrow> tail_of s' l = tail_of s l \<and> head_of s' l = head_of s l \<and> owner_of s' l = owner_of s l \<and>
      token_of s' l = token_of s l \<and> queue_of s' l = queue_of s l"
    and "lk x \<noteq> lk n \<Longrightarrow> point_of s' x = point_of s x \<and> next_of s' x = next_of s x \<and> locked_of s' x = locked_of s x"
    and "scan_of s' = scan_of s"
    and "x \<noteq> n \<Longrightarrow> point_of s' x = point_of s x"
proof -
  show "l \<noteq> lk n \<Longrightarrow> tail_of s' l = tail_of s l \<and> head_of s' l = head_of s l \<and> owner_of s' l = owner_of s l \<and>
      token_of s' l = token_of s l \<and> queue_of s' l = queue_of s l"
    and "scan_of s' = scan_of s" and "x \<noteq> n \<Longrightarrow> point_of s' x = point_of s x"
    using assms(1) by (cases, simp_all)+
  have link: "lk p = lk n" if "point_of s n = Link p" for p
  proof -
    consider d where "dead_inv nc lk (scan_of s) (lk n) (tail_of s (lk n)) (owner_of s (lk n)) (point_of s) (locked_of s) d"
      | "live nc lk (lk n) s"
      using assms(3) unfolding lock_inv_def by blast
    then show ?thesis
    proof cases
      case 1
      then show ?thesis using that assms(2) by (auto simp: dead_inv_def)
    next
      case 2
      have q: "n \<in> set (queue_of s (lk n))"
      proof (rule ccontr)
        assume "n \<notin> set (queue_of s (lk n))"
        then have "outside (token_of s (lk n)) n (point_of s n)" using 2 assms(2) by (simp add: live_inv_def)
        then show False using that by simp
      qed
      have "queue_of s (lk n) \<noteq> []" using q by auto
      then have "n \<noteq> hd (queue_of s (lk n))"
        using 2 that by (cases "token_of s (lk n)") (auto simp: fresh_first_def)
      then have "p \<in> set (queue_of s (lk n))"
        using live_member [OF conjunct1 [OF 2] q] that by auto
      then show ?thesis using 2 by (auto simp: live_inv_def)
    qed
  qed
  have grant: "lk y = lk n" if "point_of s n = Pass_Grant y" for y
  proof -
    have "live nc lk (lk n) s"
      using assms(2,3) that unfolding lock_inv_def dead_inv_def by fastforce
    moreover from this have "token_of s (lk n) = Passing n y"
      using live_outside [of nc lk "lk n" s n] assms(2) that by auto
    ultimately show ?thesis by (auto simp: live_inv_def)
  qed
  show "lk x \<noteq> lk n \<Longrightarrow> point_of s' x = point_of s x \<and> next_of s' x = next_of s x \<and> locked_of s' x = locked_of s x"
    using assms(1) by cases (auto dest: link grant)
qed

lemma lock_inv_cases:
  assumes "lock_inv nc lk s l"
  obtains (dead) d where "token_of s l = Dead d"
      "dead_inv nc lk (scan_of s) l (tail_of s l) (owner_of s l) (point_of s) (locked_of s) d"
    | (live) "live nc lk l s"
  using assms unfolding lock_inv_def by blast

lemma lock_inv_leaver: "lock_inv nc lk s l \<Longrightarrow> leaver_here nc lk l (token_of s l)"
  by (erule lock_inv_cases) (simp_all add: live_inv_def)

text \<open>What the nodes can do to what the manager knows.\<close>

lemma free_node_step:
  assumes "node_step lk n s s'" and "n < nc" and "nc \<le> MAX_NODE_COUNT" and "lock_inv nc lk s (lk n)"
    and free: "token_of s (lk n) = Free"
  shows "token_of s' (lk n) = Free"
    and "queue_of s (lk n) \<noteq> [] \<Longrightarrow> queue_of s' (lk n) \<noteq> [] \<and> hd (queue_of s' (lk n)) = hd (queue_of s (lk n))"
    and "queue_of s (lk n) \<noteq> [] \<Longrightarrow> point_of s (hd (queue_of s (lk n))) = Waiting \<Longrightarrow>
      point_of s' (hd (queue_of s (lk n))) = Waiting"
proof -
  have live: "live nc lk (lk n) s" using assms(4) free by (elim lock_inv_cases) simp_all
  have r: "\<not> releasing (point_of s n)" using live_releaser [OF live assms(2) refl] free by auto
  have o: "in_queue (point_of s n) \<or> (\<exists>a b. point_of s n = Prep a b)"
    using live_outside [OF live assms(2) refl] free by (cases "point_of s n") auto
  have w: "locked_of s n = 1" if "queue_of s (lk n) \<noteq> []" "hd (queue_of s (lk n)) = n"
    using live free that by (simp add: fresh_first_def)
  show "token_of s' (lk n) = Free"
    using assms(1) free r o by cases auto
  show "queue_of s (lk n) \<noteq> [] \<Longrightarrow> queue_of s' (lk n) \<noteq> [] \<and> hd (queue_of s' (lk n)) = hd (queue_of s (lk n))"
    using assms(1) r o by cases auto
  show "queue_of s (lk n) \<noteq> [] \<Longrightarrow> point_of s (hd (queue_of s (lk n))) = Waiting \<Longrightarrow>
      point_of s' (hd (queue_of s (lk n))) = Waiting"
    using assms(1) r o w by cases auto
qed

lemma granting_node_step:
  assumes "node_step lk n s s'" and "n < nc" and "nc \<le> MAX_NODE_COUNT" and "lock_inv nc lk s (lk n)"
    and "token_of s (lk n) = Granting h \<or> token_of s (lk n) = Dead h"
  shows "token_of s' (lk n) = Granting h \<or> token_of s' (lk n) = Dead h"
  using assms(4)
proof (cases rule: lock_inv_cases)
  case (dead d)
  have shut: "shut_out nc lk (lk n) (locked_of s n) (point_of s n)"
    using dead(2) assms(2) by (simp add: dead_inv_def)
  show ?thesis using assms(1)
  proof cases
    case (some_next x)
    then show ?thesis using shut by auto
  qed (use shut dead(1) assms(5) in auto)
next
  case live
  then have k: "token_of s (lk n) = Granting h" using assms(5) by auto
  have ow: "owner_of s (lk n) \<noteq> n"
    using live k node_valid [OF assms(3,2)] by auto
  have r: "n = h \<and> point_of s n \<in> {Holding, Check_Owner}" if "releasing (point_of s n)"
    using live_releaser [OF live assms(2) refl that] k by auto
  have o: "in_queue (point_of s n) \<or> (\<exists>a b. point_of s n = Prep a b)"
    using live_outside [OF live assms(2) refl] k by (cases "point_of s n") auto
  show ?thesis using assms(1)
  proof cases
    case refused
    then show ?thesis using r by simp
  qed (use k ow r o in auto)
qed

lemma node_step_inv:
  assumes step: "node_step lk n s s'" and n: "n < nc" "lk n < MAX_LOCK_COUNT" and nc: "nc \<le> MAX_NODE_COUNT"
    and inv: "protocol_inv nc lk s"
  shows "protocol_inv nc lk s'"
proof -
  have here: "lock_inv nc lk s (lk n)" using inv n(2) by (simp add: protocol_inv_def)
  note local = node_step_locality [OF step n(1) here]
  have "lock_inv nc lk s' l" if l: "l < MAX_LOCK_COUNT" for l
  proof (cases "l = lk n")
    case True
    from here show ?thesis
    proof (cases rule: lock_inv_cases)
      case (dead d)
      then show ?thesis using dead_node_step [OF step n(1)] True by simp
    next
      case live
      then show ?thesis using live_node_step [OF step n(1) refl nc] True by simp
    qed
  next
    case False
    have inv_l: "lock_inv nc lk s l" using inv l by (simp add: protocol_inv_def)
    from lock_inv_leaver [OF inv_l]
    have "token_of s l = Closing m \<Longrightarrow> lk m = l" "token_of s l = Passing m x \<Longrightarrow> lk m = l" for m x by auto
    then show ?thesis
      using local False by (intro lock_inv_frame [OF inv_l]) auto
  qed
  moreover have "scan_inv s' (scan_of s')"
  proof (cases "scan_of s")
    case (Saw_Free l)
    then have "l < MAX_LOCK_COUNT" "token_of s l = Free" using inv by (auto simp: protocol_inv_def)
    then show ?thesis
      using Saw_Free local(1) [of l] local(3) free_node_step(1) [OF step n(1) nc here]
      by (cases "l = lk n") auto
  next
    case (Saw_Head l h)
    then have k: "l < MAX_LOCK_COUNT" "token_of s l = Free" "queue_of s l \<noteq> []" "hd (queue_of s l) = h"
        "point_of s h = Waiting"
      using inv by (auto simp: protocol_inv_def)
    show ?thesis
    proof (cases "l = lk n")
      case True
      then show ?thesis
        using Saw_Head k local(3) free_node_step [OF step n(1) nc here] by auto
    next
      case False
      have "lock_inv nc lk s l" using inv k(1) by (simp add: protocol_inv_def)
      then have "lk h = l"
        using k by (elim lock_inv_cases) (auto simp: live_inv_def)
      then have "h \<noteq> n" using False by auto
      then show ?thesis using Saw_Head k local False by auto
    qed
  next
    case (Granted l h)
    then have "l < MAX_LOCK_COUNT" "token_of s l = Granting h \<or> token_of s l = Dead h"
      using inv by (auto simp: protocol_inv_def)
    then show ?thesis
      using Granted local(1) [of l] local(3) granting_node_step [OF step n(1) nc here, of h]
      by (cases "l = lk n") auto
  qed (simp add: local(3))
  ultimately show ?thesis by (simp add: protocol_inv_def)
qed

section \<open>Steps of the manager\<close>

lemma owner_free:
  assumes "lock_inv nc lk s l" and "nc \<le> MAX_NODE_COUNT" and "owner_of s l = INVALID_NODE_ID"
    and "\<forall>h. scan_of s \<noteq> Granted l h"
  shows "token_of s l = Free"
  using assms(1)
proof (cases rule: lock_inv_cases)
  case (dead d)
  then show ?thesis using assms(3,4) node_valid [OF assms(2), of d] by (auto simp: dead_inv_def)
next
  case live
  show ?thesis
  proof (cases "token_of s l")
    case (Granting h)
    then show ?thesis using live assms(4) by auto
  next
    case (Owned h)
    then have "queue_of s l \<noteq> []" "hd (queue_of s l) = h" "owner_of s l = h" using live by auto
    then have "h < nc" "owner_of s l = h" using live by (auto simp: live_inv_def)
    then show ?thesis using assms(3) node_valid [OF assms(2), of h] by simp
  next
    case (Closing n)
    then have "n < nc" "owner_of s l = n" using lock_inv_leaver [OF assms(1)] live by auto
    then show ?thesis using assms(3) node_valid [OF assms(2), of n] by simp
  next
    case (Passing n x)
    then have "n < nc" "x \<in> set (queue_of s l)" "owner_of s l = n \<or> owner_of s l = x"
      using lock_inv_leaver [OF assms(1)] live by auto
    moreover from this have "x < nc" using live by (auto simp: live_inv_def)
    ultimately show ?thesis
      using assms(3) node_valid [OF assms(2), of n] node_valid [OF assms(2), of x] by auto
  qed (use live in auto)
qed

lemma lock_inv_scan:
  assumes "lock_inv nc lk s l" and "\<And>h. scan_of s = Granted l h \<Longrightarrow> sc = Granted l h"
  shows "lock_inv nc lk (s\<lparr>scan_of := sc\<rparr>) l"
  using assms(1)
proof (cases rule: lock_inv_cases)
  case (dead d)
  then show ?thesis using assms(2) by (auto simp: lock_inv_def dead_inv_def)
next
  case live
  then show ?thesis
    using assms(2) by (cases "token_of s l") (auto simp: lock_inv_def)
qed

lemma outside_not_left:
  assumes "outside k x p" and "k = Free \<or> (\<exists>h. k = Granting h)"
  shows "outside k' x p"
  using assms by (cases p) auto

lemma live_granted:
  assumes live: "live nc lk l s" and "token_of s l = Free" and "queue_of s l \<noteq> []" and h: "hd (queue_of s l) = h"
    and "point_of s h = Waiting"
    and s': "s' = s\<lparr>locked_of := (locked_of s)(h := 2), scan_of := Granted l h, token_of := (token_of s)(l := Granting h)\<rparr>"
  shows "live nc lk l s'"
proof -
  obtain q where q: "queue_of s l = h # q" using assms(3) h by (cases "queue_of s l") auto
  then have "h \<notin> set q" using live by (auto simp: live_inv_def)
  then have "queued (point_of s) (next_of s) (locked_of s') (h # q) \<longleftrightarrow> queued (point_of s) (next_of s) (locked_of s) (h # q)"
    by (intro queued_cong) (auto simp: s')
  then have "live_inv nc lk l (tail_of s l) (point_of s) (next_of s) (locked_of s') (queue_of s l) (Granting h)"
    using live q assms(2,5) outside_not_left [of Free _ _ "Granting h"] by (auto simp: live_inv_def s')
  then show ?thesis using live q assms(2,5) by (simp add: s')
qed

lemma granted_recorded:
  assumes inv: "lock_inv nc lk s l" and k: "token_of s l = Granting h \<or> token_of s l = Dead h"
    and s': "s' = s\<lparr>owner_of := (owner_of s)(l := h), scan_of := Scanning,
      token_of := (token_of s)(l := if token_of s l = Granting h then Owned h else token_of s l)\<rparr>"
  shows "lock_inv nc lk s' l"
  using inv
proof (cases rule: lock_inv_cases)
  case (dead d)
  then show ?thesis using k by (auto simp: lock_inv_def dead_inv_def s')
next
  case live
  then have k': "token_of s l = Granting h" using k by auto
  then have "live_inv nc lk l (tail_of s l) (point_of s) (next_of s) (locked_of s) (queue_of s l) (Owned h)"
    using live outside_not_left [of "Granting h" _ _ "Owned h"] by (auto simp: live_inv_def)
  then show ?thesis using live k' by (auto simp: lock_inv_def s')
qed

lemma scan_step_inv:
  assumes step: "scan_step s s'" and nc: "nc \<le> MAX_NODE_COUNT" and inv: "protocol_inv nc lk s"
  shows "protocol_inv nc lk s'"
  using step
proof cases
  case (saw_free l)
  then have "lock_inv nc lk s l" using inv by (simp add: protocol_inv_def)
  then have "token_of s l = Free" using saw_free nc by (intro owner_free) simp_all
  then show ?thesis
    using saw_free inv by (auto simp: protocol_inv_def intro: lock_inv_scan)
next
  case (saw_head l h)
  then have k: "l < MAX_LOCK_COUNT" "token_of s l = Free" using inv by (auto simp: protocol_inv_def)
  then have "lock_inv nc lk s l" using inv by (simp add: protocol_inv_def)
  then have "head_right h (point_of s) (queue_of s l)"
    using k(2) saw_head(3) by (elim lock_inv_cases) auto
  then show ?thesis
    using saw_head k inv by (auto simp: protocol_inv_def head_right_def intro!: lock_inv_scan)
next
  case scan_on
  then show ?thesis
    using inv by (auto simp: protocol_inv_def intro: lock_inv_scan)
next
  case (write_grant l h)
  then have k: "l < MAX_LOCK_COUNT" "token_of s l = Free" "queue_of s l \<noteq> []" "hd (queue_of s l) = h" "point_of s h = Waiting"
    using inv by (auto simp: protocol_inv_def)
  then have "lock_inv nc lk s l" using inv by (simp add: protocol_inv_def)
  then have live: "live nc lk l s" using k(2) by (elim lock_inv_cases) simp_all
  then have h: "lk h = l" using k(3,4) by (auto simp: live_inv_def)
  have "lock_inv nc lk s' l'" if "l' < MAX_LOCK_COUNT" for l'
  proof (cases "l' = l")
    case True
    then show ?thesis using live_granted [OF live k(2-5)] write_grant by (intro lock_inv_live) simp
  next
    case False
    have i: "lock_inv nc lk s l'" using inv that by (simp add: protocol_inv_def)
    then show ?thesis
      using False write_grant h lock_inv_leaver [OF i] by (intro lock_inv_frame [OF i]) auto
  qed
  then show ?thesis using write_grant k(1) by (simp add: protocol_inv_def)
next
  case (record_owner l h)
  then have k: "l < MAX_LOCK_COUNT" "token_of s l = Granting h \<or> token_of s l = Dead h"
    using inv by (auto simp: protocol_inv_def)
  have "lock_inv nc lk s' l'" if "l' < MAX_LOCK_COUNT" for l'
  proof -
    have i: "lock_inv nc lk s l'" using inv that by (simp add: protocol_inv_def)
    show ?thesis
    proof (cases "l' = l")
      case True
      then show ?thesis using granted_recorded [OF i [unfolded True] k(2) record_owner(1)] by simp
    next
      case False
      then show ?thesis
        using record_owner lock_inv_leaver [OF i] by (intro lock_inv_frame [OF i]) auto
    qed
  qed
  then show ?thesis using record_owner by (simp add: protocol_inv_def)
qed

section \<open>Mutual exclusion in the protocol\<close>

lemma holding_unique:
  assumes "protocol_inv nc lk s" and "n < nc" and "n' < nc" and "lk n = lk n'" and "lk n < MAX_LOCK_COUNT"
    and "point_of s n = Holding" and "point_of s n' = Holding"
  shows "n = n'"
proof -
  have "lock_inv nc lk s (lk n)" using assms(1,5) by (simp add: protocol_inv_def)
  then show ?thesis
  proof (cases rule: lock_inv_cases)
    case (dead d)
    then have "shut_out nc lk (lk n) (locked_of s n) (point_of s n)" using assms(2) by (simp add: dead_inv_def)
    then show ?thesis using assms(6) by simp
  next
    case live
    then show ?thesis
      using live_releaser [OF live assms(2) refl] live_releaser [OF live assms(3)] assms(4,6,7) by auto
  qed
qed

definition idle_protocol :: "protocol_state \<Rightarrow> bool" where
  "idle_protocol s \<longleftrightarrow> (\<forall>l < MAX_LOCK_COUNT. tail_of s l = INVALID_NODE_ID \<and> head_of s l = INVALID_NODE_ID \<and>
      owner_of s l = INVALID_NODE_ID) \<and>
     point_of s = (\<lambda>_. Prep False False) \<and> scan_of s = Scanning \<and> token_of s = (\<lambda>_. Free) \<and> queue_of s = (\<lambda>_. [])"

lemma idle_protocol_inv: "idle_protocol s \<Longrightarrow> protocol_inv nc lk s"
  by (simp add: idle_protocol_def protocol_inv_def lock_inv_def live_inv_def fresh_first_def head_right_def)

end
