(* ===== verification/Mcs_Service.thy ===== *)
theory Mcs_Service
  imports Lock_Contract
begin

text \<open>
  The MCS algorithm implements the lock service as a queue. For each lock the shared memory
  represents the node that holds it and the list of the nodes that wait, in order: the
  entry's \<open>tail_node\<close>, \<open>head_node\<close> and \<open>owner_node\<close> and the chain of \<open>next_node\<close> fields. Each
  routine, run without interference, is shown to act on that list as a FIFO queue, and the
  laws of the contract (safety and progress) follow. Cancellation does not hold for it.
\<close>

section \<open>The queue of a lock\<close>

abbreviation "m_tail off m l \<equiv> tail_node (mcs_entry off m l)"
abbreviation "m_head off m l \<equiv> head_node (mcs_entry off m l)"
abbreviation "m_owner off m l \<equiv> mcs_owner (mcs_entry off m l)"
abbreviation "m_next off m n \<equiv> next_node (mcs_node off m n)"
abbreviation "m_locked off m n \<equiv> locked (mcs_node off m n)"
abbreviation "m_waiting off m n \<equiv> waiting_lock (mcs_node off m n)"

fun mcs_chain :: "ShmOffset \<Rightarrow> mem \<Rightarrow> NodeId list \<Rightarrow> bool" where
  "mcs_chain off m [] = True"
| "mcs_chain off m [n] = (m_next off m n = INVALID_NODE_ID)"
| "mcs_chain off m (n # n' # ns) = (m_next off m n = n' \<and> mcs_chain off m (n' # ns))"

definition members :: "NodeId option \<Rightarrow> NodeId list \<Rightarrow> NodeId list" where
  "members h W = (case h of None \<Rightarrow> W | Some x \<Rightarrow> x # W)"

definition mcs_lock ::
  "ShmOffset \<Rightarrow> u32 \<Rightarrow> mem \<Rightarrow> LockId \<Rightarrow> NodeId option \<Rightarrow> NodeId list \<Rightarrow> bool"
where
  "mcs_lock off nc m l h W \<longleftrightarrow>
     distinct (members h W) \<and> (\<forall>n \<in> set (members h W). n < nc \<and> m_waiting off m n = l) \<and>
     m_tail off m l = (if members h W = [] then INVALID_NODE_ID else last (members h W)) \<and>
     m_head off m l = (if members h W = [] then INVALID_NODE_ID else hd (members h W)) \<and>
     m_owner off m l = (case h of None \<Rightarrow> INVALID_NODE_ID | Some x \<Rightarrow> x) \<and>
     mcs_chain off m (members h W) \<and>
     (\<forall>n \<in> set W. m_locked off m n = 1) \<and>
     (\<forall>x. h = Some x \<longrightarrow> m_locked off m x = 0 \<or> m_locked off m x = 2)"

lemma members_simps [simp]:
  "members None W = W" "members (Some x) W = x # W"
  by (simp_all add: members_def)

lemma mcs_chain_cong:
  "(\<And>n. n \<in> set ns \<Longrightarrow> m_next off m' n = m_next off m n) \<Longrightarrow>
   mcs_chain off m' ns \<longleftrightarrow> mcs_chain off m ns"
  by (induction off m' ns rule: mcs_chain.induct) simp_all

lemma mcs_chain_snoc:
  assumes "mcs_chain off m (ns @ [t])" and "n \<notin> set (ns @ [t])" and "distinct (ns @ [t])"
    and "m_next off m' n = INVALID_NODE_ID" and "m_next off m' t = n"
    and "\<And>x. x \<in> set ns \<Longrightarrow> m_next off m' x = m_next off m x"
  shows "mcs_chain off m' (ns @ [t, n])"
  using assms
proof (induction ns)
  case Nil
  then show ?case by simp
next
  case (Cons x ns)
  then show ?case by (cases ns) auto
qed

lemma mcs_chain_tl: "mcs_chain off m (n # ns) \<Longrightarrow> mcs_chain off m ns"
  by (cases ns) simp_all

text \<open>A lock is untouched by changes of other entries and of other nodes.\<close>

lemma mcs_lock_frame:
  assumes "mcs_lock off nc m l h W" and "mcs_entry off m' l = mcs_entry off m l"
    and "\<And>n. n \<in> set (members h W) \<Longrightarrow> mcs_node off m' n = mcs_node off m n"
  shows "mcs_lock off nc m' l h W"
proof -
  have "mcs_chain off m' (members h W) \<longleftrightarrow> mcs_chain off m (members h W)"
    using assms(3) by (intro mcs_chain_cong) simp
  moreover have "m_locked off m' n = m_locked off m n" if "n \<in> set W" for n
    using assms(3) that by (cases h) simp_all
  moreover have "m_locked off m' x = m_locked off m x" if "h = Some x" for x
    using assms(3) that by simp
  ultimately show ?thesis
    using assms by (auto simp: mcs_lock_def)
qed

section \<open>The routines on the queue\<close>

lemmas mcs_run_simps = prog_simps prog_assoc layout_simps mcs_entry_def mcs_node_def

lemmas mcs_ptrs = line_bounds mcs_get_node_ptr mcs_get_entry_ptr

text \<open>
  What each routine writes. Entry and node fields are separate cells, so the effects are
  stated on the records.
\<close>

lemma run_mcs_acquire:
  assumes fit: "lines_fit sh nc off" and l: "l < MAX_LOCK_COUNT" and n: "n < nc" and "2 \<le> fuel"
    and t: "m_tail off m l = INVALID_NODE_ID \<or> m_tail off m l < nc \<and> m_tail off m l \<noteq> n"
  shows "\<exists>m'. run sh (mcs_acquire_lock fuel \<lparr>mcs_node_count = nc\<rparr> n l (Some sh) off) m = Result SUCCESS m' \<and>
     mcs_entry off m' l = (mcs_entry off m l)
       \<lparr>tail_node := n,
        head_node := (if m_tail off m l = INVALID_NODE_ID then n else m_head off m l)\<rparr> \<and>
     (\<forall>l'. l' \<noteq> l \<longrightarrow> l' < MAX_LOCK_COUNT \<longrightarrow> mcs_entry off m' l' = mcs_entry off m l') \<and>
     mcs_node off m' n = \<lparr>next_node = INVALID_NODE_ID, locked = 1, waiting_lock = l\<rparr> \<and>
     (\<forall>n'. n' \<noteq> n \<longrightarrow> mcs_node off m' n' =
        (if n' = m_tail off m l \<and> n' \<noteq> INVALID_NODE_ID then (mcs_node off m n')\<lparr>next_node := n\<rparr>
         else mcs_node off m n'))"
proof -
  obtain f where f: "fuel = Suc (Suc f)" using assms(4) by (metis Suc_le_D numeral_2_eq_2 Suc_le_mono)
  have n': "n \<noteq> INVALID_NODE_ID" "\<not> nc \<le> n" "\<not> MAX_LOCK_COUNT \<le> l"
    using n l lines_fit_node [OF fit n] by (simp_all add: not_le)
  show ?thesis
  proof (cases "m_tail off m l = INVALID_NODE_ID")
    case True
    then show ?thesis
      using n' l n fit
      by (simp add: f mcs_acquire_lock_def mcs_run_simps mcs_ptrs [OF fit])
  next
    case False
    then have "n \<noteq> m_tail off m l" "m_tail off m l < nc" using t by auto
    with False show ?thesis
      using n' l n fit
      by (simp add: f mcs_acquire_lock_def mcs_run_simps mcs_ptrs [OF fit])
  qed
qed



lemma run_mcs_release_last:
  assumes fit: "lines_fit sh nc off" and l: "l < MAX_LOCK_COUNT" and n: "n < nc"
    and "m_owner off m l = n" and "m_next off m n = INVALID_NODE_ID" and "m_tail off m l = n"
  shows "\<exists>m'. run sh (mcs_release_lock fuel \<lparr>mcs_node_count = nc\<rparr> n l (Some sh) off) m = Result SUCCESS m' \<and>
     mcs_entry off m' l = \<lparr>tail_node = INVALID_NODE_ID, head_node = INVALID_NODE_ID,
                           mcs_owner = INVALID_NODE_ID\<rparr> \<and>
     (\<forall>l'. l' \<noteq> l \<longrightarrow> l' < MAX_LOCK_COUNT \<longrightarrow> mcs_entry off m' l' = mcs_entry off m l') \<and>
     (\<forall>n'. n' \<noteq> n \<longrightarrow> mcs_node off m' n' = mcs_node off m n')"
proof -
  have n': "n \<noteq> INVALID_NODE_ID" "\<not> nc \<le> n" "\<not> MAX_LOCK_COUNT \<le> l"
    using n l lines_fit_node [OF fit n] by (simp_all add: not_le)
  show ?thesis
    using n' l n assms(4-6)
    by (simp add: mcs_release_lock_def mcs_run_simps mcs_ptrs [OF fit])
qed

lemma run_mcs_release_pass:
  assumes fit: "lines_fit sh nc off" and l: "l < MAX_LOCK_COUNT" and n: "n < nc"
    and "m_owner off m l = n" and "m_next off m n = y" and "y < nc" and "y \<noteq> n"
  shows "\<exists>m'. run sh (mcs_release_lock fuel \<lparr>mcs_node_count = nc\<rparr> n l (Some sh) off) m = Result SUCCESS m' \<and>
     mcs_entry off m' l = (mcs_entry off m l)\<lparr>head_node := y, mcs_owner := y\<rparr> \<and>
     (\<forall>l'. l' \<noteq> l \<longrightarrow> l' < MAX_LOCK_COUNT \<longrightarrow> mcs_entry off m' l' = mcs_entry off m l') \<and>
     mcs_node off m' y = (mcs_node off m y)\<lparr>locked := 0\<rparr> \<and>
     (\<forall>n'. n' \<noteq> n \<longrightarrow> n' \<noteq> y \<longrightarrow> mcs_node off m' n' = mcs_node off m n')"
proof -
  have n': "n \<noteq> INVALID_NODE_ID" "\<not> nc \<le> n" "\<not> MAX_LOCK_COUNT \<le> l" "y \<noteq> INVALID_NODE_ID" "n \<noteq> y"
    using n l lines_fit_node [OF fit] assms(6,7) by (auto simp: not_le)
  show ?thesis
    using n' l n assms(4-6)
    by (simp add: mcs_release_lock_def mcs_pass_lock_def mcs_run_simps mcs_ptrs [OF fit])
qed

lemma run_mcs_release_other:
  assumes fit: "lines_fit sh nc off" and l: "l < MAX_LOCK_COUNT" and n: "n < nc"
    and "m_owner off m l \<noteq> n"
  shows "run sh (mcs_release_lock fuel \<lparr>mcs_node_count = nc\<rparr> n l (Some sh) off) m = Result ERROR_NOT_OWNER m"
proof -
  have n': "n \<noteq> INVALID_NODE_ID" "\<not> nc \<le> n" "\<not> MAX_LOCK_COUNT \<le> l"
    using n l lines_fit_node [OF fit n] by (simp_all add: not_le)
  show ?thesis
    using n' l n assms(4) by (simp add: mcs_release_lock_def mcs_run_simps mcs_ptrs [OF fit])
qed

lemma run_mcs_check:
  assumes fit: "lines_fit sh nc off" and l: "l < MAX_LOCK_COUNT"
  shows "run sh (mcs_check_grant l (Some sh) off nc) m =
    Result (if m_owner off m l = INVALID_NODE_ID \<and> m_head off m l < nc \<and>
               m_locked off m (m_head off m l) = 1 \<and> m_waiting off m (m_head off m l) = l
            then m_head off m l else INVALID_NODE_ID) m"
proof -
  have l': "\<not> MAX_LOCK_COUNT \<le> l" and nc: "nc \<noteq> 0"
    using l fit by (simp_all add: not_le lines_fit_def word_gt_0)
  show ?thesis
  proof (cases "m_head off m l < nc")
    case True
    then have "m_head off m l \<noteq> INVALID_NODE_ID" "\<not> nc \<le> m_head off m l"
      using lines_fit_node [OF fit] by (simp_all add: not_le)
    then show ?thesis
      using True l l' nc by (simp add: mcs_check_grant_def mcs_run_simps mcs_ptrs [OF fit])
  next
    case False
    then show ?thesis
      using l l' nc by (simp add: mcs_check_grant_def mcs_run_simps mcs_ptrs [OF fit] not_less)
  qed
qed

lemma run_mcs_grant:
  assumes fit: "lines_fit sh nc off" and l: "l < MAX_LOCK_COUNT" and n: "n < nc"
  shows "\<exists>m'. run sh (mcs_grant_lock \<lparr>mcs_node_count = nc\<rparr> n l (Some sh) off) m = Result SUCCESS m' \<and>
     mcs_entry off m' l = (mcs_entry off m l)\<lparr>mcs_owner := n\<rparr> \<and>
     (\<forall>l'. l' \<noteq> l \<longrightarrow> l' < MAX_LOCK_COUNT \<longrightarrow> mcs_entry off m' l' = mcs_entry off m l') \<and>
     mcs_node off m' n = (mcs_node off m n)\<lparr>locked := 2\<rparr> \<and>
     (\<forall>n'. n' \<noteq> n \<longrightarrow> mcs_node off m' n' = mcs_node off m n')"
proof -
  have n': "n \<noteq> INVALID_NODE_ID" "\<not> nc \<le> n" "\<not> MAX_LOCK_COUNT \<le> l"
    using n l lines_fit_node [OF fit n] by (simp_all add: not_le)
  show ?thesis
    using n' l n by (simp add: mcs_grant_lock_def mcs_run_simps mcs_ptrs [OF fit])
qed

lemma run_tt_granted_mcs:
  assumes fit: "lines_fit sh nc off" and l: "l < MAX_LOCK_COUNT" and n: "n < nc"
    and "client_lock (McsAlgorithm a) sh nc off n tt"
  shows "run sh (tt_granted tt l) m =
    Result ((m_locked off m n = 2 \<or> m_locked off m n = 0) \<and> m_waiting off m n = l) m"
  using l n assms(4) node_offset_to_ptr [OF fit n]
  by (simp add: tt_granted_def client_lock_def mcs_run_simps mcs_ptrs [OF fit])


section \<open>The queue operations\<close>

text \<open>\<open>acquire_lock\<close> appends, \<open>grant_lock\<close> and \<open>release_lock\<close> take the first.\<close>

lemma mcs_lock_tail:
  assumes "mcs_lock off nc m l h W"
  shows "members h W \<noteq> [] \<Longrightarrow> m_tail off m l \<in> set (members h W)"
    and "members h W = [] \<Longrightarrow> m_tail off m l = INVALID_NODE_ID"
  using assms by (simp_all add: mcs_lock_def)

lemma mcs_enqueue:
  assumes fit: "lines_fit sh nc off" and l: "l < MAX_LOCK_COUNT" and n: "n < nc" and "2 \<le> fuel"
    and q: "mcs_lock off nc m l h W" and new: "n \<notin> set (members h W)"
  shows "\<exists>m'. run sh (mcs_acquire_lock fuel \<lparr>mcs_node_count = nc\<rparr> n l (Some sh) off) m = Result SUCCESS m' \<and>
     mcs_lock off nc m' l h (W @ [n]) \<and>
     (\<forall>l'. l' \<noteq> l \<longrightarrow> l' < MAX_LOCK_COUNT \<longrightarrow> mcs_entry off m' l' = mcs_entry off m l') \<and>
     (\<forall>n'. n' \<notin> insert n (set (members h W)) \<longrightarrow> mcs_node off m' n' = mcs_node off m n')"
proof -
  have valid: "x < nc" "x \<noteq> INVALID_NODE_ID" if "x \<in> set (members h W)" for x
    using q that lines_fit_node [OF fit] by (auto simp: mcs_lock_def)
  have t: "m_tail off m l = INVALID_NODE_ID \<or> m_tail off m l < nc \<and> m_tail off m l \<noteq> n"
    using mcs_lock_tail [OF q] valid new by (cases "members h W = []") auto
  have tail_inv: "m_tail off m l = INVALID_NODE_ID \<longleftrightarrow> members h W = []"
    using mcs_lock_tail [OF q] valid by metis
  obtain m' where run: "run sh (mcs_acquire_lock fuel \<lparr>mcs_node_count = nc\<rparr> n l (Some sh) off) m = Result SUCCESS m'"
    and e: "mcs_entry off m' l = (mcs_entry off m l)
       \<lparr>tail_node := n, head_node := (if members h W = [] then n else m_head off m l)\<rparr>"
    and el: "\<forall>l'. l' \<noteq> l \<longrightarrow> l' < MAX_LOCK_COUNT \<longrightarrow> mcs_entry off m' l' = mcs_entry off m l'"
    and nn: "mcs_node off m' n = \<lparr>next_node = INVALID_NODE_ID, locked = 1, waiting_lock = l\<rparr>"
    and no: "\<forall>n'. n' \<noteq> n \<longrightarrow> mcs_node off m' n' =
        (if n' = m_tail off m l \<and> n' \<noteq> INVALID_NODE_ID then (mcs_node off m n')\<lparr>next_node := n\<rparr>
         else mcs_node off m n')"
    using run_mcs_acquire [OF fit l n assms(4) t] unfolding tail_inv by blast
  have app: "members h (W @ [n]) = members h W @ [n]" by (cases h) simp_all
  have chain: "mcs_chain off m' (members h W @ [n])"
  proof (cases "members h W = []")
    case True
    then show ?thesis using nn by simp
  next
    case False
    define t where "t = last (members h W)"
    define ns where "ns = butlast (members h W)"
    have mem: "members h W = ns @ [t]" using False by (simp add: t_def ns_def)
    have tl: "m_tail off m l = t" using q False by (simp add: mcs_lock_def t_def)
    have d: "distinct (ns @ [t])" "mcs_chain off m (ns @ [t])" using q unfolding mcs_lock_def mem by simp_all
    have "mcs_chain off m' (ns @ [t, n])"
    proof (rule mcs_chain_snoc [OF d(2) _ d(1)])
      show "n \<notin> set (ns @ [t])" using new mem by simp
      show "m_next off m' n = INVALID_NODE_ID" using nn by simp
      show "m_next off m' t = n" using no tl new mem valid [of t] by auto
      show "m_next off m' x = m_next off m x" if "x \<in> set ns" for x
        using no tl new mem d(1) that by auto
    qed
    then show ?thesis by (simp add: mem)
  qed
  have keep: "m_waiting off m' x = m_waiting off m x" "m_locked off m' x = m_locked off m x"
    if "x \<in> set (members h W)" for x
    using no new that by auto
  have sets: "set W \<subseteq> set (members h W)" "\<And>x. h = Some x \<Longrightarrow> x \<in> set (members h W)"
    by (auto simp: members_def split: option.splits)
  have hd: "hd (members h W @ [n]) = (if members h W = [] then n else hd (members h W))" by simp
  have "mcs_lock off nc m' l h (W @ [n])"
    using q new n chain e nn keep sets unfolding mcs_lock_def app hd
    by (auto simp: subset_iff)
  then show ?thesis
    using run el no mcs_lock_tail(1) [OF q] tail_inv by (intro exI [of _ m']) auto
qed

lemma mcs_grant_head:
  assumes fit: "lines_fit sh nc off" and l: "l < MAX_LOCK_COUNT"
    and q: "mcs_lock off nc m l None (r # W)"
  shows "\<exists>m'. run sh (mcs_grant_lock \<lparr>mcs_node_count = nc\<rparr> r l (Some sh) off) m = Result SUCCESS m' \<and>
     mcs_lock off nc m' l (Some r) W \<and>
     (\<forall>l'. l' \<noteq> l \<longrightarrow> l' < MAX_LOCK_COUNT \<longrightarrow> mcs_entry off m' l' = mcs_entry off m l') \<and>
     (\<forall>n'. n' \<noteq> r \<longrightarrow> mcs_node off m' n' = mcs_node off m n')"
proof -
  have "r < nc" using q by (simp add: mcs_lock_def)
  then obtain m' where m': "run sh (mcs_grant_lock \<lparr>mcs_node_count = nc\<rparr> r l (Some sh) off) m = Result SUCCESS m'"
      "mcs_entry off m' l = (mcs_entry off m l)\<lparr>mcs_owner := r\<rparr>"
      "\<forall>l'. l' \<noteq> l \<longrightarrow> l' < MAX_LOCK_COUNT \<longrightarrow> mcs_entry off m' l' = mcs_entry off m l'"
      "mcs_node off m' r = (mcs_node off m r)\<lparr>locked := 2\<rparr>"
      "\<forall>n'. n' \<noteq> r \<longrightarrow> mcs_node off m' n' = mcs_node off m n'"
    using run_mcs_grant [OF fit l, of r m] by blast
  have "m_next off m' x = m_next off m x" "m_waiting off m' x = m_waiting off m x" for x
    using m'(4,5) by (cases "x = r"; simp)+
  moreover from this have "mcs_chain off m' (r # W)"
    using q mcs_chain_cong [of "r # W" off m' m] by (simp add: mcs_lock_def)
  moreover have "m_locked off m' x = m_locked off m x" if "x \<in> set W" for x
    using m'(5) q that by (auto simp: mcs_lock_def)
  ultimately have "mcs_lock off nc m' l (Some r) W"
    using q m'(2,4) by (auto simp: mcs_lock_def)
  then show ?thesis using m' by blast
qed

lemma mcs_release_empty:
  assumes fit: "lines_fit sh nc off" and l: "l < MAX_LOCK_COUNT"
    and q: "mcs_lock off nc m l (Some x) []"
  shows "\<exists>m'. run sh (mcs_release_lock fuel \<lparr>mcs_node_count = nc\<rparr> x l (Some sh) off) m = Result SUCCESS m' \<and>
     mcs_lock off nc m' l None [] \<and>
     (\<forall>l'. l' \<noteq> l \<longrightarrow> l' < MAX_LOCK_COUNT \<longrightarrow> mcs_entry off m' l' = mcs_entry off m l') \<and>
     (\<forall>n'. n' \<noteq> x \<longrightarrow> mcs_node off m' n' = mcs_node off m n')"
proof -
  have "x < nc" "m_owner off m l = x" "m_next off m x = INVALID_NODE_ID" "m_tail off m l = x"
    using q by (simp_all add: mcs_lock_def)
  from run_mcs_release_last [OF fit l this, of fuel] show ?thesis
    by (auto simp: mcs_lock_def)
qed

lemma mcs_release_next:
  assumes fit: "lines_fit sh nc off" and l: "l < MAX_LOCK_COUNT"
    and q: "mcs_lock off nc m l (Some x) (y # W)"
  shows "\<exists>m'. run sh (mcs_release_lock fuel \<lparr>mcs_node_count = nc\<rparr> x l (Some sh) off) m = Result SUCCESS m' \<and>
     mcs_lock off nc m' l (Some y) W \<and>
     (\<forall>l'. l' \<noteq> l \<longrightarrow> l' < MAX_LOCK_COUNT \<longrightarrow> mcs_entry off m' l' = mcs_entry off m l') \<and>
     (\<forall>n'. n' \<noteq> x \<longrightarrow> n' \<noteq> y \<longrightarrow> mcs_node off m' n' = mcs_node off m n')"
proof -
  have "distinct (x # y # W)" using q by (simp add: mcs_lock_def)
  then have yx: "y \<noteq> x" by auto
  have 0: "x < nc" "m_owner off m l = x" "m_next off m x = y" "y < nc"
    using q by (simp_all add: mcs_lock_def)
  obtain m' where m': "run sh (mcs_release_lock fuel \<lparr>mcs_node_count = nc\<rparr> x l (Some sh) off) m = Result SUCCESS m'"
      "mcs_entry off m' l = (mcs_entry off m l)\<lparr>head_node := y, mcs_owner := y\<rparr>"
      "\<forall>l'. l' \<noteq> l \<longrightarrow> l' < MAX_LOCK_COUNT \<longrightarrow> mcs_entry off m' l' = mcs_entry off m l'"
      "mcs_node off m' y = (mcs_node off m y)\<lparr>locked := 0\<rparr>"
      "\<forall>n'. n' \<noteq> x \<longrightarrow> n' \<noteq> y \<longrightarrow> mcs_node off m' n' = mcs_node off m n'"
    using run_mcs_release_pass [OF fit l 0 yx, of fuel] by blast
  have same: "m_next off m' z = m_next off m z" "m_waiting off m' z = m_waiting off m z"
    if "z \<in> set (y # W)" for z
    using m'(4,5) q that by (cases "z = y"; auto simp: mcs_lock_def)+
  have "mcs_chain off m (y # W)"
    using q by (simp add: mcs_lock_def)
  then have "mcs_chain off m' (y # W)"
    using mcs_chain_cong [of "y # W" off m' m] same(1) by simp
  moreover have "m_locked off m' z = m_locked off m z" if "z \<in> set W" for z
    using m'(5) q that by (auto simp: mcs_lock_def)
  ultimately have "mcs_lock off nc m' l (Some y) W"
    using q m'(2,4) same(2) by (auto simp: mcs_lock_def)
  then show ?thesis using m' by blast
qed

section \<open>The service\<close>

definition mcs_impl :: "SharedMemoryRegion \<Rightarrow> u32 \<Rightarrow> ShmOffset \<Rightarrow> mem \<Rightarrow> service \<Rightarrow> bool" where
  "mcs_impl sh nc off m s \<longleftrightarrow> lines_fit sh nc off \<and>
     (\<forall>l < MAX_LOCK_COUNT. \<exists>W. set W = waiters s l \<and> mcs_lock off nc m l (holder s l) W)"

text \<open>
  A node has one queue node for all locks: it may ask for a lock only while it neither waits
  for nor holds any.
\<close>

definition mcs_may_request :: "mem \<Rightarrow> service \<Rightarrow> NodeId \<Rightarrow> LockId \<Rightarrow> bool" where
  "mcs_may_request m s n l \<longleftrightarrow>
     (\<forall>l' < MAX_LOCK_COUNT. n \<notin> waiters s l' \<and> holder s l' \<noteq> Some n)"

lemma mcs_impl_lock:
  assumes "mcs_impl sh nc off m s" and "l < MAX_LOCK_COUNT"
  obtains W where "set W = waiters s l" and "mcs_lock off nc m l (holder s l) W"
  using assms by (auto simp: mcs_impl_def)

lemma mcs_impl_step:
  assumes "mcs_impl sh nc off m s" and l: "l < MAX_LOCK_COUNT"
    and "mcs_lock off nc m' l (holder s' l) W'" and "set W' = waiters s' l"
    and "\<forall>l'. l' \<noteq> l \<longrightarrow> l' < MAX_LOCK_COUNT \<longrightarrow> mcs_entry off m' l' = mcs_entry off m l'"
    and "\<forall>n. n \<notin> N \<longrightarrow> mcs_node off m' n = mcs_node off m n"
    and "\<And>n l'. n \<in> N \<Longrightarrow> l' \<noteq> l \<Longrightarrow> l' < MAX_LOCK_COUNT \<Longrightarrow> n \<notin> waiters s l' \<and> holder s l' \<noteq> Some n"
    and "\<And>l'. l' \<noteq> l \<Longrightarrow> holder s' l' = holder s l' \<and> waiters s' l' = waiters s l'"
  shows "mcs_impl sh nc off m' s'"
proof -
  have "\<exists>W. set W = waiters s' l' \<and> mcs_lock off nc m' l' (holder s' l') W" if l': "l' < MAX_LOCK_COUNT" for l'
  proof (cases "l' = l")
    case True
    then show ?thesis using assms(3,4) by blast
  next
    case False
    obtain W where W: "set W = waiters s l'" "mcs_lock off nc m l' (holder s l') W"
      using mcs_impl_lock [OF assms(1) l'] by blast
    have "mcs_lock off nc m' l' (holder s l') W"
    proof (rule mcs_lock_frame [OF W(2)])
      show "mcs_entry off m' l' = mcs_entry off m l'" using assms(5) False l' by simp
      show "mcs_node off m' n = mcs_node off m n" if "n \<in> set (members (holder s l') W)" for n
        using assms(6) assms(7) [OF _ False l', of n] that W(1)
        by (auto simp: members_def split: option.splits)
    qed
    then show ?thesis using W(1) assms(8) [OF False] by auto
  qed
  then show ?thesis
    using assms(1) by (simp add: mcs_impl_def)
qed

text \<open>The queue nodes of the members of one lock are in no other queue.\<close>

lemma mcs_members_elsewhere:
  assumes "mcs_impl sh nc off m s" and "mcs_lock off nc m l h W" and "n \<in> set (members h W)"
    and "l' \<noteq> l" and "l' < MAX_LOCK_COUNT"
  shows "n \<notin> waiters s l' \<and> holder s l' \<noteq> Some n"
proof -
  obtain W' where W': "set W' = waiters s l'" "mcs_lock off nc m l' (holder s l') W'"
    using mcs_impl_lock [OF assms(1,5)] by blast
  have "m_waiting off m n = l" using assms(2,3) by (simp add: mcs_lock_def)
  moreover have "m_waiting off m n = l'" if "n \<in> set (members (holder s l') W')"
    using W'(2) that by (simp add: mcs_lock_def)
  ultimately have "n \<notin> set (members (holder s l') W')" using assms(4) by auto
  then show ?thesis using W'(1) by (auto simp: members_def split: option.splits)
qed

text \<open>What \<open>check_grant\<close> finds: the first waiter of a free lock.\<close>

lemma run_mcs_check_queue:
  assumes fit: "lines_fit sh nc off" and l: "l < MAX_LOCK_COUNT" and q: "mcs_lock off nc m l h W"
  shows "run sh (mcs_check_grant l (Some sh) off nc) m =
    Result (if h = None \<and> W \<noteq> [] then hd W else INVALID_NODE_ID) m"
proof (cases h)
  case None
  show ?thesis
  proof (cases W)
    case Nil
    then show ?thesis
      using None q run_mcs_check [OF fit l, of m] lines_fit_node [OF fit]
      by (auto simp: mcs_lock_def)
  next
    case (Cons r W')
    then show ?thesis
      using None q run_mcs_check [OF fit l, of m] by (simp add: mcs_lock_def)
  qed
next
  case (Some x)
  then have "m_owner off m l = x" "x < nc" using q by (simp_all add: mcs_lock_def)
  then show ?thesis
    using Some run_mcs_check [OF fit l, of m] lines_fit_node [OF fit, of x] by simp
qed

interpretation mcs: lock_live
  "McsAlgorithm \<lparr>mcs_node_count = nc\<rparr>" sh off nc "{l. l < MAX_LOCK_COUNT}" "Suc (Suc fuel)" "mcs_impl sh nc off" mcs_may_request
  for sh off nc fuel
proof unfold_locales
  fix m s n l
  assume impl: "mcs_impl sh nc off m s" and "l \<in> {l. l < MAX_LOCK_COUNT}"
  then have l: "l < MAX_LOCK_COUNT" by simp
  have fit: "lines_fit sh nc off" using impl by (simp add: mcs_impl_def)
  obtain W where W: "set W = waiters s l" "mcs_lock off nc m l (holder s l) W"
    using mcs_impl_lock [OF impl l] by blast
  note elsewhere = mcs_members_elsewhere [OF impl W(2)]
  show "\<exists>m' s'. run sh (alg_acquire_lock (Suc (Suc fuel)) (McsAlgorithm \<lparr>mcs_node_count = nc\<rparr>) n l (Some sh) off) m =
          Result SUCCESS m' \<and> mcs_impl sh nc off m' s' \<and>
          (s' = add_waiter n l s \<or> holder s l = None \<and> waiters s l = {} \<and> s' = let_in n l s)"
    if may: "mcs_may_request m s n l" and n: "n < nc"
  proof -
    have new: "n \<notin> set (members (holder s l) W)"
      using may l W(1) by (auto simp: mcs_may_request_def members_def split: option.splits)
    obtain m' where m': "run sh (mcs_acquire_lock (Suc (Suc fuel)) \<lparr>mcs_node_count = nc\<rparr> n l (Some sh) off) m = Result SUCCESS m'"
        "mcs_lock off nc m' l (holder s l) (W @ [n])"
        "\<forall>l'. l' \<noteq> l \<longrightarrow> l' < MAX_LOCK_COUNT \<longrightarrow> mcs_entry off m' l' = mcs_entry off m l'"
        "\<forall>n'. n' \<notin> insert n (set (members (holder s l) W)) \<longrightarrow> mcs_node off m' n' = mcs_node off m n'"
      using mcs_enqueue [OF fit l n _ W(2) new, of "Suc (Suc fuel)"] by auto
    have "mcs_impl sh nc off m' (add_waiter n l s)"
      using m'(2,3,4) W(1) may elsewhere
      by (intro mcs_impl_step [OF impl l, where W' = "W @ [n]" and N = "insert n (set (members (holder s l) W))"])
         (auto simp: add_waiter_def mcs_may_request_def)
    then show ?thesis using m'(1) by (auto simp: alg_acquire_lock_def)
  qed
  show "\<exists>m' s'. run sh (alg_release_lock (Suc (Suc fuel)) (McsAlgorithm \<lparr>mcs_node_count = nc\<rparr>) n l (Some sh) off) m =
          Result SUCCESS m' \<and> mcs_impl sh nc off m' s' \<and>
          (s' = let_out l s \<or> (\<exists>n' \<in> waiters s l. s' = let_in n' l s))"
    if h: "holder s l = Some n" "n < nc"
  proof (cases W)
    case Nil
    then obtain m' where m': "run sh (mcs_release_lock (Suc (Suc fuel)) \<lparr>mcs_node_count = nc\<rparr> n l (Some sh) off) m = Result SUCCESS m'"
        "mcs_lock off nc m' l None []"
        "\<forall>l'. l' \<noteq> l \<longrightarrow> l' < MAX_LOCK_COUNT \<longrightarrow> mcs_entry off m' l' = mcs_entry off m l'"
        "\<forall>n'. n' \<notin> {n} \<longrightarrow> mcs_node off m' n' = mcs_node off m n'"
      using mcs_release_empty [OF fit l, of m n "Suc (Suc fuel)"] W(2) h(1) by auto
    have "mcs_impl sh nc off m' (let_out l s)"
      using m'(2,3,4) W(1) Nil elsewhere h(1)
      by (intro mcs_impl_step [OF impl l, where W' = "[]" and N = "{n}"]) (auto simp: let_out_def)
    then show ?thesis using m'(1) by (auto simp: alg_release_lock_def)
  next
    case (Cons y W')
    then obtain m' where m': "run sh (mcs_release_lock (Suc (Suc fuel)) \<lparr>mcs_node_count = nc\<rparr> n l (Some sh) off) m = Result SUCCESS m'"
        "mcs_lock off nc m' l (Some y) W'"
        "\<forall>l'. l' \<noteq> l \<longrightarrow> l' < MAX_LOCK_COUNT \<longrightarrow> mcs_entry off m' l' = mcs_entry off m l'"
        "\<forall>n'. n' \<notin> {n, y} \<longrightarrow> mcs_node off m' n' = mcs_node off m n'"
      using mcs_release_next [OF fit l, of m n y W' "Suc (Suc fuel)"] W(2) h(1) by auto
    have "set W' = waiters s l - {y}"
      using W Cons h(1) by (auto simp: mcs_lock_def)
    then have "mcs_impl sh nc off m' (let_in y l s)"
      using m'(2,3,4) Cons elsewhere h(1)
      by (intro mcs_impl_step [OF impl l, where W' = W' and N = "{n, y}"]) (auto simp: let_in_def)
    moreover have "y \<in> waiters s l" using W(1) Cons by auto
    ultimately show ?thesis using m'(1) by (auto simp: alg_release_lock_def)
  qed
  let ?check = "alg_check_grant (McsAlgorithm \<lparr>mcs_node_count = nc\<rparr>) l (Some sh) off nc"
  have check: "run sh ?check m =
      Result (if holder s l = None \<and> W \<noteq> [] then hd W else INVALID_NODE_ID) m"
    by (simp add: alg_check_grant_def run_mcs_check_queue [OF fit l W(2)])
  show "\<exists>r m'. run sh ?check m = Result r m' \<and>
          (r = INVALID_NODE_ID \<and> mcs_impl sh nc off m' s \<or>
           r \<noteq> INVALID_NODE_ID \<and>
           (\<exists>m''. run sh (alg_grant_lock (McsAlgorithm \<lparr>mcs_node_count = nc\<rparr>) r l (Some sh) off) m' =
                Result SUCCESS m'' \<and>
              (holder s l = Some r \<and> mcs_impl sh nc off m'' s \<or>
               holder s l = None \<and> r \<in> waiters s l \<and> mcs_impl sh nc off m'' (let_in r l s))))"
  proof (cases "holder s l = None \<and> W \<noteq> []")
    case True
    then obtain r W' where r: "W = r # W'" by (cases W) auto
    then obtain m' where m': "run sh (mcs_grant_lock \<lparr>mcs_node_count = nc\<rparr> r l (Some sh) off) m = Result SUCCESS m'"
        "mcs_lock off nc m' l (Some r) W'"
        "\<forall>l'. l' \<noteq> l \<longrightarrow> l' < MAX_LOCK_COUNT \<longrightarrow> mcs_entry off m' l' = mcs_entry off m l'"
        "\<forall>n'. n' \<notin> {r} \<longrightarrow> mcs_node off m' n' = mcs_node off m n'"
      using mcs_grant_head [OF fit l, of m r W'] W(2) True by auto
    have "set W' = waiters s l - {r}" "r < nc"
      using W r True by (auto simp: mcs_lock_def)
    then have "mcs_impl sh nc off m' (let_in r l s)" "r \<noteq> INVALID_NODE_ID"
      using m'(2,3,4) r elsewhere True lines_fit_node [OF fit]
      by (auto intro!: mcs_impl_step [OF impl l, where W' = W' and N = "{r}"] simp: let_in_def)
    moreover have "r \<in> waiters s l" using W(1) r by auto
    ultimately show ?thesis
      using check True r m'(1) by (auto simp: alg_grant_lock_def)
  next
    case False
    then show ?thesis using check impl by auto
  qed
  show "\<exists>r m'. run sh ?check m = Result r m' \<and> r \<noteq> INVALID_NODE_ID"
    if free: "holder s l = None" "waiters s l \<noteq> {}"
  proof -
    obtain r W' where r: "W = r # W'" using W(1) free(2) by (cases W) auto
    then have "r \<noteq> INVALID_NODE_ID"
      using W(2) free(1) lines_fit_node [OF fit, of r] by (simp add: mcs_lock_def)
    then show ?thesis using check free(1) r by simp
  qed
  show "run sh (tt_granted tt l) m = Result (holder s l = Some n) m"
    if n: "n < nc" and mem: "n \<in> waiters s l \<or> holder s l = Some n"
      and tt: "client_lock (McsAlgorithm \<lparr>mcs_node_count = nc\<rparr>) sh nc off n tt" for tt
  proof -
    have "m_waiting off m n = l"
      using W mem by (auto simp: mcs_lock_def members_def split: option.splits)
    moreover have "m_locked off m n = 2 \<or> m_locked off m n = 0 \<longleftrightarrow> holder s l = Some n"
      using W mem by (auto simp: mcs_lock_def members_def split: option.splits)
    ultimately show ?thesis using run_tt_granted_mcs [OF fit l n tt, of m] by simp
  qed
qed

section \<open>Initialisation\<close>

lemma run_mcs_init_entries:
  assumes fit: "lines_fit sh nc off" and "\<forall>l \<in> set ls. l < MAX_LOCK_COUNT"
  shows "\<exists>m'. run sh (mcs_init_entries sh off ls) m = Result () m' \<and>
    (\<forall>l < MAX_LOCK_COUNT. mcs_entry off m' l =
       (if l \<in> set ls
        then \<lparr>tail_node = INVALID_NODE_ID, head_node = INVALID_NODE_ID, mcs_owner = INVALID_NODE_ID\<rparr>
        else mcs_entry off m l)) \<and>
    (\<forall>n. mcs_node off m' n = mcs_node off m n)"
  using assms(2)
proof (induction ls arbitrary: m)
  case Nil
  then show ?case by simp
next
  case (Cons l ls)
  then have l: "l < MAX_LOCK_COUNT" and ls: "\<forall>l \<in> set ls. l < MAX_LOCK_COUNT" by simp_all
  define m1 where "m1 = m(ecell off l 0 := INVALID_NODE_ID, ecell off l 4 := INVALID_NODE_ID,
                          ecell off l 8 := INVALID_NODE_ID)"
  have "run sh (mcs_init_entries sh off (l # ls)) m = run sh (mcs_init_entries sh off ls) m1"
    using l by (simp add: mcs_run_simps mcs_ptrs [OF fit] m1_def)
  moreover have "mcs_entry off m1 l' = (if l' = l
      then \<lparr>tail_node = INVALID_NODE_ID, head_node = INVALID_NODE_ID, mcs_owner = INVALID_NODE_ID\<rparr>
      else mcs_entry off m l')" "mcs_node off m1 n = mcs_node off m n" for l' n
    using l by (auto simp: m1_def mcs_entry_def mcs_node_def layout_simps)
  ultimately show ?case
    using Cons.IH [OF ls, of m1] by auto
qed

lemma run_mcs_init_nodes:
  assumes fit: "lines_fit sh nc off" and "\<forall>n \<in> set ns. n < nc"
  shows "\<exists>m'. run sh (mcs_init_nodes sh off ns) m = Result () m' \<and>
    (\<forall>l < MAX_LOCK_COUNT. mcs_entry off m' l = mcs_entry off m l)"
  using assms(2)
proof (induction ns arbitrary: m)
  case Nil
  then show ?case by simp
next
  case (Cons n ns)
  then have n: "n < nc" and ns: "\<forall>n \<in> set ns. n < nc" by simp_all
  define m1 where "m1 = m(ncell off n 8 := INVALID_LOCK_ID)"
  have "run sh (mcs_init_nodes sh off (n # ns)) m = run sh (mcs_init_nodes sh off ns) m1"
    using n by (simp add: mcs_run_simps mcs_ptrs [OF fit] m1_def)
  moreover have "mcs_entry off m1 l = mcs_entry off m l" if "l < MAX_LOCK_COUNT" for l
    using that by (simp add: m1_def mcs_entry_def layout_simps)
  ultimately show ?case
    using Cons.IH [OF ns, of m1] by auto
qed

lemma run_mcs_initialize:
  assumes fit: "lines_fit sh nc off"
  shows "\<exists>m'. run sh (mcs_initialize self (Some sh) off nc) m =
           Result (SUCCESS, self\<lparr>mcs_node_count := nc\<rparr>) m' \<and>
    (\<forall>l < MAX_LOCK_COUNT. mcs_entry off m' l =
       \<lparr>tail_node = INVALID_NODE_ID, head_node = INVALID_NODE_ID, mcs_owner = INVALID_NODE_ID\<rparr>)"
proof -
  have nc: "nc \<noteq> 0" "\<not> MAX_NODE_COUNT < nc" "nc \<le> MAX_NODE_COUNT"
    using fit by (auto simp: lines_fit_def)
  have sz: "unat (mcs_get_state_size nc) = lines_size nc"
    using lines_state_size [OF nc(3)] by (simp add: mcs_get_state_size_def)
  let ?m0 = "zero_cells off (lines_size nc) m"
  obtain m1 where m1: "run sh (mcs_init_entries sh off (u32_upto MAX_LOCK_COUNT)) ?m0 = Result () m1"
      "\<forall>l < MAX_LOCK_COUNT. mcs_entry off m1 l =
         \<lparr>tail_node = INVALID_NODE_ID, head_node = INVALID_NODE_ID, mcs_owner = INVALID_NODE_ID\<rparr>"
    using run_mcs_init_entries [OF fit, of "u32_upto MAX_LOCK_COUNT" ?m0] by auto
  obtain m2 where m2: "run sh (mcs_init_nodes sh off (u32_upto nc)) m1 = Result () m2"
      "\<forall>l < MAX_LOCK_COUNT. mcs_entry off m2 l = mcs_entry off m1 l"
    using run_mcs_init_nodes [OF fit, of "u32_upto nc" m1] by auto
  have "run sh (mcs_initialize self (Some sh) off nc) m = Result (SUCCESS, self\<lparr>mcs_node_count := nc\<rparr>) m2"
    using nc lines_base [OF fit] m1(1) m2(1) sz
    by (simp add: mcs_initialize_def Let_def prog_simps)
  then show ?thesis using m1(2) m2(2) by auto
qed

lemma mcs_impl_new:
  assumes "lines_fit sh nc off"
    and "\<forall>l < MAX_LOCK_COUNT. mcs_entry off m l =
       \<lparr>tail_node = INVALID_NODE_ID, head_node = INVALID_NODE_ID, mcs_owner = INVALID_NODE_ID\<rparr>"
  shows "mcs_impl sh nc off m new_service"
  using assms by (auto simp: mcs_impl_def new_service_def mcs_lock_def intro!: exI [of _ "[]"])

section \<open>Properties\<close>

text \<open>
  A memory in which node 0 waits for lock 3 with node 1 behind it, and one in which node 0
  has been granted it.
\<close>

definition mcs_demo_waiting :: mem where
  "mcs_demo_waiting = (\<lambda>_. - 1)
     (ecell 0 3 0 := 1, ecell 0 3 4 := 0, ncell 0 0 0 := 1, ncell 0 0 4 := 1, ncell 0 0 8 := 3,
      ncell 0 1 4 := 1, ncell 0 1 8 := 3)"

definition mcs_demo_held :: mem where
  "mcs_demo_held = mcs_demo_waiting(ecell 0 3 8 := 0, ncell 0 0 4 := 2)"

lemma demo_bounds: "(3 :: u32) < MAX_LOCK_COUNT" "(0 :: u32) < 2" "(1 :: u32) < 2"
  by (simp_all add: MAX_LOCK_COUNT_def)

lemma mcs_demo_queues:
  "mcs_lock 0 2 mcs_demo_waiting 3 None [0, 1]" "mcs_lock 0 2 mcs_demo_held 3 (Some 0) [1]"
  using demo_bounds
  by (simp_all add: mcs_lock_def mcs_entry_def mcs_node_def mcs_demo_waiting_def mcs_demo_held_def
      layout_simps INVALID_NODE_ID_def)

text \<open>
  \<open>acquire_lock\<close> of the MCS algorithm enqueues: if the shared memory represents, for a lock,
  a holder \<open>h\<close> and the waiting nodes \<open>W\<close> in order, and the caller is not among them, the call
  returns \<open>SUCCESS\<close> after at most two attempts to swap the tail and the memory represents the
  same holder and \<open>W\<close> with the caller at the end; other locks and nodes are untouched.
\<close>

theorem mcs_acquire_enqueues:
  assumes "lines_fit sh nc off" and "l < MAX_LOCK_COUNT" and "n < nc" and "2 \<le> fuel"
    and "mcs_lock off nc m l h W" and "n \<notin> set W" and "h \<noteq> Some n"
  shows "\<exists>m'. run sh (mcs_acquire_lock fuel \<lparr>mcs_node_count = nc\<rparr> n l (Some sh) off) m = Result SUCCESS m' \<and>
     mcs_lock off nc m' l h (W @ [n]) \<and>
     (\<forall>l'. l' \<noteq> l \<longrightarrow> l' < MAX_LOCK_COUNT \<longrightarrow> mcs_entry off m' l' = mcs_entry off m l') \<and>
     (\<forall>n'. n' \<noteq> n \<longrightarrow> n' \<notin> set W \<longrightarrow> h \<noteq> Some n' \<longrightarrow> mcs_node off m' n' = mcs_node off m n')"
proof -
  have "n \<notin> set (members h W)" using assms(6,7) by (auto simp: members_def split: option.splits)
  from mcs_enqueue [OF assms(1-5) this] show ?thesis
    by (fastforce simp: members_def split: option.splits)
qed

theorem mcs_acquire_enqueues_witness:
  "\<exists>m'. run demo_region (mcs_acquire_lock 2 \<lparr>mcs_node_count = 2\<rparr> 1 3 (Some demo_region) 0) (\<lambda>_. - 1) =
          Result SUCCESS m' \<and> mcs_lock 0 2 m' 3 None [1]"
proof -
  have "mcs_lock 0 2 (\<lambda>_. - 1) 3 None []"
    by (simp add: mcs_lock_def mcs_entry_def INVALID_NODE_ID_def)
  from mcs_acquire_enqueues [OF demo_fit(1) demo_bounds(1,3) _ this, of 2] show ?thesis by auto
qed

text \<open>
  C28. \<open>release_lock\<close> of the MCS algorithm by the holder hands the lock to the first waiter: it
  returns \<open>SUCCESS\<close> without waiting, the first of the waiting nodes becomes the holder and sees
  the grant in its poll, and the others keep their order.
\<close>

theorem mcs_release_hands_over:
  assumes "lines_fit sh nc off" and "l < MAX_LOCK_COUNT"
    and "mcs_lock off nc m l (Some x) (y # W)"
    and "client_lock (McsAlgorithm \<lparr>mcs_node_count = nc\<rparr>) sh nc off y tt"
  shows "\<exists>m'. run sh (mcs_release_lock fuel \<lparr>mcs_node_count = nc\<rparr> x l (Some sh) off) m = Result SUCCESS m' \<and>
     mcs_lock off nc m' l (Some y) W \<and> run sh (tt_granted tt l) m' = Result True m'"
proof -
  obtain m' where m': "run sh (mcs_release_lock fuel \<lparr>mcs_node_count = nc\<rparr> x l (Some sh) off) m = Result SUCCESS m'"
      "mcs_lock off nc m' l (Some y) W"
    using mcs_release_next [OF assms(1-3), of fuel] by blast
  then have "y < nc" "m_waiting off m' y = l" "m_locked off m' y = 0 \<or> m_locked off m' y = 2"
    by (simp_all add: mcs_lock_def)
  then show ?thesis
    using m' run_tt_granted_mcs [OF assms(1,2) _ assms(4), of m'] by auto
qed

theorem mcs_release_hands_over_witness:
  "\<exists>m'. run demo_region (mcs_release_lock 0 \<lparr>mcs_node_count = 2\<rparr> 0 3 (Some demo_region) 0) mcs_demo_held =
          Result SUCCESS m' \<and> mcs_lock 0 2 m' 3 (Some 1) []"
proof -
  from mcs_release_hands_over [OF demo_fit(1) demo_bounds(1) mcs_demo_queues(2) demo_lock_client, of 0]
  show ?thesis by blast
qed

text \<open>
  The manager serves the MCS queue first come, first served: for a lock that nobody holds,
  \<open>check_grant\<close> returns the first waiting node, and \<open>grant_lock\<close> of it makes it the holder and
  keeps the order of the others; for a held or unwanted lock \<open>check_grant\<close> returns
  \<open>INVALID_NODE_ID\<close> and changes nothing.
\<close>

theorem mcs_manager_fifo:
  assumes "lines_fit sh nc off" and "l < MAX_LOCK_COUNT" and "mcs_lock off nc m l h W"
  shows "run sh (scan_lock (McsAlgorithm \<lparr>mcs_node_count = nc\<rparr>) (Some sh) off nc l) m =
           Result ERROR_BUSY m \<and> (h \<noteq> None \<or> W = []) \<or>
         (\<exists>r W' m'. h = None \<and> W = r # W' \<and>
            run sh (scan_lock (McsAlgorithm \<lparr>mcs_node_count = nc\<rparr>) (Some sh) off nc l) m = Result SUCCESS m' \<and>
            mcs_lock off nc m' l (Some r) W')"
proof (cases "h = None \<and> W \<noteq> []")
  case True
  then obtain r W' where r: "W = r # W'" by (cases W) auto
  then have "r \<noteq> INVALID_NODE_ID"
    using assms(3) True lines_fit_node [OF assms(1), of r] by (simp add: mcs_lock_def)
  moreover obtain m' where "run sh (mcs_grant_lock \<lparr>mcs_node_count = nc\<rparr> r l (Some sh) off) m = Result SUCCESS m'"
      "mcs_lock off nc m' l (Some r) W'"
    using mcs_grant_head [OF assms(1,2), of m r W'] assms(3) True r by auto
  ultimately show ?thesis
    using True r run_mcs_check_queue [OF assms]
    by (simp add: scan_lock_def alg_check_grant_def alg_grant_lock_def run_bind)
next
  case False
  then show ?thesis
    using run_mcs_check_queue [OF assms] by (auto simp: scan_lock_def alg_check_grant_def run_bind)
qed

theorem mcs_manager_fifo_witness:
  "\<exists>m'. run demo_region (scan_lock (McsAlgorithm \<lparr>mcs_node_count = 2\<rparr>) (Some demo_region) 0 2 3)
          mcs_demo_waiting = Result SUCCESS m' \<and> mcs_lock 0 2 m' 3 (Some 0) [1]"
  using mcs_manager_fifo [OF demo_fit(1) demo_bounds(1) mcs_demo_queues(1)] by auto

text \<open>
  Under the MCS algorithm one pass of the manager leaves no lock waiting: from any memory
  that represents the queues, \<open>run_single_scan\<close> returns, the memory still represents them,
  every lock below \<open>max_locks\<close> that some node waited for has a holder, and holders and waiters
  change only by letting a waiter into a lock that was free.
\<close>

theorem mcs_scan_serves:
  assumes "mcs_impl sh nc off m s" and "manager_ready (McsAlgorithm \<lparr>mcs_node_count = nc\<rparr>) sh nc off lm"
  shows "\<exists>lm' m' s'. run sh (run_single_scan lm) m = Result lm' m' \<and> mcs_impl sh nc off m' s' \<and>
    scanned {l. l < lm_max_locks lm} s s' \<and>
    (\<forall>l < lm_max_locks lm. waiters s l \<noteq> {} \<longrightarrow> holder s' l \<noteq> None)"
proof -
  have "{l. l < lm_max_locks lm} \<subseteq> {l. l < MAX_LOCK_COUNT}"
    using assms(2) by (auto simp: manager_ready_def)
  from mcs.single_scan_serves [OF assms this] show ?thesis by blast
qed

lemma mcs_demo_impl:
  "mcs_impl demo_region 2 0 mcs_demo_waiting
     \<lparr>holder = (\<lambda>_. None), waiters = (\<lambda>_. {})(3 := {0, 1})\<rparr>"
proof -
  have "mcs_lock 0 2 mcs_demo_waiting l None []" if "l \<noteq> 3" "l < MAX_LOCK_COUNT" for l
    using that demo_bounds
    by (simp add: mcs_lock_def mcs_entry_def mcs_demo_waiting_def layout_simps INVALID_NODE_ID_def)
  then have "\<exists>W. set W = ((\<lambda>_. {})(3 := {0, 1})) l \<and> mcs_lock 0 2 mcs_demo_waiting l None W"
    if "l < MAX_LOCK_COUNT" for l
    using mcs_demo_queues(1) that
    by (cases "l = 3") (auto intro: exI [of _ "[0, 1]"] exI [of _ "[]"])
  then show ?thesis
    using demo_fit(1) by (simp add: mcs_impl_def)
qed

theorem mcs_scan_serves_witness:
  "\<exists>lm' m' s'. run demo_region
       (run_single_scan ((demo_manager (McsAlgorithm \<lparr>mcs_node_count = 2\<rparr>))\<lparr>lm_max_locks := 4\<rparr>))
       mcs_demo_waiting = Result lm' m' \<and> mcs_impl demo_region 2 0 m' s' \<and> holder s' 3 \<noteq> None"
proof -
  have "manager_ready (McsAlgorithm \<lparr>mcs_node_count = 2\<rparr>) demo_region 2 0
      ((demo_manager (McsAlgorithm \<lparr>mcs_node_count = 2\<rparr>))\<lparr>lm_max_locks := 4\<rparr>)"
    by (simp add: manager_ready_def demo_manager_def new_lock_manager_def MAX_LOCK_COUNT_def)
  from mcs_scan_serves [OF mcs_demo_impl this] show ?thesis by fastforce
qed

text \<open>
  An acquisition that fails under the MCS algorithm does not withdraw its request: while
  another node holds the lock, the global part of \<open>TwoTierLock::acquire\<close> returns its error,
  but the node is still in the queue, at its end, and will be handed the lock later.
\<close>

theorem mcs_failed_acquire_stays_queued:
  assumes "lines_fit sh nc off" and "l < MAX_LOCK_COUNT" and "n < nc" and "2 \<le> fuel"
    and "mcs_lock off nc m l (Some h) W" and "n \<notin> set W" and "n \<noteq> h"
    and "client_lock (McsAlgorithm \<lparr>mcs_node_count = nc\<rparr>) sh nc off n tt"
    and "poll_ends fuel clk timeout"
  shows "\<exists>m'. run sh (tt_global_acquire fuel tt (McsAlgorithm \<lparr>mcs_node_count = nc\<rparr>) clk l timeout) m =
           Result (poll_failure timeout) m' \<and> mcs_lock off nc m' l (Some h) (W @ [n])"
proof -
  have tt: "tt_node_id tt = n" "tt_shm tt = Some sh" "tt_state_offset tt = off"
    using assms(8) by (simp_all add: client_lock_def)
  obtain m' where m': "run sh (mcs_acquire_lock fuel \<lparr>mcs_node_count = nc\<rparr> n l (Some sh) off) m = Result SUCCESS m'"
      "mcs_lock off nc m' l (Some h) (W @ [n])"
    using mcs_enqueue [OF assms(1-5)] assms(6,7) by auto
  then have "m_locked off m' n = 1" "m_owner off m' l = h"
    by (simp_all add: mcs_lock_def)
  then have "run sh (tt_granted tt l) m' = Result False m'"
      and rel: "run sh (mcs_release_lock fuel \<lparr>mcs_node_count = nc\<rparr> n l (Some sh) off) m' = Result ERROR_NOT_OWNER m'"
    using run_tt_granted_mcs [OF assms(1-3,8), of m'] run_mcs_release_other [OF assms(1-3), of m' fuel] assms(7)
    by simp_all
  from run_poll_not_granted [OF this(1) assms(9)]
  show ?thesis
    using tt m' rel
    by (simp add: tt_global_acquire_def alg_acquire_lock_def alg_release_lock_def run_bind poll_failure_def)
qed

theorem mcs_failed_acquire_stays_queued_witness:
  "\<exists>m'. run demo_region (tt_global_acquire 8 (demo_lock (McsAlgorithm \<lparr>mcs_node_count = 2\<rparr>) 1)
          (McsAlgorithm \<lparr>mcs_node_count = 2\<rparr>) of_nat 3 5)
          ((\<lambda>_. - 1)(ecell 0 3 0 := 0, ecell 0 3 4 := 0, ecell 0 3 8 := 0, ncell 0 0 4 := 2, ncell 0 0 8 := 3)) =
        Result ERROR_TIMEOUT m' \<and> mcs_lock 0 2 m' 3 (Some 0) [1]"
proof -
  have q: "mcs_lock 0 2 ((\<lambda>_. - 1)(ecell 0 3 0 := 0, ecell 0 3 4 := 0, ecell 0 3 8 := 0,
             ncell 0 0 4 := 2, ncell 0 0 8 := 3)) 3 (Some 0) []"
    using demo_bounds by (simp add: mcs_lock_def mcs_entry_def mcs_node_def layout_simps INVALID_NODE_ID_def)
  have "poll_ends 8 of_nat 5"
    by (simp add: poll_ends_def) (rule exI [of _ 5], simp)
  from mcs_failed_acquire_stays_queued [OF demo_fit(1) demo_bounds(1,3) _ q _ _ demo_lock_client this]
  show ?thesis by (simp add: poll_failure_def)
qed

text \<open>
  C33. A release under the MCS algorithm can wait for ever: when another node has swapped itself
  into the tail and has not linked itself behind the holder, \<open>release_lock\<close> spins on \<open>next_node\<close>
  without a bound; if that node stops there, no amount of fuel gives a result.
\<close>

theorem mcs_release_blocks:
  assumes "lines_fit sh nc off" and "l < MAX_LOCK_COUNT" and "n < nc"
    and "mcs_owner (mcs_entry off m l) = n" and "next_node (mcs_node off m n) = INVALID_NODE_ID"
    and "tail_node (mcs_entry off m l) \<noteq> n"
  shows "run sh (mcs_release_lock fuel \<lparr>mcs_node_count = nc\<rparr> n l (Some sh) off) m = NoFuel"
proof -
  note fit = assms(1)
  have n': "n \<noteq> INVALID_NODE_ID" "\<not> nc \<le> n" "\<not> MAX_LOCK_COUNT \<le> l"
    using assms(2,3) lines_fit_node [OF fit assms(3)] by (simp_all add: not_le)
  have "run sh (mcs_await_next f (node_ptr sh off n)) m = NoFuel" for f
    using assms(3,5) by (induction f) (simp_all add: mcs_run_simps mcs_ptrs [OF fit])
  then have "run sh (bind (mcs_await_next fuel (node_ptr sh off n)) g) m = NoFuel" for g :: "u32 \<Rightarrow> LockResult prog"
    by (simp add: run_bind)
  then show ?thesis
    using n' assms(2-6)
    by (simp add: mcs_release_lock_def mcs_run_simps mcs_ptrs [OF fit])
qed

theorem mcs_release_blocks_witness:
  "run demo_region (mcs_release_lock 1000 \<lparr>mcs_node_count = 2\<rparr> 0 3 (Some demo_region) 0)
     ((\<lambda>_. - 1)(ecell 0 3 0 := 1, ecell 0 3 4 := 0, ecell 0 3 8 := 0)) = NoFuel"
  by (rule mcs_release_blocks [OF demo_fit(1) demo_bounds(1)])
     (simp_all add: mcs_entry_def mcs_node_def layout_simps MAX_LOCK_COUNT_def INVALID_NODE_ID_def)

end
