(* ===== verification/Mcs_Mutex.thy ===== *)
theory Mcs_Mutex
  imports Interleave Mcs_Protocol Mcs_Service
begin

text \<open>
  Mutual exclusion of the two-tier lock over the MCS algorithm, at the granularity of single
  memory accesses, for nodes that use one lock each and do not time out. The access trees of the
  code are shown to take only the steps of \<open>Mcs_Protocol\<close>: \<open>mcs_safe\<close> says so of a client's tree at a
  control point, \<open>mcs_manager_safe\<close> of the manager's.
\<close>

section \<open>Clients\<close>

definition load_point :: "ShmOffset \<Rightarrow> NodeId \<Rightarrow> LockId \<Rightarrow> u64 \<Rightarrow> u32 \<Rightarrow> point \<Rightarrow> point" where
  "load_point off n l a v pt =
     (case pt of
        Prep x y \<Rightarrow> if a = ecell off l mcs_tail_node \<and> v = n \<and> x \<and> y then Link n else pt
      | Waiting \<Rightarrow> if a = ncell off n mcs_locked \<and> v \<noteq> 1 then Holding else pt
      | Check_Owner \<Rightarrow>
          if a = ecell off l mcs_owner_node then if v = n then Check_Next else Prep False False else pt
      | Check_Next \<Rightarrow>
          if a = ncell off n mcs_next_node then if v = INVALID_NODE_ID then Close_Tail else Pass_Head v else pt
      | Await_Next \<Rightarrow> if a = ncell off n mcs_next_node \<and> v \<noteq> INVALID_NODE_ID then Pass_Head v else pt
      | _ \<Rightarrow> pt)"

fun store_point :: "ShmOffset \<Rightarrow> NodeId \<Rightarrow> LockId \<Rightarrow> u64 \<Rightarrow> u32 \<Rightarrow> point \<Rightarrow> point option" where
  "store_point off n l a v (Prep x y) =
     (if a = ncell off n mcs_next_node then Some (Prep (v = INVALID_NODE_ID) y)
      else if a = ncell off n mcs_locked then Some (Prep x (v = 1))
      else if a = ncell off n mcs_waiting_lock then Some (Prep x y) else None)"
| "store_point off n l a v New_Head = (if a = ecell off l mcs_head_node \<and> v = n then Some Waiting else None)"
| "store_point off n l a v (Link p) = (if a = ncell off p mcs_next_node \<and> v = n then Some Waiting else None)"
| "store_point off n l a v Clear_Head =
     (if a = ecell off l mcs_head_node \<and> v = INVALID_NODE_ID then Some Clear_Owner else None)"
| "store_point off n l a v Clear_Owner =
     (if a = ecell off l mcs_owner_node \<and> v = INVALID_NODE_ID then Some (Prep False False) else None)"
| "store_point off n l a v (Pass_Head x) =
     (if a = ecell off l mcs_head_node \<and> v = x then Some (Pass_Owner x) else None)"
| "store_point off n l a v (Pass_Owner x) =
     (if a = ecell off l mcs_owner_node \<and> v = x then Some (Pass_Grant x) else None)"
| "store_point off n l a v (Pass_Grant x) =
     (if a = ncell off x mcs_locked \<and> v = 0 then Some (Prep False False) else None)"
| "store_point off n l a v _ = None"

fun swap_point :: "NodeId \<Rightarrow> u32 \<Rightarrow> u32 \<Rightarrow> point \<Rightarrow> (point \<times> point) option" where
  "swap_point n e d (Prep True True) =
     (if d = n then Some (if e = INVALID_NODE_ID then New_Head else Link e, Prep True True) else None)"
| "swap_point n e d Close_Tail = (if e = n \<and> d = INVALID_NODE_ID then Some (Clear_Head, Await_Next) else None)"
| "swap_point n e d _ = None"

fun idle_point :: "point \<Rightarrow> bool" where
  "idle_point (Prep a b) = True"
| "idle_point _ = False"

lemma idle_point_iff: "idle_point pt \<longleftrightarrow> (\<exists>a b. pt = Prep a b)"
  by (cases pt) simp_all

text \<open>Where a node is while it asks for the lock; \<open>joined\<close>: it is in the queue and has not begun to release.\<close>

fun joined :: "point \<Rightarrow> bool" where
  "joined New_Head = True"
| "joined (Link p) = True"
| "joined Waiting = True"
| "joined Holding = True"
| "joined _ = False"

definition asking :: "point \<Rightarrow> bool" where
  "asking pt \<longleftrightarrow> idle_point pt \<or> joined pt"

lemma asking_load: "asking pt \<Longrightarrow> asking (load_point off n l a v pt)"
  by (cases pt) (auto simp: asking_def load_point_def)

lemma asking_store: "store_point off n l a v pt = Some pt' \<Longrightarrow> asking pt \<Longrightarrow> asking pt'"
  by (cases pt) (auto simp: asking_def split: if_splits)

lemma asking_swap: "swap_point n e d pt = Some (won, lost) \<Longrightarrow> asking pt \<Longrightarrow> asking won \<and> asking lost"
  by (cases "(n, e, d, pt)" rule: swap_point.cases) (auto simp: asking_def split: if_splits)

text \<open>\<open>acq\<close>: the tree is a request, which ends with \<open>SUCCESS\<close> inside; else a release.\<close>

primrec mcs_safe ::
  "bool \<Rightarrow> SharedMemoryRegion \<Rightarrow> ShmOffset \<Rightarrow> NodeId \<Rightarrow> LockId \<Rightarrow> LockResult prog \<Rightarrow> point \<Rightarrow> bool"
where
  "mcs_safe acq sh off n l (Ret r) pt = (if acq then r = SUCCESS \<and> pt = Holding else idle_point pt)"
| "mcs_safe acq sh off n l (Load p k) pt =
     (\<forall>v. mcs_safe acq sh off n l (k v) (load_point off n l (cell_of sh p) v pt))"
| "mcs_safe acq sh off n l (Store p v k) pt =
     (\<exists>pt'. store_point off n l (cell_of sh p) v pt = Some pt' \<and> mcs_safe acq sh off n l k pt')"
| "mcs_safe acq sh off n l (CompareExchange p e d k) pt =
     (cell_of sh p = ecell off l mcs_tail_node \<and>
      (\<exists>won lost. swap_point n e d pt = Some (won, lost) \<and>
         mcs_safe acq sh off n l (k True) won \<and> mcs_safe acq sh off n l (k False) lost))"
| "mcs_safe acq sh off n l (FetchAdd p v k) pt = False"
| "mcs_safe acq sh off n l (MemsetZero p x k) pt = False"
| "mcs_safe acq sh off n l (Flush p x k) pt = mcs_safe acq sh off n l k pt"
| "mcs_safe acq sh off n l (Fence k) pt = mcs_safe acq sh off n l k pt"
| "mcs_safe acq sh off n l Crash pt = True"
| "mcs_safe acq sh off n l OutOfFuel pt = True"

lemma mcs_safe_basic:
  "mcs_safe acq sh off n l (bind (atomic_load p) f) pt \<longleftrightarrow>
     (\<forall>v. mcs_safe acq sh off n l (f v) (load_point off n l (cell_of sh p) v pt))"
  "mcs_safe acq sh off n l (seq (atomic_store p v) q) pt \<longleftrightarrow>
     (\<exists>pt'. store_point off n l (cell_of sh p) v pt = Some pt' \<and> mcs_safe acq sh off n l q pt')"
  "mcs_safe acq sh off n l (seq (plain_store p v) q) pt \<longleftrightarrow>
     (\<exists>pt'. store_point off n l (cell_of sh p) v pt = Some pt' \<and> mcs_safe acq sh off n l q pt')"
  "mcs_safe acq sh off n l (bind (compare_exchange p e d) g) pt \<longleftrightarrow>
     cell_of sh p = ecell off l mcs_tail_node \<and>
     (\<exists>won lost. swap_point n e d pt = Some (won, lost) \<and>
        mcs_safe acq sh off n l (g True) won \<and> mcs_safe acq sh off n l (g False) lost)"
  "mcs_safe acq sh off n l (seq (flush_cache sh' p x) q) pt = mcs_safe acq sh off n l q pt"
  "mcs_safe acq sh off n l (seq memory_fence q) pt = mcs_safe acq sh off n l q pt"
  by (simp_all add: tree_simps)

text \<open>Pointers to records of any node, in range or not.\<close>

lemma offset_to_ptr_cell: "offset_to_ptr sh a = Some p \<Longrightarrow> cell_of sh (p + f) = a + f"
  by (auto simp: offset_to_ptr_def cell_of_def split: if_splits)

lemma mcs_safe_deref_node:
  assumes "\<And>p. (\<And>f. cell_of sh (p + f) = ncell off x f) \<Longrightarrow> cell_of sh p = ncell off x 0 \<Longrightarrow>
    mcs_safe acq sh off n l (g p) pt"
  shows "mcs_safe acq sh off n l (deref (mcs_get_node x sh off) g) pt"
proof (cases "mcs_get_node x sh off")
  case (Some p)
  have c: "cell_of sh (p + f) = ncell off x f" for f
    using offset_to_ptr_cell [OF Some [unfolded mcs_get_node_def]] by (simp add: mcs_get_node_offset_def ncell_def)
  from c [of 0] have "cell_of sh p = ncell off x 0" by simp
  with c show ?thesis using assms Some by (simp add: deref_def)
qed (simp add: deref_def)

text \<open>The code of the client is safe.\<close>

lemma mcs_swap_tail_safe:
  assumes "cell_of sh p = ecell off l mcs_tail_node"
    and "mcs_safe acq sh off n l (f INVALID_NODE_ID) New_Head"
    and "\<And>x. x \<noteq> INVALID_NODE_ID \<Longrightarrow> mcs_safe acq sh off n l (f x) (Link x)" and "n \<noteq> INVALID_NODE_ID"
  shows "mcs_safe acq sh off n l (bind (mcs_swap_tail fuel p e n) f) (Prep True True)"
proof (induction fuel arbitrary: e)
  case (Suc fuel)
  then show ?case
    using assms by (simp add: prog_assoc mcs_safe_basic load_point_def)
qed simp

lemma mcs_acquire_safe:
  assumes fit: "lines_fit sh nc off" and l: "l < MAX_LOCK_COUNT" and n: "n < nc"
    and f: "mcs_safe acq sh off n l (f SUCCESS) Waiting"
  shows "mcs_safe acq sh off n l (bind (mcs_acquire_lock fuel \<lparr>mcs_node_count = nc\<rparr> n l (Some sh) off) f) (Prep a b)"
proof -
  have link: "mcs_safe acq sh off n l (bind (deref (mcs_get_node x sh off) (\<lambda>pred.
      seq (atomic_store (pred + mcs_next_node) n) (seq (flush_cache sh pred 64) (seq memory_fence (Ret SUCCESS))))) f) (Link x)" for x
    unfolding bind_deref by (rule mcs_safe_deref_node) (simp add: prog_assoc mcs_safe_basic f)
  show ?thesis
    using l n lines_fit_node [OF fit n] f link
    by (simp add: mcs_acquire_lock_def deref_Some mcs_get_node_ptr [OF fit] mcs_get_entry_ptr [OF fit] prog_assoc
        mcs_safe_basic prog_simps layout_simps)
       (auto intro!: mcs_swap_tail_safe simp: mcs_safe_basic prog_simps prog_assoc)
qed

lemma tt_granted_mcs:
  assumes "lines_fit sh nc off" and "n < nc" and "client_lock (McsAlgorithm a) sh nc off n tt"
  shows "tt_granted tt l =
    bind (atomic_load (node_ptr sh off n + mcs_locked)) (\<lambda>v.
    bind (atomic_load (node_ptr sh off n + mcs_waiting_lock)) (\<lambda>w. Ret ((v = 2 \<or> v = 0) \<and> w = l)))"
  using assms(3) node_offset_to_ptr [OF assms(1,2)] by (simp add: tt_granted_def client_lock_def deref_Some)

lemma tt_granted_mcs_safe:
  assumes fit: "lines_fit sh nc off" and n: "n < nc" and tt: "client_lock (McsAlgorithm a) sh nc off n tt"
    and pt: "pt = Waiting \<or> pt = Holding"
    and g: "mcs_safe acq sh off n l (g True) Holding" "mcs_safe acq sh off n l (g False) Waiting"
      "mcs_safe acq sh off n l (g False) Holding"
  shows "mcs_safe acq sh off n l (bind (tt_granted tt l) g) pt"
proof -
  have "mcs_safe acq sh off n l (g ((v = 2 \<or> v = 0) \<and> w = l)) (if pt = Waiting \<and> v = 1 then Waiting else Holding)" for v w :: u32
  proof (cases "pt = Waiting \<and> v = 1")
    case True
    then have "((v = 2 \<or> v = 0) \<and> w = l) = False" by auto
    then show ?thesis using g(2) True by (simp only: if_P simp_thms)
  next
    case False
    have "mcs_safe acq sh off n l (g b) Holding" for b using g(1,3) by (cases b) simp_all
    then show ?thesis by (simp only: if_not_P [OF False])
  qed
  note all = this
  have c: "cell_of sh (node_ptr sh off n + mcs_locked) = ncell off n mcs_locked"
    "cell_of sh (node_ptr sh off n + mcs_waiting_lock) = ncell off n mcs_waiting_lock"
    "ncell off n mcs_waiting_lock \<noteq> ncell off n mcs_locked"
    by (simp_all add: prog_simps layout_simps)
  have "load_point off n l (ncell off n mcs_waiting_lock) w (load_point off n l (ncell off n mcs_locked) v pt) =
      (if pt = Waiting \<and> v = 1 then Waiting else Holding)" for v w
    using pt c(3) by (elim disjE) (simp_all add: load_point_def)
  note points = this
  show ?thesis
    unfolding tt_granted_mcs [OF fit n tt] bind_assoc mcs_safe_basic c(1,2) bind.simps points by (intro allI all)
qed

text \<open>A clock that stays below the timeout: the poll goes on until the grant comes.\<close>

lemma tt_poll_mcs_safe:
  assumes fit: "lines_fit sh nc off" and n: "n < nc" and tt: "client_lock (McsAlgorithm a) sh nc off n tt"
    and "\<forall>i. clk i < timeout" and "pt = Waiting \<or> pt = Holding"
    and "mcs_safe acq sh off n l (f SUCCESS) Holding"
  shows "mcs_safe acq sh off n l (bind (tt_poll fuel tt l timeout clk i spin) f) pt"
  using assms(5)
proof (induction fuel arbitrary: i spin pt)
  case (Suc fuel)
  have "clk i < timeout" using assms(4) by blast
  then have t: "0 < timeout" "\<not> timeout \<le> clk i"
    by (cases "timeout = 0"; simp add: not_le word_gt_0)+
  show ?case
    unfolding tt_poll.simps bind_assoc
    by (rule tt_granted_mcs_safe [OF fit n tt Suc.prems]) (simp_all add: t assms(6) Suc.IH)
qed simp

lemma tt_global_acquire_mcs_safe:
  assumes fit: "lines_fit sh nc off" and l: "l < MAX_LOCK_COUNT" and n: "n < nc"
    and tt: "client_lock (McsAlgorithm \<lparr>mcs_node_count = nc\<rparr>) sh nc off n tt" and "\<forall>i. clk i < timeout"
  shows "mcs_safe True sh off n l (tt_global_acquire fuel tt (McsAlgorithm \<lparr>mcs_node_count = nc\<rparr>) clk l timeout) (Prep a b)"
proof -
  have t: "tt_node_id tt = n" "tt_shm tt = Some sh" "tt_state_offset tt = off"
    using tt by (simp_all add: client_lock_def)
  have "mcs_safe True sh off n l (bind (poll_for_grant fuel tt clk l timeout) (\<lambda>rc. if rc \<noteq> SUCCESS then R rc else Ret SUCCESS)) Waiting" for R
    unfolding poll_for_grant_def by (rule tt_poll_mcs_safe [OF fit n tt assms(5)]) simp_all
  then show ?thesis
    unfolding tt_global_acquire_def alg_acquire_lock_def t
    by (auto intro!: mcs_acquire_safe [OF fit l n])
qed

lemma mcs_pass_safe:
  assumes fit: "lines_fit sh nc off" and l: "l < MAX_LOCK_COUNT" and n: "n < nc"
  shows "mcs_safe False sh off n l (mcs_pass_lock sh off (node_ptr sh off n) (entry_ptr sh off l) x) (Pass_Head x)"
  unfolding mcs_pass_lock_def
  by (simp add: mcs_safe_basic prog_simps layout_simps l)
     (rule mcs_safe_deref_node, simp add: mcs_safe_basic prog_simps layout_simps l)

lemma mcs_await_next_safe:
  assumes "cell_of sh p = ncell off n mcs_next_node"
    and "\<And>x. x \<noteq> INVALID_NODE_ID \<Longrightarrow> mcs_safe acq sh off n l (f x) (Pass_Head x)"
  shows "mcs_safe acq sh off n l (bind (mcs_await_next fuel p) f) Await_Next"
  using assms by (induction fuel) (auto simp: prog_assoc mcs_safe_basic load_point_def)

lemma mcs_release_safe:
  assumes fit: "lines_fit sh nc off" and l: "l < MAX_LOCK_COUNT" and n: "n < nc"
  shows "mcs_safe False sh off n l (mcs_release_lock fuel \<lparr>mcs_node_count = nc\<rparr> n l (Some sh) off) Check_Owner"
  using l n lines_fit_node [OF fit n] mcs_pass_safe [OF fit l n]
  by (simp add: mcs_release_lock_def deref_Some mcs_get_node_ptr [OF fit] mcs_get_entry_ptr [OF fit] prog_assoc
      mcs_safe_basic prog_simps layout_simps load_point_def mcs_await_next_safe not_le)

section \<open>Steps of a client\<close>

definition memory_of :: "ShmOffset \<Rightarrow> protocol_state \<Rightarrow> mem \<Rightarrow> bool" where
  "memory_of off g m \<longleftrightarrow>
     (\<forall>l < MAX_LOCK_COUNT. tail_of g l = m (ecell off l mcs_tail_node) \<and> head_of g l = m (ecell off l mcs_head_node) \<and>
        owner_of g l = m (ecell off l mcs_owner_node)) \<and>
     (\<forall>n. next_of g n = m (ncell off n mcs_next_node) \<and> locked_of g n = m (ncell off n mcs_locked))"

text \<open>The node moves as the protocol allows, and its new control point is \<open>pt\<close>.\<close>

definition moves_to :: "ShmOffset \<Rightarrow> (NodeId \<Rightarrow> LockId) \<Rightarrow> NodeId \<Rightarrow> protocol_state \<Rightarrow> mem \<Rightarrow> point \<Rightarrow> bool" where
  "moves_to off lk n g m pt \<longleftrightarrow> (\<exists>g'. (g' = g \<or> node_step lk n g g') \<and> memory_of off g' m \<and> point_of g' n = pt)"

lemma moves_to_step: "node_step lk n g g' \<Longrightarrow> memory_of off g' m \<Longrightarrow> point_of g' n = pt \<Longrightarrow> moves_to off lk n g m pt"
  by (auto simp: moves_to_def)

lemma moves_to_same: "memory_of off g m \<Longrightarrow> point_of g n = pt \<Longrightarrow> moves_to off lk n g m pt"
  by (auto simp: moves_to_def)

lemma load_point_moves:
  assumes m: "memory_of off g m" and l: "lk n = l" "l < MAX_LOCK_COUNT"
  shows "moves_to off lk n g m (load_point off n l a (m a) (point_of g n))"
proof (cases "load_point off n l a (m a) (point_of g n) = point_of g n")
  case True
  then show ?thesis using m by (intro moves_to_same) simp_all
next
  case False
  have cells: "tail_of g l = m (ecell off l mcs_tail_node)" "owner_of g l = m (ecell off l mcs_owner_node)"
    "next_of g n = m (ncell off n mcs_next_node)" "locked_of g n = m (ncell off n mcs_locked)"
    using m l by (simp_all add: memory_of_def)
  show ?thesis
  proof (cases "point_of g n")
    case (Prep x y)
    then have "x" "y" "tail_of g l = n" "load_point off n l a (m a) (point_of g n) = Link n"
      using False cells by (auto simp: load_point_def split: if_splits)
    then show ?thesis
      using Prep m l by (intro moves_to_step [OF node_step.swap_own]) (simp_all add: memory_of_def)
  next
    case Waiting
    then have "locked_of g n \<noteq> 1" "load_point off n l a (m a) (point_of g n) = Holding"
      using False cells by (auto simp: load_point_def split: if_splits)
    then show ?thesis
      using Waiting m by (intro moves_to_step [OF node_step.see_grant]) (simp_all add: memory_of_def)
  next
    case Check_Owner
    then have a: "a = ecell off l mcs_owner_node" using False by (auto simp: load_point_def split: if_splits)
    show ?thesis
    proof (cases "owner_of g l = n")
      case True
      then show ?thesis
        using Check_Owner m l a cells by (intro moves_to_step [OF node_step.is_owner]) (simp_all add: memory_of_def load_point_def)
    next
      case no: False
      then show ?thesis
        using Check_Owner m l a cells by (intro moves_to_step [OF node_step.refused]) (simp_all add: memory_of_def load_point_def)
    qed
  next
    case Check_Next
    then have a: "a = ncell off n mcs_next_node" using False by (auto simp: load_point_def split: if_splits)
    show ?thesis
    proof (cases "next_of g n = INVALID_NODE_ID")
      case True
      then show ?thesis
        using Check_Next m l a cells by (intro moves_to_step [OF node_step.no_next]) (simp_all add: memory_of_def load_point_def)
    next
      case no: False
      then show ?thesis
        using Check_Next m l a cells by (intro moves_to_step [OF node_step.some_next [OF _ refl]]) (simp_all add: memory_of_def load_point_def)
    qed
  next
    case Await_Next
    then have "next_of g n \<noteq> INVALID_NODE_ID" "load_point off n l a (m a) (point_of g n) = Pass_Head (next_of g n)"
      using False cells by (auto simp: load_point_def split: if_splits)
    then show ?thesis
      using Await_Next m l by (intro moves_to_step [OF node_step.some_next [OF _ refl]]) (simp_all add: memory_of_def)
  qed (use False in \<open>simp_all add: load_point_def\<close>)
qed

lemma memory_of_cells:
  assumes "memory_of off g m" and "l < MAX_LOCK_COUNT"
  shows "memory_of off (g\<lparr>tail_of := (tail_of g)(l := v)\<rparr>) (m(ecell off l mcs_tail_node := v))"
    and "memory_of off (g\<lparr>head_of := (head_of g)(l := v)\<rparr>) (m(ecell off l mcs_head_node := v))"
    and "memory_of off (g\<lparr>owner_of := (owner_of g)(l := v)\<rparr>) (m(ecell off l mcs_owner_node := v))"
    and "memory_of off (g\<lparr>next_of := (next_of g)(x := v)\<rparr>) (m(ncell off x mcs_next_node := v))"
    and "memory_of off (g\<lparr>locked_of := (locked_of g)(x := v)\<rparr>) (m(ncell off x mcs_locked := v))"
    and "memory_of off g (m(ncell off x mcs_waiting_lock := v))"
  using assms by (simp_all add: memory_of_def layout_simps)

lemma memory_of_ghost [simp]:
  "memory_of off (g\<lparr>point_of := pt\<rparr>) m = memory_of off g m"
  "memory_of off (g\<lparr>token_of := k\<rparr>) m = memory_of off g m"
  "memory_of off (g\<lparr>queue_of := q\<rparr>) m = memory_of off g m"
  "memory_of off (g\<lparr>scan_of := sc\<rparr>) m = memory_of off g m"
  by (simp_all add: memory_of_def)

lemma store_point_moves:
  assumes m: "memory_of off g m" and l: "lk n = l" "l < MAX_LOCK_COUNT"
    and pt: "store_point off n l a v (point_of g n) = Some pt"
  shows "moves_to off lk n g (m(a := v)) pt"
proof (cases "point_of g n")
  case (Prep x y)
  consider "a = ncell off n mcs_next_node" "pt = Prep (v = INVALID_NODE_ID) y"
    | "a = ncell off n mcs_locked" "pt = Prep x (v = 1)"
    | "a = ncell off n mcs_waiting_lock" "pt = Prep x y"
    using pt Prep by (auto split: if_splits)
  then show ?thesis
  proof cases
    case 1
    then show ?thesis
      using memory_of_cells(4) [OF m l(2)] by (intro moves_to_step [OF node_step.own_next [OF Prep]]) simp_all
  next
    case 2
    then show ?thesis
      using memory_of_cells(5) [OF m l(2)] by (intro moves_to_step [OF node_step.own_locked [OF Prep]]) simp_all
  next
    case 3
    then show ?thesis using memory_of_cells(6) [OF m l(2)] Prep by (intro moves_to_same) simp_all
  qed
next
  case New_Head
  then have "a = ecell off l mcs_head_node" "v = n" "pt = Waiting" using pt by (auto split: if_splits)
  then show ?thesis
    using memory_of_cells(2) [OF m l(2)] l by (intro moves_to_step [OF node_step.set_head [OF New_Head]]) simp_all
next
  case (Link p)
  then have "a = ncell off p mcs_next_node" "v = n" "pt = Waiting" using pt by (auto split: if_splits)
  then show ?thesis
    using memory_of_cells(4) [OF m l(2)] by (intro moves_to_step [OF node_step.set_link [OF Link]]) simp_all
next
  case Clear_Head
  then have "a = ecell off l mcs_head_node" "v = INVALID_NODE_ID" "pt = Clear_Owner" using pt by (auto split: if_splits)
  then show ?thesis
    using memory_of_cells(2) [OF m l(2)] l by (intro moves_to_step [OF node_step.clear_head [OF Clear_Head]]) simp_all
next
  case Clear_Owner
  then have "a = ecell off l mcs_owner_node" "v = INVALID_NODE_ID" "pt = Prep False False" using pt by (auto split: if_splits)
  then show ?thesis
    using memory_of_cells(3) [OF m l(2)] l by (intro moves_to_step [OF node_step.clear_owner [OF Clear_Owner]]) simp_all
next
  case (Pass_Head x)
  then have "a = ecell off l mcs_head_node" "v = x" "pt = Pass_Owner x" using pt by (auto split: if_splits)
  then show ?thesis
    using memory_of_cells(2) [OF m l(2)] l by (intro moves_to_step [OF node_step.pass_head [OF Pass_Head]]) simp_all
next
  case (Pass_Owner x)
  then have "a = ecell off l mcs_owner_node" "v = x" "pt = Pass_Grant x" using pt by (auto split: if_splits)
  then show ?thesis
    using memory_of_cells(3) [OF m l(2)] l by (intro moves_to_step [OF node_step.pass_owner [OF Pass_Owner]]) simp_all
next
  case (Pass_Grant x)
  then have "a = ncell off x mcs_locked" "v = 0" "pt = Prep False False" using pt by (auto split: if_splits)
  then show ?thesis
    using memory_of_cells(5) [OF m l(2)] by (intro moves_to_step [OF node_step.pass_grant [OF Pass_Grant]]) simp_all
qed (use pt in simp_all)

lemma swap_point_moves:
  assumes m: "memory_of off g m" and l: "lk n = l" "l < MAX_LOCK_COUNT"
    and pt: "swap_point n e d (point_of g n) = Some (won, lost)"
  shows "m (ecell off l mcs_tail_node) = e \<Longrightarrow> moves_to off lk n g (m(ecell off l mcs_tail_node := d)) won"
    and "m (ecell off l mcs_tail_node) \<noteq> e \<Longrightarrow> moves_to off lk n g m lost"
proof -
  have t: "tail_of g l = m (ecell off l mcs_tail_node)" using m l(2) by (simp add: memory_of_def)
  consider (swap) "point_of g n = Prep True True" "d = n" "won = (if e = INVALID_NODE_ID then New_Head else Link e)"
      "lost = Prep True True"
    | (close) "point_of g n = Close_Tail" "e = n" "d = INVALID_NODE_ID" "won = Clear_Head" "lost = Await_Next"
    using pt by (cases "(n, e, d, point_of g n)" rule: swap_point.cases) (auto split: if_splits)
  note cases = this
  show "moves_to off lk n g (m(ecell off l mcs_tail_node := d)) won" if e: "m (ecell off l mcs_tail_node) = e"
  proof (cases rule: cases)
    case swap
    show ?thesis
    proof (cases "e = INVALID_NODE_ID")
      case True
      then show ?thesis
        using swap e t l memory_of_cells(1) [OF m l(2), of n]
        by (intro moves_to_step [OF node_step.swap_first [OF swap(1)]]) simp_all
    next
      case False
      then show ?thesis
        using swap e t l memory_of_cells(1) [OF m l(2), of n]
        by (intro moves_to_step [OF node_step.swap_behind [OF swap(1) refl]]) simp_all
    qed
  next
    case close
    then show ?thesis
      using e t l memory_of_cells(1) [OF m l(2), of INVALID_NODE_ID]
      by (intro moves_to_step [OF node_step.close_tail [OF close(1)]]) simp_all
  qed
  show "moves_to off lk n g m lost" if e: "m (ecell off l mcs_tail_node) \<noteq> e"
  proof (cases rule: cases)
    case swap
    then show ?thesis using m by (intro moves_to_same) simp_all
  next
    case close
    then show ?thesis
      using e t l m by (intro moves_to_step [OF node_step.not_last [OF close(1)]]) simp_all
  qed
qed

lemma mcs_safe_step:
  assumes "pstep sh p m = (p', m')" and "mcs_safe acq sh off n l p (point_of g n)"
    and m: "memory_of off g m" and l: "lk n = l" "l < MAX_LOCK_COUNT"
  shows "\<exists>pt. moves_to off lk n g m' pt \<and> mcs_safe acq sh off n l p' pt \<and> (asking (point_of g n) \<longrightarrow> asking pt)"
proof -
  have same: "moves_to off lk n g m (point_of g n)" by (rule moves_to_same [OF m refl])
  have crash: ?thesis if "p' = Crash" "m' = m" using same that by auto
  show ?thesis
  proof (cases p)
    case (Load a k)
    then show ?thesis
      using assms(1,2) load_point_moves [where n = n and lk = lk, OF m l, where a = "cell_of sh a"] crash asking_load
      by (fastforce split: if_splits)
  next
    case (Store a v k)
    then show ?thesis
      using assms(1,2) store_point_moves [where n = n and lk = lk, OF m l] crash asking_store by (fastforce split: if_splits)
  next
    case (CompareExchange a e d k)
    then obtain won lost where s: "cell_of sh a = ecell off l mcs_tail_node" "swap_point n e d (point_of g n) = Some (won, lost)"
        "mcs_safe acq sh off n l (k True) won" "mcs_safe acq sh off n l (k False) lost"
      using assms(2) by auto
    show ?thesis
      using assms(1) CompareExchange s(1,3,4) swap_point_moves [where n = n and lk = lk, OF m l s(2)] crash asking_swap [OF s(2)]
      by (fastforce split: if_splits)
  qed (use assms(1,2) same in \<open>auto split: if_splits\<close>)
qed

section \<open>The manager\<close>

text \<open>What a load tells the manager; it may also ignore it.\<close>

inductive saw :: "ShmOffset \<Rightarrow> u64 \<Rightarrow> u32 \<Rightarrow> scan_point \<Rightarrow> scan_point \<Rightarrow> bool" for off :: ShmOffset where
  nothing: "saw off a v sp sp"
| free: "\<forall>l h. sp \<noteq> Granted l h \<Longrightarrow> l < MAX_LOCK_COUNT \<Longrightarrow> saw off (ecell off l mcs_owner_node) INVALID_NODE_ID sp (Saw_Free l)"
| first: "h \<noteq> INVALID_NODE_ID \<Longrightarrow> saw off (ecell off l mcs_head_node) h (Saw_Free l) (Saw_Head l h)"
| other: "\<forall>l h. sp \<noteq> Granted l h \<Longrightarrow> saw off a v sp Scanning"

primrec mcs_manager_safe ::
  "ShmOffset \<Rightarrow> SharedMemoryRegion \<Rightarrow> ('a \<Rightarrow> bool) \<Rightarrow> 'a prog \<Rightarrow> scan_point \<Rightarrow> bool"
where
  "mcs_manager_safe off sh Q (Ret r) sp = (Q r \<and> (\<forall>l h. sp \<noteq> Granted l h))"
| "mcs_manager_safe off sh Q (Load p k) sp =
     (\<forall>v. \<exists>sp'. saw off (cell_of sh p) v sp sp' \<and> mcs_manager_safe off sh Q (k v) sp')"
| "mcs_manager_safe off sh Q (Store p v k) sp =
     ((\<exists>l h. sp = Saw_Head l h \<and> cell_of sh p = ncell off h mcs_locked \<and> v = 2 \<and>
         mcs_manager_safe off sh Q k (Granted l h)) \<or>
      (\<exists>l h. sp = Granted l h \<and> cell_of sh p = ecell off l mcs_owner_node \<and> v = h \<and>
         mcs_manager_safe off sh Q k Scanning))"
| "mcs_manager_safe off sh Q (CompareExchange p e d k) sp = False"
| "mcs_manager_safe off sh Q (FetchAdd p v k) sp = False"
| "mcs_manager_safe off sh Q (MemsetZero p x k) sp = False"
| "mcs_manager_safe off sh Q (Flush p x k) sp = mcs_manager_safe off sh Q k sp"
| "mcs_manager_safe off sh Q (Fence k) sp = mcs_manager_safe off sh Q k sp"
| "mcs_manager_safe off sh Q Crash sp = True"
| "mcs_manager_safe off sh Q OutOfFuel sp = True"

lemma mcs_manager_safe_basic:
  "mcs_manager_safe off sh Q (bind (atomic_load p) f) sp \<longleftrightarrow>
     (\<forall>v. \<exists>sp'. saw off (cell_of sh p) v sp sp' \<and> mcs_manager_safe off sh Q (f v) sp')"
  "mcs_manager_safe off sh Q (seq (atomic_store p v) q) sp \<longleftrightarrow>
     ((\<exists>l h. sp = Saw_Head l h \<and> cell_of sh p = ncell off h mcs_locked \<and> v = 2 \<and>
         mcs_manager_safe off sh Q q (Granted l h)) \<or>
      (\<exists>l h. sp = Granted l h \<and> cell_of sh p = ecell off l mcs_owner_node \<and> v = h \<and>
         mcs_manager_safe off sh Q q Scanning))"
  "mcs_manager_safe off sh Q (seq (flush_cache sh' p n) q) sp = mcs_manager_safe off sh Q q sp"
  "mcs_manager_safe off sh Q (seq memory_fence q) sp = mcs_manager_safe off sh Q q sp"
  by (simp_all add: tree_simps)

lemma mcs_grant_manager_safe:
  assumes fit: "lines_fit sh nc off" and l: "l < MAX_LOCK_COUNT" and n: "n < nc"
    and f: "mcs_manager_safe off sh Q (f SUCCESS) Scanning"
  shows "mcs_manager_safe off sh Q (bind (mcs_grant_lock \<lparr>mcs_node_count = nc\<rparr> n l (Some sh) off) f) (Saw_Head l n)"
proof -
  have "\<not> nc \<le> n" "\<not> MAX_LOCK_COUNT \<le> l" using l n by (simp_all add: not_le)
  then show ?thesis
    using l n lines_fit_node [OF fit n] f
    by (simp add: mcs_grant_lock_def deref_Some mcs_get_node_ptr [OF fit] mcs_get_entry_ptr [OF fit] prog_assoc
        mcs_manager_safe_basic prog_simps)
qed

lemma mcs_check_manager_safe:
  assumes fit: "lines_fit sh nc off" and l: "l < MAX_LOCK_COUNT"
    and none: "mcs_manager_safe off sh Q (f INVALID_NODE_ID) Scanning"
    and some: "\<And>n. n < nc \<Longrightarrow> mcs_manager_safe off sh Q (f n) (Saw_Head l n)"
  shows "mcs_manager_safe off sh Q (bind (mcs_check_grant l (Some sh) off nc) f) Scanning"
proof -
  let ?safe = "mcs_manager_safe off sh Q"
  have wait: "\<exists>sp'. saw off a v (Saw_Head l h) sp' \<and> ?safe (bind (if c then Ret h else Ret INVALID_NODE_ID) f) sp'"
    if "h < nc" for a v h c
    using none some [OF that] saw.nothing [of off a v "Saw_Head l h"] saw.other [of "Saw_Head l h" off a v]
    by (cases c) auto
  have node: "?safe (bind (deref (mcs_get_node h sh off) (\<lambda>head_node.
      bind (atomic_load (head_node + mcs_locked)) (\<lambda>lckd.
      bind (atomic_load (head_node + mcs_waiting_lock)) (\<lambda>waiting.
        if lckd = 1 \<and> waiting = l then Ret h else Ret INVALID_NODE_ID)))) f) (Saw_Head l h)" if h: "h < nc" for h
    unfolding mcs_get_node_ptr [OF fit h] deref_Some bind_assoc mcs_manager_safe_basic
    by (intro allI exI [of _ "Saw_Head l h"] conjI saw.nothing wait [OF h])
  have head: "\<exists>sp'. saw off (cell_of sh (entry_ptr sh off l + mcs_head_node)) h (Saw_Free l) sp' \<and>
      ?safe (bind (if h = INVALID_NODE_ID then Ret INVALID_NODE_ID else if h \<ge> nc then Ret INVALID_NODE_ID
        else deref (mcs_get_node h sh off) (\<lambda>head_node.
          bind (atomic_load (head_node + mcs_locked)) (\<lambda>lckd.
          bind (atomic_load (head_node + mcs_waiting_lock)) (\<lambda>waiting.
            if lckd = 1 \<and> waiting = l then Ret h else Ret INVALID_NODE_ID)))) f) sp'" for h
  proof (cases "h = INVALID_NODE_ID \<or> h \<ge> nc")
    case True
    then show ?thesis using none saw.other [of "Saw_Free l"] by auto
  next
    case False
    then have "saw off (cell_of sh (entry_ptr sh off l + mcs_head_node)) h (Saw_Free l) (Saw_Head l h)"
      using saw.first [of h off l] by (simp add: prog_simps)
    moreover have "h < nc" using False by (simp add: not_le)
    ultimately show ?thesis using node [of h] False by (intro exI [of _ "Saw_Head l h"]) simp
  qed
  have owner: "\<exists>sp'. saw off (cell_of sh (entry_ptr sh off l + mcs_owner_node)) v Scanning sp' \<and>
      ?safe (bind (if v \<noteq> INVALID_NODE_ID then Ret INVALID_NODE_ID
        else bind (atomic_load (entry_ptr sh off l + mcs_head_node)) (\<lambda>head.
          if head = INVALID_NODE_ID then Ret INVALID_NODE_ID else if head \<ge> nc then Ret INVALID_NODE_ID
          else deref (mcs_get_node head sh off) (\<lambda>head_node.
            bind (atomic_load (head_node + mcs_locked)) (\<lambda>lckd.
            bind (atomic_load (head_node + mcs_waiting_lock)) (\<lambda>waiting.
              if lckd = 1 \<and> waiting = l then Ret head else Ret INVALID_NODE_ID))))) f) sp'" for v
  proof (cases "v = INVALID_NODE_ID")
    case True
    then have "saw off (cell_of sh (entry_ptr sh off l + mcs_owner_node)) v Scanning (Saw_Free l)"
      using saw.free [of Scanning l off] l by (simp add: prog_simps)
    then show ?thesis
      using True head by (intro exI [of _ "Saw_Free l"]) (simp add: bind_assoc mcs_manager_safe_basic del: bind.simps)
  next
    case False
    then show ?thesis using none by (intro exI [of _ Scanning]) (simp add: saw.nothing)
  qed
  have "nc \<noteq> 0" "\<not> MAX_LOCK_COUNT \<le> l" using fit l by (auto simp: lines_fit_def not_le)
  then show ?thesis
    using owner
    by (simp add: mcs_check_grant_def mcs_get_entry_ptr [OF fit l] deref_Some bind_assoc mcs_manager_safe_basic del: bind.simps)
qed

lemma mcs_scan_locks_safe:
  assumes fit: "lines_fit sh nc off" and "\<forall>l \<in> set ls. l < MAX_LOCK_COUNT"
    and "\<And>r. mcs_manager_safe off sh Q (f r) Scanning"
  shows "mcs_manager_safe off sh Q
    (bind (scan_locks (McsAlgorithm \<lparr>mcs_node_count = nc\<rparr>) (Some sh) off nc ls w st) f) Scanning"
  using assms(2)
proof (induction ls arbitrary: w st)
  case Nil
  then show ?case using assms(3) by simp
next
  case (Cons l ls)
  have IH: "mcs_manager_safe off sh Q
      (bind (scan_locks (McsAlgorithm \<lparr>mcs_node_count = nc\<rparr>) (Some sh) off nc ls w st) f) Scanning" for w st
    using Cons by simp
  have l: "l < MAX_LOCK_COUNT" using Cons.prems by simp
  show ?case
    using IH lines_fit_node [OF fit]
    by (auto simp: alg_check_grant_def alg_grant_lock_def bind_assoc
        intro!: mcs_check_manager_safe [OF fit l] mcs_grant_manager_safe [OF fit l])
qed

lemma mcs_single_scan_safe:
  assumes "lines_fit sh nc off" and "manager_ready (McsAlgorithm \<lparr>mcs_node_count = nc\<rparr>) sh nc off lm"
  shows "mcs_manager_safe off sh (manager_ready (McsAlgorithm \<lparr>mcs_node_count = nc\<rparr>) sh nc off)
    (run_single_scan lm) Scanning"
proof -
  have "\<forall>l \<in> set (u32_upto (lm_max_locks lm)). l < MAX_LOCK_COUNT"
    using assms(2) by (auto simp: manager_ready_def)
  then show ?thesis
    using assms
    by (auto simp: run_single_scan_def manager_ready_def Let_def intro!: mcs_scan_locks_safe split: prod.splits)
qed

text \<open>A step of the manager is one of the protocol.\<close>

lemma saw_step:
  assumes "saw off a (m a) (scan_of g) sp" and m: "memory_of off g m" and "protocol_inv nc lk g"
  shows "(sp = scan_of g \<or> scan_step g (g\<lparr>scan_of := sp\<rparr>))"
  using assms(1)
proof cases
  case (free l)
  then have "owner_of g l = INVALID_NODE_ID" using m by (simp add: memory_of_def)
  then show ?thesis using free scan_step.saw_free [of g l] by simp
next
  case (first l)
  then have "l < MAX_LOCK_COUNT" using assms(3) by (simp add: protocol_inv_def)
  then have "head_of g l = m a" using m first by (simp add: memory_of_def)
  then show ?thesis using first scan_step.saw_head [of g l "m a"] by simp
next
  case other
  then show ?thesis using scan_step.scan_on [of g] by simp
qed simp

lemma mcs_manager_safe_step:
  assumes "pstep sh q m = (q', m')" and "mcs_manager_safe off sh Q q (scan_of g)"
    and m: "memory_of off g m" and inv: "protocol_inv nc lk g"
  shows "\<exists>g'. (g' = g \<or> scan_step g g') \<and> memory_of off g' m' \<and> mcs_manager_safe off sh Q q' (scan_of g') \<and>
    point_of g' = point_of g"
proof (cases q)
  case (Load a k)
  show ?thesis
  proof (cases "in_bounds sh a 4")
    case True
    then have q': "q' = k (m (cell_of sh a))" "m' = m" using assms(1) Load by auto
    obtain sp where sp: "saw off (cell_of sh a) (m (cell_of sh a)) (scan_of g) sp"
        "mcs_manager_safe off sh Q (k (m (cell_of sh a))) sp"
      using assms(2) Load by auto
    from saw_step [OF sp(1) m inv] show ?thesis
    proof
      assume "sp = scan_of g"
      then show ?thesis using sp(2) q' m by (intro exI [of _ g]) simp
    next
      assume "scan_step g (g\<lparr>scan_of := sp\<rparr>)"
      then show ?thesis using sp(2) q' m by (intro exI [of _ "g\<lparr>scan_of := sp\<rparr>"]) simp
    qed
  next
    case False
    then show ?thesis using assms(1) Load m by (intro exI [of _ g]) auto
  qed
next
  case (Store a v k)
  show ?thesis
  proof (cases "in_bounds sh a 4")
    case True
    then have q': "q' = k" "m' = m(cell_of sh a := v)" using assms(1) Store by auto
    from assms(2) Store consider (grant) l h where "scan_of g = Saw_Head l h" "cell_of sh a = ncell off h mcs_locked" "v = 2"
        "mcs_manager_safe off sh Q k (Granted l h)"
      | (recorded) l h where "scan_of g = Granted l h" "cell_of sh a = ecell off l mcs_owner_node" "v = h"
        "mcs_manager_safe off sh Q k Scanning"
      by auto
    then show ?thesis
    proof cases
      case grant
      have l: "l < MAX_LOCK_COUNT" using inv grant(1) by (simp add: protocol_inv_def)
      show ?thesis
        using scan_step.write_grant [OF grant(1)] memory_of_cells(5) [OF m l, of h 2] grant q'
        by (intro exI conjI disjI2) (assumption | simp)+
    next
      case recorded
      have l: "l < MAX_LOCK_COUNT" using inv recorded(1) by (simp add: protocol_inv_def)
      show ?thesis
        using scan_step.record_owner [OF recorded(1)] memory_of_cells(3) [OF m l, of h] recorded q'
        by (intro exI conjI disjI2) (assumption | simp)+
    qed
  next
    case False
    then show ?thesis using assms(1) Store m by (intro exI [of _ g]) auto
  qed
qed (use assms in \<open>auto split: if_splits\<close>)

section \<open>The system\<close>

text \<open>
  Every node uses one lock, and no request times out: the clock of each acquisition stays below its
  timeout. Releases and scans are those of \<open>lock_protocol\<close>.
\<close>

definition steady_protocol ::
  "GlobalLockAlgorithm \<Rightarrow> u32 \<Rightarrow> ShmOffset \<Rightarrow> (NodeId \<times> LockId \<Rightarrow> SharedMemoryRegion) \<Rightarrow>
   SharedMemoryRegion \<Rightarrow> (NodeId \<Rightarrow> LockId) \<Rightarrow> (NodeId \<times> LockId, LockManager) protocol"
where
  "steady_protocol alg nc off reg mreg lk =
     (lock_protocol alg nc off reg mreg)
       \<lparr>acquisition := (\<lambda>(n, l) p. n < nc \<and> l < MAX_LOCK_COUNT \<and> l = lk n \<and>
          (\<exists>fuel tt clk timeout. client_lock alg (reg (n, l)) nc off n tt \<and> (\<forall>i. clk i < timeout) \<and>
             p = tt_global_acquire fuel tt alg clk l timeout))\<rparr>"

definition mcs_related ::
  "u32 \<Rightarrow> ShmOffset \<Rightarrow> (NodeId \<times> LockId \<Rightarrow> SharedMemoryRegion) \<Rightarrow> SharedMemoryRegion \<Rightarrow> (NodeId \<Rightarrow> LockId) \<Rightarrow>
   protocol_state \<Rightarrow> mem \<Rightarrow> bool"
where
  "mcs_related nc off reg mreg lk g m \<longleftrightarrow>
     (\<forall>t. lines_fit (reg t) nc off) \<and> lines_fit mreg nc off \<and> memory_of off g m \<and> protocol_inv nc lk g"

fun mcs_client_at ::
  "u32 \<Rightarrow> ShmOffset \<Rightarrow> (NodeId \<times> LockId \<Rightarrow> SharedMemoryRegion) \<Rightarrow> (NodeId \<Rightarrow> LockId) \<Rightarrow>
   NodeId \<times> LockId \<Rightarrow> client \<Rightarrow> protocol_state \<Rightarrow> bool"
where
  "mcs_client_at nc off reg lk (n, l) Idle g \<longleftrightarrow> (l = lk n \<longrightarrow> idle_point (point_of g n))"
| "mcs_client_at nc off reg lk (n, l) (Acquiring p) g \<longleftrightarrow>
     n < nc \<and> l < MAX_LOCK_COUNT \<and> l = lk n \<and> mcs_safe True (reg (n, l)) off n l p (point_of g n) \<and> asking (point_of g n)"
| "mcs_client_at nc off reg lk (n, l) Critical g \<longleftrightarrow>
     n < nc \<and> l < MAX_LOCK_COUNT \<and> l = lk n \<and> point_of g n = Holding"
| "mcs_client_at nc off reg lk (n, l) (Releasing p) g \<longleftrightarrow>
     n < nc \<and> l < MAX_LOCK_COUNT \<and> l = lk n \<and> mcs_safe False (reg (n, l)) off n l p (point_of g n)"

definition mcs_manager_at ::
  "u32 \<Rightarrow> ShmOffset \<Rightarrow> SharedMemoryRegion \<Rightarrow> LockManager prog \<Rightarrow> protocol_state \<Rightarrow> bool"
where
  "mcs_manager_at nc off mreg q g \<longleftrightarrow>
     mcs_manager_safe off mreg (manager_ready (McsAlgorithm \<lparr>mcs_node_count = nc\<rparr>) mreg nc off) q (scan_of g)"

lemma mcs_client_at_same:
  assumes "mcs_client_at nc off reg lk t' d g" and "\<And>x. x \<noteq> n \<Longrightarrow> point_of g' x = point_of g x" and "t' \<noteq> (n, lk n)"
  shows "mcs_client_at nc off reg lk t' d g'"
proof -
  obtain n' l' where t': "t' = (n', l')" by fastforce
  then show ?thesis using assms by (cases "n' = n"; cases d) auto
qed

lemma mcs_related_fit:
  assumes "mcs_related nc off reg mreg lk g m"
  shows "lines_fit (reg t) nc off" and "lines_fit mreg nc off" and "nc \<le> MAX_NODE_COUNT"
    and "memory_of off g m" and "protocol_inv nc lk g"
proof -
  show "lines_fit (reg t) nc off" "lines_fit mreg nc off" "memory_of off g m" "protocol_inv nc lk g"
    using assms unfolding mcs_related_def by blast+
  then show "nc \<le> MAX_NODE_COUNT" by (simp add: lines_fit_def)
qed

lemma mcs_client_move:
  assumes "client_move (steady_protocol (McsAlgorithm \<lparr>mcs_node_count = nc\<rparr>) nc off reg mreg lk) (n, l) c m c' m'"
    and rel: "mcs_related nc off reg mreg lk g m" and at: "mcs_client_at nc off reg lk (n, l) c g"
  shows "\<exists>g'. (g' = g \<or> node_step lk n g g' \<and> n < nc \<and> lk n < MAX_LOCK_COUNT \<and> l = lk n) \<and> memory_of off g' m' \<and>
    mcs_client_at nc off reg lk (n, l) c' g'"
proof -
  note fit = mcs_related_fit [OF rel]
  have tree: "\<exists>g'. (g' = g \<or> node_step lk n g g') \<and> memory_of off g' m' \<and> mcs_safe acq (reg (n, l)) off n l p' (point_of g' n) \<and>
      (asking (point_of g n) \<longrightarrow> asking (point_of g' n))"
    if "pstep (reg (n, l)) p m = (p', m')" "mcs_safe acq (reg (n, l)) off n l p (point_of g n)" "l = lk n" "l < MAX_LOCK_COUNT"
    for acq p p'
    using mcs_safe_step [OF that(1,2) fit(4)] that(3,4) by (auto simp: moves_to_def)
  from assms(1) show ?thesis
  proof (cases rule: client_move.cases)
    case (start_acquire p)
    then obtain fuel tt clk timeout where p: "n < nc" "l < MAX_LOCK_COUNT" "l = lk n"
        "client_lock (McsAlgorithm \<lparr>mcs_node_count = nc\<rparr>) (reg (n, l)) nc off n tt" "\<forall>i. clk i < timeout"
        "p = tt_global_acquire fuel tt (McsAlgorithm \<lparr>mcs_node_count = nc\<rparr>) clk l timeout"
      by (auto simp: steady_protocol_def)
    moreover obtain a b where "point_of g n = Prep a b"
      using at start_acquire p(3) by (auto simp: idle_point_iff)
    ultimately show ?thesis
      using start_acquire tt_global_acquire_mcs_safe [OF fit(1) p(2,1,4,5)] fit(4)
      by (intro exI [of _ g]) (simp add: asking_def)
  next
    case (acquire_access p p')
    then have "pstep (reg (n, l)) p m = (p', m')" by (simp add: steady_protocol_def lock_protocol_def)
    with tree [of p p' True] show ?thesis using at acquire_access by auto
  next
    case acquire_success
    then show ?thesis using at fit(4) by (intro exI [of _ g]) auto
  next
    case (acquire_failure rc)
    then show ?thesis using at by simp
  next
    case (start_release p)
    then obtain fuel tt where "client_lock (McsAlgorithm \<lparr>mcs_node_count = nc\<rparr>) (reg (n, l)) nc off n tt"
        "p = tt_global_release fuel tt (McsAlgorithm \<lparr>mcs_node_count = nc\<rparr>) l"
      by (auto simp: steady_protocol_def lock_protocol_def)
    then have p: "p = mcs_release_lock fuel \<lparr>mcs_node_count = nc\<rparr> n l (Some (reg (n, l))) off"
      by (simp add: tt_global_release_def alg_release_lock_def client_lock_def)
    have c: "n < nc" "l < MAX_LOCK_COUNT" "l = lk n" "point_of g n = Holding" using at start_release by auto
    then show ?thesis
      using start_release p mcs_release_safe [OF fit(1) c(2,1)] node_step.begin_release [OF c(4), of lk] fit(4)
      by (intro exI [of _ "g\<lparr>point_of := (point_of g)(n := Check_Owner)\<rparr>"]) simp
  next
    case (release_access p p')
    then have "pstep (reg (n, l)) p m = (p', m')" by (simp add: steady_protocol_def lock_protocol_def)
    with tree [of p p' False] show ?thesis using at release_access by auto
  next
    case (release_done rc)
    then show ?thesis using at fit(4) by (intro exI [of _ g]) simp
  qed
qed

lemma mcs_manager_move:
  assumes "manager_move (steady_protocol (McsAlgorithm \<lparr>mcs_node_count = nc\<rparr>) nc off reg mreg lk) q m q' m'"
    and rel: "mcs_related nc off reg mreg lk g m" and at: "mcs_manager_at nc off mreg q g"
  shows "\<exists>g'. (g' = g \<or> scan_step g g') \<and> memory_of off g' m' \<and> mcs_manager_at nc off mreg q' g' \<and> point_of g' = point_of g"
  using assms(1)
proof (cases rule: manager_move.cases)
  case scan_access
  then show ?thesis
    using mcs_manager_safe_step [OF _ at [unfolded mcs_manager_at_def] mcs_related_fit(4,5) [OF rel]]
    by (simp add: steady_protocol_def lock_protocol_def mcs_manager_at_def)
next
  case (scan_next lm)
  then have lm: "manager_ready (McsAlgorithm \<lparr>mcs_node_count = nc\<rparr>) mreg nc off lm" "\<forall>l h. scan_of g \<noteq> Granted l h"
    using at by (simp_all add: mcs_manager_at_def)
  then have "scan_step g (g\<lparr>scan_of := Scanning\<rparr>)" by (intro scan_step.scan_on)
  then show ?thesis
    using scan_next mcs_single_scan_safe [OF mcs_related_fit(2) [OF rel] lm(1)] mcs_related_fit(4) [OF rel]
    by (intro exI [of _ "g\<lparr>scan_of := Scanning\<rparr>"])
       (simp add: steady_protocol_def lock_protocol_def mcs_manager_at_def)
qed

interpretation mcs_system: interleaved_simulation
  "steady_protocol (McsAlgorithm \<lparr>mcs_node_count = nc\<rparr>) nc off reg mreg lk"
  "mcs_related nc off reg mreg lk" "mcs_client_at nc off reg lk" "mcs_manager_at nc off mreg"
  for nc off reg mreg lk
proof unfold_locales
  fix t c m c' m' g
  assume move: "client_move (steady_protocol (McsAlgorithm \<lparr>mcs_node_count = nc\<rparr>) nc off reg mreg lk) t c m c' m'"
    and rel: "mcs_related nc off reg mreg lk g m" and at: "mcs_client_at nc off reg lk t c g"
  obtain n l where t: "t = (n, l)" by fastforce
  note fit = mcs_related_fit [OF rel]
  from mcs_client_move [OF move [unfolded t] rel at [unfolded t]]
  obtain g' where g': "g' = g \<or> node_step lk n g g' \<and> n < nc \<and> lk n < MAX_LOCK_COUNT \<and> l = lk n"
      "memory_of off g' m'" "mcs_client_at nc off reg lk (n, l) c' g'" by blast
  have inv: "protocol_inv nc lk g'"
    using g'(1) fit(3,5) node_step_inv by blast
  have "mcs_client_at nc off reg lk t' d g'" if "t' \<noteq> t" "mcs_client_at nc off reg lk t' d g" for t' d
    using g'(1)
  proof
    assume step: "node_step lk n g g' \<and> n < nc \<and> lk n < MAX_LOCK_COUNT \<and> l = lk n"
    then have "lock_inv nc lk g (lk n)" using fit(5) by (simp add: protocol_inv_def)
    from node_step_locality(4) [OF conjunct1 [OF step] _ this] step that t show ?thesis
      by (intro mcs_client_at_same [OF that(2), of n]) auto
  qed (use that in simp)
  moreover have "mcs_manager_at nc off mreg q g'" if "mcs_manager_at nc off mreg q g" for q
    using g'(1)
  proof
    assume step: "node_step lk n g g' \<and> n < nc \<and> lk n < MAX_LOCK_COUNT \<and> l = lk n"
    then have "lock_inv nc lk g (lk n)" using fit(5) by (simp add: protocol_inv_def)
    from node_step_locality(3) [OF conjunct1 [OF step] _ this] step that show ?thesis
      by (simp add: mcs_manager_at_def)
  qed (use that in simp)
  ultimately show "\<exists>g'. mcs_related nc off reg mreg lk g' m' \<and> mcs_client_at nc off reg lk t c' g' \<and>
      (\<forall>t' d. t' \<noteq> t \<longrightarrow> mcs_client_at nc off reg lk t' d g \<longrightarrow> mcs_client_at nc off reg lk t' d g') \<and>
      (\<forall>q. mcs_manager_at nc off mreg q g \<longrightarrow> mcs_manager_at nc off mreg q g')"
    using g'(2,3) inv fit(1,2) t by (intro exI [of _ g']) (simp add: mcs_related_def)
next
  fix q m q' m' g
  assume move: "manager_move (steady_protocol (McsAlgorithm \<lparr>mcs_node_count = nc\<rparr>) nc off reg mreg lk) q m q' m'"
    and rel: "mcs_related nc off reg mreg lk g m" and at: "mcs_manager_at nc off mreg q g"
  note fit = mcs_related_fit [OF rel]
  from mcs_manager_move [OF move rel at]
  obtain g' where g': "g' = g \<or> scan_step g g'" "memory_of off g' m'" "mcs_manager_at nc off mreg q' g'" "point_of g' = point_of g"
    by blast
  have inv: "protocol_inv nc lk g'" using g'(1) fit(3,5) scan_step_inv by blast
  have "mcs_client_at nc off reg lk t d g'" if "mcs_client_at nc off reg lk t d g" for t d
    using that g'(4) by (cases t; cases d) simp_all
  then show "\<exists>g'. mcs_related nc off reg mreg lk g' m' \<and> mcs_manager_at nc off mreg q' g' \<and>
      (\<forall>t d. mcs_client_at nc off reg lk t d g \<longrightarrow> mcs_client_at nc off reg lk t d g')"
    using g'(2,3) inv fit(1,2) by (intro exI [of _ g']) (simp add: mcs_related_def)
qed

section \<open>Mutual exclusion\<close>

text \<open>What every reachable state is related to.\<close>

lemma mcs_reached:
  assumes "\<forall>t. lines_fit (reg t) nc off" and "lines_fit mreg nc off"
    and "manager_ready (McsAlgorithm \<lparr>mcs_node_count = nc\<rparr>) mreg nc off lm"
    and "\<forall>l < MAX_LOCK_COUNT. mcs_entry off m l =
       \<lparr>tail_node = INVALID_NODE_ID, head_node = INVALID_NODE_ID, mcs_owner = INVALID_NODE_ID\<rparr>"
    and "reachable (steady_protocol (McsAlgorithm \<lparr>mcs_node_count = nc\<rparr>) nc off reg mreg lk) (initial_system m lm) s"
  shows "\<exists>g. mcs_related nc off reg mreg lk g (shared s) \<and> (\<forall>t. mcs_client_at nc off reg lk t (clients s t) g) \<and>
    mcs_manager_at nc off mreg (manager s) g"
proof -
  define g where "g = \<lparr>tail_of = (\<lambda>l. m (ecell off l mcs_tail_node)), head_of = (\<lambda>l. m (ecell off l mcs_head_node)),
    owner_of = (\<lambda>l. m (ecell off l mcs_owner_node)), next_of = (\<lambda>n. m (ncell off n mcs_next_node)),
    locked_of = (\<lambda>n. m (ncell off n mcs_locked)), point_of = (\<lambda>_. Prep False False), scan_of = Scanning,
    token_of = (\<lambda>_. Free), queue_of = (\<lambda>_. [])\<rparr>"
  have "idle_protocol g" using assms(4) by (simp add: idle_protocol_def g_def mcs_entry_def)
  then have "mcs_related nc off reg mreg lk g m"
    using assms(1,2) by (simp add: mcs_related_def idle_protocol_inv) (simp add: memory_of_def g_def)
  moreover have "mcs_client_at nc off reg lk t Idle g" for t by (cases t) (simp add: g_def)
  moreover have "mcs_manager_at nc off mreg (Ret lm) g" using assms(3) by (simp add: mcs_manager_at_def g_def)
  ultimately have "mcs_system.simulated nc off reg mreg lk g (initial_system m lm)"
    by (simp add: mcs_system.simulated_def initial_system_def)
  from mcs_system.reachable_simulated [OF assms(5) this] show ?thesis unfolding mcs_system.simulated_def .
qed

lemma mcs_exclusive:
  assumes "\<forall>t. lines_fit (reg t) nc off" and "lines_fit mreg nc off"
    and "manager_ready (McsAlgorithm \<lparr>mcs_node_count = nc\<rparr>) mreg nc off lm"
    and "\<forall>l < MAX_LOCK_COUNT. mcs_entry off m l =
       \<lparr>tail_node = INVALID_NODE_ID, head_node = INVALID_NODE_ID, mcs_owner = INVALID_NODE_ID\<rparr>"
    and "reachable (steady_protocol (McsAlgorithm \<lparr>mcs_node_count = nc\<rparr>) nc off reg mreg lk) (initial_system m lm) s"
    and "clients s (n, l) = Critical" and "clients s (n', l) = Critical"
  shows "n = n'"
proof -
  obtain g where g: "mcs_related nc off reg mreg lk g (shared s)" "\<forall>t. mcs_client_at nc off reg lk t (clients s t) g"
    using mcs_reached [OF assms(1-5)] by blast
  have "mcs_client_at nc off reg lk (n, l) Critical g" "mcs_client_at nc off reg lk (n', l) Critical g"
    using g(2) assms(6,7) by metis+
  then show ?thesis
    using holding_unique [OF mcs_related_fit(5) [OF g(1)], of n n'] by auto
qed

text \<open>
  C2. Mutual exclusion under the MCS algorithm: from a memory as \<open>initialize\<close> leaves it, in every state that the two-tier
  locks of all nodes and the lock manager can reach by interleaving single accesses to shared memory, at most one node is inside
  the critical section of a lock. Each node uses one lock, \<open>lk n\<close>, and no request times out; without these two conditions the
  algorithm is not exclusive.
\<close>

theorem mcs_mutual_exclusion:
  assumes "\<forall>t. lines_fit (reg t) nc off" and "lines_fit mreg nc off"
    and "manager_ready (McsAlgorithm \<lparr>mcs_node_count = nc\<rparr>) mreg nc off lm"
    and "\<forall>l < MAX_LOCK_COUNT. mcs_entry off m l =
       \<lparr>tail_node = INVALID_NODE_ID, head_node = INVALID_NODE_ID, mcs_owner = INVALID_NODE_ID\<rparr>"
    and "reachable (steady_protocol (McsAlgorithm \<lparr>mcs_node_count = nc\<rparr>) nc off reg mreg lk) (initial_system m lm) s"
    and "clients s (n, l) = Critical" and "clients s (n', l) = Critical"
  shows "n = n'"
  by (rule mcs_exclusive [OF assms])

section \<open>A system in which a node gets in\<close>

lemma mcs_can_enter:
  fixes P :: "(NodeId \<times> LockId, LockManager) protocol"
  assumes "lines_fit sh nc off"
    and "\<forall>l < MAX_LOCK_COUNT. mcs_entry off m l =
       \<lparr>tail_node = INVALID_NODE_ID, head_node = INVALID_NODE_ID, mcs_owner = INVALID_NODE_ID\<rparr>"
    and "manager_ready (McsAlgorithm \<lparr>mcs_node_count = nc\<rparr>) sh nc off lm" and "n < nc" and "l < lm_max_locks lm"
    and "client_lock (McsAlgorithm \<lparr>mcs_node_count = nc\<rparr>) sh nc off n tt"
    and "region_of P (n, l) = sh" and "manager_region P = sh" and "next_scan P = run_single_scan"
    and "acquisition P (n, l) (tt_global_acquire (Suc (Suc f)) tt (McsAlgorithm \<lparr>mcs_node_count = nc\<rparr>) clk l timeout)"
  shows "\<exists>s'. reachable P (initial_system m lm) s' \<and> clients s' = (\<lambda>_. Idle)((n, l) := Critical)"
proof -
  have ml: "lm_max_locks lm \<le> MAX_LOCK_COUNT" using assms(3) by (simp add: manager_ready_def)
  with assms(5) have l: "l < MAX_LOCK_COUNT" by (rule order.strict_trans2)
  have "{l. l < lm_max_locks lm} \<subseteq> {l. l < MAX_LOCK_COUNT}" using ml by (auto intro: order.strict_trans2)
  moreover have "mcs_may_request m new_service n l" by (simp add: mcs_may_request_def new_service_def)
  ultimately show ?thesis
    using l assms by (intro can_enter_free_lock [OF mcs.lock_live_axioms mcs_impl_new [OF assms(1,2)]]) (simp_all add: new_service_def)
qed

abbreviation "mcs_demo_alg \<equiv> McsAlgorithm \<lparr>mcs_node_count = 2\<rparr>"

abbreviation "mcs_demo_system \<equiv> steady_protocol mcs_demo_alg 2 0 (\<lambda>_. demo_region) demo_region (\<lambda>_. 0)"

theorem mcs_mutual_exclusion_witness:
  "\<exists>s. reachable mcs_demo_system (initial_system (\<lambda>_. INVALID_NODE_ID) (demo_manager mcs_demo_alg)) s \<and>
       {n. clients s (n, 0) = Critical} = {1}"
proof -
  have fresh: "\<forall>l < MAX_LOCK_COUNT. mcs_entry 0 (\<lambda>_. INVALID_NODE_ID) l =
      \<lparr>tail_node = INVALID_NODE_ID, head_node = INVALID_NODE_ID, mcs_owner = INVALID_NODE_ID\<rparr>"
    by (simp add: mcs_entry_def)
  have clock: "\<exists>clk timeout. (\<forall>i :: nat. clk i < (timeout :: u64)) \<and>
      tt_global_acquire (Suc (Suc 0)) (demo_lock mcs_demo_alg 1) mcs_demo_alg (\<lambda>_. 0) 0 1 =
      tt_global_acquire (Suc (Suc 0)) (demo_lock mcs_demo_alg 1) mcs_demo_alg clk 0 timeout"
    by (intro exI [of _ "\<lambda>_. 0"] exI [of _ 1]) simp
  have "acquisition mcs_demo_system (1, 0)
      (tt_global_acquire (Suc (Suc 0)) (demo_lock mcs_demo_alg 1) mcs_demo_alg (\<lambda>_. 0) 0 1)"
    using demo_lock_client [of mcs_demo_alg 1] clock demo_bounds
    unfolding steady_protocol_def by (auto simp: MAX_LOCK_COUNT_def)
  note acq = this
  have max: "(0 :: u32) < lm_max_locks (demo_manager mcs_demo_alg)" by (simp add: demo_manager_def)
  have P: "region_of mcs_demo_system (1, 0) = demo_region" "manager_region mcs_demo_system = demo_region"
    "next_scan mcs_demo_system = run_single_scan"
    by (simp_all add: steady_protocol_def lock_protocol_def)
  have "\<exists>s. reachable mcs_demo_system (initial_system (\<lambda>_. INVALID_NODE_ID) (demo_manager mcs_demo_alg)) s \<and>
      clients s = (\<lambda>_. Idle)((1, 0) := Critical)"
    by (rule mcs_can_enter [OF demo_fit(1) fresh demo_manager_ready demo_bounds(3) max demo_lock_client P acq])
  then obtain s where s: "reachable mcs_demo_system (initial_system (\<lambda>_. INVALID_NODE_ID) (demo_manager mcs_demo_alg)) s"
      "clients s = (\<lambda>_. Idle)((1, 0) := Critical)"
    by blast
  have fits: "\<forall>t. lines_fit ((\<lambda>_ :: NodeId \<times> LockId. demo_region) t) 2 0" using demo_fit(1) by simp
  have one: "clients s (1, 0) = Critical" using s(2) by simp
  have "n = 1" if "clients s (n, 0) = Critical" for n
    by (rule mcs_mutual_exclusion [OF fits demo_fit(1) demo_manager_ready fresh s(1) that one])
  note only = this
  have "{n. clients s (n, 0) = Critical} = {1}"
    by (intro set_eqI iffI; simp only: mem_Collect_eq singleton_iff) (rule only, assumption, simp only: one)
  with s(1) show ?thesis by blast
qed

end
