(* ===== verification/Mcs_Order.thy ===== *)
theory Mcs_Order
  imports Mcs_Mutex
begin

text \<open>
  The order in which nodes enter an MCS lock, for interleaved accesses: a node that asks after another has joined the queue does not
  get in before the other has begun to release.
\<close>

section \<open>The order in the protocol\<close>

definition ahead :: "NodeId list \<Rightarrow> NodeId \<Rightarrow> NodeId \<Rightarrow> bool" where
  "ahead q a b \<longleftrightarrow> (\<exists>xs ys. q = xs @ a # ys \<and> b \<notin> set xs)"

lemma ahead_snoc: "ahead q a b \<Longrightarrow> ahead (q @ [n]) a b"
  unfolding ahead_def by (metis append.assoc append_Cons)

lemma ahead_tl: "ahead q a b \<Longrightarrow> hd q \<noteq> a \<Longrightarrow> ahead (tl q) a b"
proof -
  assume "ahead q a b" "hd q \<noteq> a"
  then obtain xs ys where q: "q = xs @ a # ys" "b \<notin> set xs" by (auto simp: ahead_def)
  with \<open>hd q \<noteq> a\<close> obtain x xs' where "xs = x # xs'" by (cases xs) auto
  then have "tl q = xs' @ a # ys" "b \<notin> set xs'" using q by simp_all
  then show ?thesis unfolding ahead_def by blast
qed

lemma ahead_hd: "ahead q a b \<Longrightarrow> a \<noteq> b \<Longrightarrow> hd q \<noteq> b"
  by (auto simp: ahead_def) (metis hd_append list.sel(1) list.set_sel(1))

lemma ahead_member: "ahead q a b \<Longrightarrow> a \<in> set q"
  by (auto simp: ahead_def)

lemma ahead_last: "q \<noteq> [] \<Longrightarrow> b \<notin> set q \<Longrightarrow> ahead q (last q) b"
  unfolding ahead_def by (intro exI [of _ "butlast q"] exI [of _ "[]"]) (auto dest: in_set_butlastD)

text \<open>Node \<open>a\<close> has joined and not begun to release, \<open>b\<close> is not in front of it; or nobody can enter any more.\<close>

definition order_inv :: "LockId \<Rightarrow> NodeId \<Rightarrow> NodeId \<Rightarrow> protocol_state \<Rightarrow> bool" where
  "order_inv l a b s \<longleftrightarrow> (\<exists>d. token_of s l = Dead d) \<or> joined (point_of s a) \<and> ahead (queue_of s l) a b"

lemma dead_stays:
  assumes "node_step lk n s s'" and "n < nc" and "lock_inv nc lk s (lk n)" and "token_of s (lk n) = Dead d"
  shows "token_of s' (lk n) = Dead d"
  using assms(3)
proof (cases rule: lock_inv_cases)
  case (dead d')
  then have shut: "shut_out nc lk (lk n) (locked_of s n) (point_of s n)" using assms(2) by (simp add: dead_inv_def)
  show ?thesis using assms(1)
  proof cases
    case (some_next x)
    then show ?thesis using shut by auto
  qed (use shut dead assms(4) in auto)
qed (use assms(4) in simp)

lemma order_node_step:
  assumes step: "node_step lk n s s'" and "n < nc" and inv: "lock_inv nc lk s (lk n)" and "order_inv l a b s"
    and a: "lk a = l" "a < nc" and stays: "n = a \<Longrightarrow> asking (point_of s' a)"
  shows "order_inv l a b s'"
proof (cases "lk n = l \<and> \<not> (\<exists>d. token_of s l = Dead d)")
  case False
  then show ?thesis
  proof (cases "lk n = l")
    case True
    then show ?thesis using False dead_stays [OF step assms(2) inv] by (auto simp: order_inv_def)
  next
    case other: False
    then have "n \<noteq> a" using a(1) by auto
    with node_step_locality [OF step assms(2) inv] other assms(4) show ?thesis by (simp add: order_inv_def)
  qed
next
  case True
  then have live: "live nc lk (lk n) s" using inv by (elim lock_inv_cases) auto
  have o: "joined (point_of s a)" "ahead (queue_of s (lk n)) a b" using assms(4) True by (auto simp: order_inv_def)
  have first: "hd (queue_of s (lk n)) = n" "n \<noteq> a" if "releasing (point_of s n)" "point_of s n \<noteq> Holding"
    using live_releaser [OF live assms(2) refl that(1)] that o(1) by (auto elim: joined.elims)
  have last: "queue_of s (lk n) \<noteq> [] \<Longrightarrow> tail_of s (lk n) = last (queue_of s (lk n))" and d: "distinct (queue_of s (lk n))"
    using live by (simp_all add: live_inv_def)
  have only: False if h: "hd (queue_of s (lk n)) = n" "tail_of s (lk n) = n" "n \<noteq> a"
  proof -
    have q: "queue_of s (lk n) \<noteq> []" using ahead_member [OF o(2)] by auto
    then obtain ys where "queue_of s (lk n) = n # ys" using h(1) by (cases "queue_of s (lk n)") auto
    moreover from this have "ys = []" using last [OF q] h(2) d by (auto split: if_splits)
    ultimately show False using ahead_member [OF o(2)] h(3) by simp
  qed
  have joins: "joined (point_of s' a)"
    using step o(1) stays by cases (auto simp: asking_def)
  have "(\<exists>d. token_of s' (lk n) = Dead d) \<or> ahead (queue_of s' (lk n)) a b"
    using step
  proof cases
    case (some_next x)
    then show ?thesis using o(2) first ahead_tl [OF o(2)] by auto
  next
    case close_tail
    then show ?thesis using first only by auto
  qed (use o(2) in \<open>auto simp: ahead_snoc\<close>)
  then show ?thesis using joins True by (auto simp: order_inv_def)
qed

lemma order_scan_step:
  assumes "scan_step s s'" and "scan_inv s (scan_of s)" and "order_inv l a b s"
  shows "order_inv l a b s'"
  using assms by cases (auto simp: order_inv_def)

lemma order_keeps_out:
  assumes "protocol_inv nc lk s" and "order_inv l a b s" and "lk b = l" "b < nc" "a \<noteq> b" "l < MAX_LOCK_COUNT"
  shows "point_of s b \<noteq> Holding"
proof
  assume h: "point_of s b = Holding"
  have "lock_inv nc lk s l" using assms(1,6) by (simp add: protocol_inv_def)
  then show False
  proof (cases rule: lock_inv_cases)
    case (dead d)
    then have "shut_out nc lk l (locked_of s b) (point_of s b)" using assms(3,4) by (simp add: dead_inv_def)
    then show False using h by simp
  next
    case live
    then have "ahead (queue_of s l) a b" using assms(2) by (auto simp: order_inv_def)
    then show False using live_releaser [OF live assms(4,3)] h ahead_hd assms(5) by auto
  qed
qed

text \<open>The order at the moment when \<open>a\<close> is the last of the queue and \<open>b\<close> does not ask.\<close>

lemma order_from_tail:
  assumes "protocol_inv nc lk s" and "tail_of s l = a" and "a \<noteq> INVALID_NODE_ID" and "asking (point_of s a)" and "idle_point (point_of s b)"
    and "l < MAX_LOCK_COUNT"
  shows "order_inv l a b s"
proof -
  have "lock_inv nc lk s l" using assms(1,6) by (simp add: protocol_inv_def)
  then show ?thesis
  proof (cases rule: lock_inv_cases)
    case live
    then have q: "queue_of s l \<noteq> []" "last (queue_of s l) = a"
      using assms(2,3) by (auto simp: live_inv_def split: if_splits)
    have "b \<notin> set (queue_of s l)" using live_in_queue [OF live, of b] assms(5) by (auto simp: idle_point_iff)
    then have "ahead (queue_of s l) a b" using ahead_last [OF q(1)] q(2) by simp
    moreover have "in_queue (point_of s a)" using live_in_queue [OF live, of a] q by auto
    then have "joined (point_of s a)" using assms(4) by (auto simp: asking_def idle_point_iff)
    ultimately show ?thesis by (simp add: order_inv_def)
  qed (simp add: order_inv_def)
qed

section \<open>The order in the system\<close>

text \<open>The system as long as one client does not begin to release.\<close>

definition staying :: "'t \<Rightarrow> ('t, 'm) protocol \<Rightarrow> ('t, 'm) protocol" where
  "staying t0 P = P\<lparr>release := (\<lambda>t p. t \<noteq> t0 \<and> release P t p)\<rparr>"

lemma staying_move: "client_move (staying t0 P) t c m c' m' \<Longrightarrow> client_move P t c m c' m'"
  by (induction rule: client_move.induct) (auto simp: staying_def intro: client_move.intros)

lemma staying_manager: "manager_move (staying t0 P) q m q' m' \<longleftrightarrow> manager_move P q m q' m'"
  by (simp add: manager_move.simps staying_def)

fun wants_or_has :: "client \<Rightarrow> bool" where
  "wants_or_has (Acquiring p) = True"
| "wants_or_has Critical = True"
| "wants_or_has _ = False"

lemma staying_stays:
  assumes "client_move (staying t0 P) t c m c' m'" and "t = t0" and "wants_or_has c"
  shows "wants_or_has c' \<or> (\<exists>rc. c = Acquiring (Ret rc) \<and> rc \<noteq> SUCCESS)"
  using assms by (cases rule: client_move.cases) (auto simp: staying_def)

definition mcs_ordered ::
  "u32 \<Rightarrow> ShmOffset \<Rightarrow> (NodeId \<times> LockId \<Rightarrow> SharedMemoryRegion) \<Rightarrow> SharedMemoryRegion \<Rightarrow> (NodeId \<Rightarrow> LockId) \<Rightarrow>
   NodeId \<Rightarrow> NodeId \<Rightarrow> protocol_state \<Rightarrow> mem \<Rightarrow> bool"
where
  "mcs_ordered nc off reg mreg lk a b g m \<longleftrightarrow>
     mcs_related nc off reg mreg lk g m \<and> order_inv (lk a) a b g"

definition mcs_waiter_at ::
  "u32 \<Rightarrow> ShmOffset \<Rightarrow> (NodeId \<times> LockId \<Rightarrow> SharedMemoryRegion) \<Rightarrow> (NodeId \<Rightarrow> LockId) \<Rightarrow> NodeId \<Rightarrow>
   NodeId \<times> LockId \<Rightarrow> client \<Rightarrow> protocol_state \<Rightarrow> bool"
where
  "mcs_waiter_at nc off reg lk a t c g \<longleftrightarrow> mcs_client_at nc off reg lk t c g \<and> (t = (a, lk a) \<longrightarrow> wants_or_has c)"

lemma waiter_asking:
  assumes "mcs_waiter_at nc off reg lk a (a, lk a) c g"
  shows "asking (point_of g a)" and "a < nc"
  using assms by (cases c; auto simp: mcs_waiter_at_def asking_def)+

lemma mcs_waiter_move:
  assumes move: "client_move (staying (a, lk a) (steady_protocol (McsAlgorithm \<lparr>mcs_node_count = nc\<rparr>) nc off reg mreg lk)) t c m c' m'"
    and rel: "mcs_ordered nc off reg mreg lk a b g m" and at: "mcs_waiter_at nc off reg lk a t c g" and a: "a < nc"
  shows "\<exists>g'. mcs_ordered nc off reg mreg lk a b g' m' \<and> mcs_waiter_at nc off reg lk a t c' g' \<and>
    (\<forall>t' d. t' \<noteq> t \<longrightarrow> mcs_waiter_at nc off reg lk a t' d g \<longrightarrow> mcs_waiter_at nc off reg lk a t' d g') \<and> scan_of g' = scan_of g"
proof -
  obtain n l where t: "t = (n, l)" by fastforce
  have rel': "mcs_related nc off reg mreg lk g m" using rel by (simp add: mcs_ordered_def)
  have at': "mcs_client_at nc off reg lk (n, l) c g" using at t by (simp add: mcs_waiter_at_def)
  note fit = mcs_related_fit [OF rel']
  from mcs_client_move [OF staying_move [OF move [unfolded t]] rel' at']
  obtain g' where g': "g' = g \<or> node_step lk n g g' \<and> n < nc \<and> lk n < MAX_LOCK_COUNT \<and> l = lk n"
      "memory_of off g' m'" "mcs_client_at nc off reg lk (n, l) c' g'" by blast
  have w: "mcs_waiter_at nc off reg lk a t c' g'"
    using staying_stays [OF move] at g'(3) at' t by (auto simp: mcs_waiter_at_def)
  have kept: "order_inv (lk a) a b g' \<and> protocol_inv nc lk g' \<and> scan_of g' = scan_of g \<and> (\<forall>x. x \<noteq> n \<longrightarrow> point_of g' x = point_of g x)"
    using g'(1)
  proof
    assume step: "node_step lk n g g' \<and> n < nc \<and> lk n < MAX_LOCK_COUNT \<and> l = lk n"
    then have inv: "lock_inv nc lk g (lk n)" using fit(5) by (simp add: protocol_inv_def)
    have "asking (point_of g' a)" if "n = a" using waiter_asking(1) [of nc off reg lk a c' g'] w t step that by simp
    then have "order_inv (lk a) a b g'"
      using order_node_step [OF conjunct1 [OF step] _ inv _ refl a] step rel by (simp add: mcs_ordered_def)
    then show ?thesis
      using step fit(3,5) node_step_inv [of lk n g g' nc] node_step_locality(3,4) [OF conjunct1 [OF step] _ inv] by blast
  qed (use rel fit(5) in \<open>simp add: mcs_ordered_def\<close>)
  have "mcs_waiter_at nc off reg lk a t' d g'" if "t' \<noteq> t" "mcs_waiter_at nc off reg lk a t' d g" for t' d
    using g'(1)
  proof
    assume "node_step lk n g g' \<and> n < nc \<and> lk n < MAX_LOCK_COUNT \<and> l = lk n"
    then show ?thesis
      using that t kept mcs_client_at_same [of nc off reg lk t' d g n g'] by (auto simp: mcs_waiter_at_def)
  qed (use that in simp)
  then show ?thesis
    using kept w g'(2) fit(1,2) by (intro exI [of _ g']) (simp add: mcs_ordered_def mcs_related_def)
qed

interpretation mcs_order: interleaved_simulation
  "staying (a, lk a) (steady_protocol (McsAlgorithm \<lparr>mcs_node_count = nc\<rparr>) nc off reg mreg lk)"
  "\<lambda>g m. mcs_ordered nc off reg mreg lk a b g m \<and> a < nc" "mcs_waiter_at nc off reg lk a" "mcs_manager_at nc off mreg"
  for nc off reg mreg lk a b
proof unfold_locales
  fix t c m c' m' g
  assume "client_move (staying (a, lk a) (steady_protocol (McsAlgorithm \<lparr>mcs_node_count = nc\<rparr>) nc off reg mreg lk)) t c m c' m'"
    and "mcs_ordered nc off reg mreg lk a b g m \<and> a < nc" and "mcs_waiter_at nc off reg lk a t c g"
  then obtain g' where "mcs_ordered nc off reg mreg lk a b g' m'" "mcs_waiter_at nc off reg lk a t c' g'"
      "\<forall>t' d. t' \<noteq> t \<longrightarrow> mcs_waiter_at nc off reg lk a t' d g \<longrightarrow> mcs_waiter_at nc off reg lk a t' d g'" "scan_of g' = scan_of g" "a < nc"
    using mcs_waiter_move by blast
  then show "\<exists>g'. (mcs_ordered nc off reg mreg lk a b g' m' \<and> a < nc) \<and> mcs_waiter_at nc off reg lk a t c' g' \<and>
      (\<forall>t' d. t' \<noteq> t \<longrightarrow> mcs_waiter_at nc off reg lk a t' d g \<longrightarrow> mcs_waiter_at nc off reg lk a t' d g') \<and>
      (\<forall>q. mcs_manager_at nc off mreg q g \<longrightarrow> mcs_manager_at nc off mreg q g')"
    by (intro exI [of _ g']) (simp add: mcs_manager_at_def)
next
  fix q m q' m' g
  assume move: "manager_move (staying (a, lk a) (steady_protocol (McsAlgorithm \<lparr>mcs_node_count = nc\<rparr>) nc off reg mreg lk)) q m q' m'"
    and rel: "mcs_ordered nc off reg mreg lk a b g m \<and> a < nc" and at: "mcs_manager_at nc off mreg q g"
  then have rel': "mcs_related nc off reg mreg lk g m" by (simp add: mcs_ordered_def)
  note fit = mcs_related_fit [OF rel']
  from mcs_manager_move [OF move [unfolded staying_manager] rel' at]
  obtain g' where g': "g' = g \<or> scan_step g g'" "memory_of off g' m'" "mcs_manager_at nc off mreg q' g'" "point_of g' = point_of g"
    by blast
  have inv: "protocol_inv nc lk g'" using g'(1) fit(3,5) scan_step_inv by blast
  have "order_inv (lk a) a b g'"
    using g'(1) order_scan_step [of g g' "lk a" a b] rel fit(5) by (auto simp: mcs_ordered_def protocol_inv_def)
  moreover have "mcs_waiter_at nc off reg lk a t d g'" if "mcs_waiter_at nc off reg lk a t d g" for t d
    using that g'(4) by (cases t; cases d) (simp_all add: mcs_waiter_at_def)
  ultimately show "\<exists>g'. (mcs_ordered nc off reg mreg lk a b g' m' \<and> a < nc) \<and> mcs_manager_at nc off mreg q' g' \<and>
      (\<forall>t d. mcs_waiter_at nc off reg lk a t d g \<longrightarrow> mcs_waiter_at nc off reg lk a t d g')"
    using g'(2,3) inv fit(1,2) rel by (intro exI [of _ g']) (simp add: mcs_ordered_def mcs_related_def)
qed

lemma staying_reachable: "reachable (staying t0 P) s1 s2 \<Longrightarrow> reachable P s0 s1 \<Longrightarrow> reachable P s0 s2"
proof (induction rule: reachable.induct)
  case (reachable_step s s')
  from reachable_step.hyps(2) have "sys_step P s s'"
    by (cases rule: sys_step.cases) (auto intro: sys_step.intros dest: staying_move simp: staying_manager)
  with reachable_step.IH reachable_step.prems show ?case by (blast intro: reachable.reachable_step)
qed

text \<open>
  C6. If each node uses one lock and no request times out, the MCS algorithm serves in the order of the queue, whatever single accesses are
  interleaved: from a state in which node \<open>a\<close> has just joined the
  queue of a lock (its request has put it into the tail) and node \<open>b\<close> does not ask, no sequence of accesses of the nodes and the
  manager brings \<open>b\<close> into the lock before \<open>a\<close> has been inside and begun to release. Both conditions are those of mutual exclusion.
\<close>

theorem mcs_first_come_first_served:
  assumes "\<forall>t. lines_fit (reg t) nc off" and "lines_fit mreg nc off"
    and "manager_ready (McsAlgorithm \<lparr>mcs_node_count = nc\<rparr>) mreg nc off lm"
    and "\<forall>l < MAX_LOCK_COUNT. mcs_entry off m l =
       \<lparr>tail_node = INVALID_NODE_ID, head_node = INVALID_NODE_ID, mcs_owner = INVALID_NODE_ID\<rparr>"
    and "reachable (steady_protocol (McsAlgorithm \<lparr>mcs_node_count = nc\<rparr>) nc off reg mreg lk) (initial_system m lm) s1"
    and "clients s1 (a, l) = Acquiring p" and "tail_node (mcs_entry off (shared s1) l) = a" and "clients s1 (b, l) = Idle"
    and "reachable (staying (a, l) (steady_protocol (McsAlgorithm \<lparr>mcs_node_count = nc\<rparr>) nc off reg mreg lk)) s1 s2"
  shows "clients s2 (b, l) \<noteq> Critical"
proof
  assume crit: "clients s2 (b, l) = Critical"
  obtain g1 where g1: "mcs_related nc off reg mreg lk g1 (shared s1)" "\<forall>t. mcs_client_at nc off reg lk t (clients s1 t) g1"
      "mcs_manager_at nc off mreg (manager s1) g1"
    using mcs_reached [OF assms(1-5)] by blast
  obtain g2 where g2: "\<forall>t. mcs_client_at nc off reg lk t (clients s2 t) g2"
    using mcs_reached [OF assms(1-4) staying_reachable [OF assms(9,5)]] by blast
  have b: "b < nc" "l < MAX_LOCK_COUNT" "l = lk b" using g2 [rule_format, of "(b, l)"] unfolding crit mcs_client_at.simps by blast+
  have a: "a < nc" "l = lk a" "asking (point_of g1 a)" using g1(2) [rule_format, of "(a, l)"] unfolding assms(6) mcs_client_at.simps by blast+
  have "idle_point (point_of g1 b)" using g1(2) [rule_format, of "(b, l)"] b(3) unfolding assms(8) mcs_client_at.simps by blast
  moreover have "tail_of g1 l = a" using mcs_related_fit(4) [OF g1(1)] assms(7) b(2) by (simp add: memory_of_def mcs_entry_def)
  moreover have "a \<noteq> INVALID_NODE_ID" using node_valid [OF mcs_related_fit(3) [OF g1(1)] a(1)] .
  ultimately have "order_inv l a b g1"
    using order_from_tail [OF mcs_related_fit(5) [OF g1(1)]] a(3) b(2) by blast
  then have "mcs_order.simulated nc off reg mreg lk a b g1 s1"
    unfolding mcs_order.simulated_def using g1 a assms(6) by (simp add: mcs_ordered_def mcs_waiter_at_def)
  from mcs_order.reachable_simulated [OF assms(9) [unfolded a(2)] this]
  obtain g where g: "mcs_ordered nc off reg mreg lk a b g (shared s2)" "mcs_waiter_at nc off reg lk a (b, l) (clients s2 (b, l)) g"
    unfolding mcs_order.simulated_def by blast
  then have "point_of g b = Holding" using crit by (simp add: mcs_waiter_at_def)
  moreover have "protocol_inv nc lk g" "order_inv l a b g"
    using g(1) a(2) by (auto simp: mcs_ordered_def dest: mcs_related_fit(5))
  moreover have "a \<noteq> b" using assms(6,8) by auto
  ultimately show False using order_keeps_out b by blast
qed

text \<open>A history: node 1 asks, which puts it into the tail, a scan lets it in and its poll succeeds.\<close>

lemma get_in_from_tail:
  fixes P :: "(NodeId \<times> LockId, LockManager) protocol"
  assumes "acquisition P t (bind A F)" and "run (region_of P t) A m = Result r1 m1"
    and "F r1 = bind B G" and "run (manager_region P) (next_scan P x) m1 = Result x' m2"
    and "run (region_of P t) B m2 = Result r2 m3" and "G r2 = Ret SUCCESS"
  shows "\<exists>s1 s2 p. reachable P (initial_system m x) s1 \<and> clients s1 = (\<lambda>_. Idle)(t := Acquiring p) \<and> shared s1 = m1 \<and>
    reachable (staying t P) s1 s2 \<and> clients s2 = (\<lambda>_. Idle)(t := Critical)"
proof -
  let ?s0 = "initial_system m x" and ?Q = "staying t P"
  have Q: "region_of ?Q = region_of P" "manager_region ?Q = manager_region P" "next_scan ?Q = next_scan P"
    by (simp_all add: staying_def)
  obtain s0 where s0: "reachable P ?s0 s0" "clients s0 = (\<lambda>_. Idle)(t := Acquiring (bind A F))"
      "shared s0 = m" "manager s0 = Ret x"
    using reachable_client_step [OF reachable_start, of P t ?s0] start_acquire [OF assms(1)]
    by (fastforce simp: initial_system_def)
  then obtain s1 where s1: "reachable P ?s0 s1" "clients s1 = (\<lambda>_. Idle)(t := Acquiring (bind B G))"
      "shared s1 = m1" "manager s1 = Ret x"
    using reachable_acquires [OF s0(1), of t A F r1 m1] assms(2,3) by auto
  obtain s2 where s2: "reachable ?Q s1 s2" "clients s2 = (\<lambda>_. Idle)(t := Acquiring (bind B G))"
      "shared s2 = m2" "manager s2 = Ret x'"
    using reachable_scan [OF reachable_start, of s1 x ?Q x' m2] s1 assms(4) Q by auto
  obtain s3 where s3: "reachable ?Q s1 s3" "clients s3 = (\<lambda>_. Idle)(t := Acquiring (Ret SUCCESS))" "shared s3 = m3"
    using reachable_acquires [OF s2(1), of t B G r2 m3] s2 assms(5,6) Q by auto
  obtain s4 where "reachable ?Q s1 s4" "clients s4 = (\<lambda>_. Idle)(t := Critical)"
    using reachable_client_step [OF s3(1), of t Critical m3] acquire_success [of ?Q t m3] s3 by auto
  with s1 show ?thesis by blast
qed

theorem mcs_first_come_first_served_witness:
  "\<exists>s1 s2 p. reachable mcs_demo_system (initial_system (\<lambda>_. INVALID_NODE_ID) (demo_manager mcs_demo_alg)) s1 \<and>
     clients s1 (1, 0) = Acquiring p \<and> reachable (staying (1, 0) mcs_demo_system) s1 s2 \<and>
     clients s2 (1, 0) = Critical \<and> clients s2 (0, 0) \<noteq> Critical"
proof -
  let ?m = "\<lambda>_ :: u64. INVALID_NODE_ID" and ?lm = "demo_manager mcs_demo_alg" and ?tt = "demo_lock mcs_demo_alg 1"
  let ?A = "alg_acquire_lock 2 mcs_demo_alg 1 0 (Some demo_region) 0" and ?B = "poll_for_grant 2 ?tt (\<lambda>_. 0) 0 1"
  have fresh: "\<forall>l < MAX_LOCK_COUNT. mcs_entry 0 ?m l =
      \<lparr>tail_node = INVALID_NODE_ID, head_node = INVALID_NODE_ID, mcs_owner = INVALID_NODE_ID\<rparr>"
    by (simp add: mcs_entry_def)
  have l: "(0 :: u32) < MAX_LOCK_COUNT" by (simp add: MAX_LOCK_COUNT_def)
  have max: "(0 :: u32) < lm_max_locks ?lm" "{l. l < lm_max_locks ?lm} \<subseteq> {l. l < MAX_LOCK_COUNT}"
    by (auto simp: demo_manager_def MAX_LOCK_COUNT_def word_less_1)
  obtain F G where req: "tt_global_acquire 2 ?tt mcs_demo_alg (\<lambda>_. 0) 0 1 = bind ?A F"
      and F: "F SUCCESS = bind ?B G" and G: "G SUCCESS = Ret SUCCESS"
    using demo_lock_client [of mcs_demo_alg 1] that by (simp add: tt_global_acquire_def client_lock_def)
  have may: "mcs_may_request ?m new_service 1 0" by (simp add: mcs_may_request_def new_service_def)
  have new: "holder new_service 0 = None" "waiters new_service 0 = {}" by (simp_all add: new_service_def)
  obtain m1 lm' m2 where runs: "run demo_region ?A ?m = Result SUCCESS m1" "run demo_region (run_single_scan ?lm) m1 = Result lm' m2"
      "run demo_region ?B m2 = Result SUCCESS m2"
    using lock_live.request_served [where fuel = "Suc (Suc 0)" and fuel' = 2 and clk = "\<lambda>_. 0" and timeout = 1,
        OF mcs.lock_live_axioms mcs_impl_new [OF demo_fit(1) fresh] may demo_bounds(3) _ new demo_manager_ready max demo_lock_client] l
    by (auto simp: numeral_2_eq_2)
  have "m_tail 0 ?m 0 = INVALID_NODE_ID" by (simp add: mcs_entry_def)
  then have tail: "tail_node (mcs_entry 0 m1 0) = 1"
    using run_mcs_acquire [where fuel = 2 and m = ?m, OF demo_fit(1) l demo_bounds(3)] runs(1) by (auto simp: alg_acquire_lock_def)
  have clock: "\<exists>clk timeout. (\<forall>i :: nat. clk i < (timeout :: u64)) \<and>
      tt_global_acquire 2 ?tt mcs_demo_alg (\<lambda>_. 0) 0 1 = tt_global_acquire 2 ?tt mcs_demo_alg clk 0 timeout"
    by (intro exI [of _ "\<lambda>_. 0"] exI [of _ 1]) simp
  have "acquisition mcs_demo_system (1, 0) (tt_global_acquire 2 ?tt mcs_demo_alg (\<lambda>_. 0) 0 1)"
    using demo_lock_client [of mcs_demo_alg 1] clock demo_bounds l unfolding steady_protocol_def by auto
  note acq = this [unfolded req]
  have P: "region_of mcs_demo_system (1, 0) = demo_region" "manager_region mcs_demo_system = demo_region"
    "next_scan mcs_demo_system = run_single_scan"
    by (simp_all add: steady_protocol_def lock_protocol_def)
  obtain s1 s2 p where s: "reachable mcs_demo_system (initial_system ?m ?lm) s1" "clients s1 = (\<lambda>_. Idle)((1, 0) := Acquiring p)"
      "shared s1 = m1" "reachable (staying (1, 0) mcs_demo_system) s1 s2" "clients s2 = (\<lambda>_. Idle)((1, 0) := Critical)"
    using get_in_from_tail [OF acq _ F _ _ G, of ?m m1 ?lm lm' m2 m2] runs P by auto
  have c: "clients s1 (1, 0) = Acquiring p" "tail_node (mcs_entry 0 (shared s1) 0) = 1" "clients s1 (0, 0) = Idle"
    using s(2,3) tail by simp_all
  have fits: "\<forall>t. lines_fit ((\<lambda>_ :: NodeId \<times> LockId. demo_region) t) 2 0" using demo_fit(1) by simp
  have "clients s2 (0, 0) \<noteq> Critical"
    by (rule mcs_first_come_first_served [OF fits demo_fit(1) demo_manager_ready fresh s(1) c s(4)])
  moreover have "clients s2 (1, 0) = Critical" using s(5) by simp
  ultimately show ?thesis using s(1,4) c(1) by blast
qed

end
