(* ===== verification/Mcs_Races.thy ===== *)
theory Mcs_Races
  imports Mcs_Mutex
begin

text \<open>
  What happens to the MCS algorithm outside the conditions of \<open>mcs_mutual_exclusion\<close>, and to its
  progress inside them, as concrete histories from initialised memory: two locks that share the
  record of a node, a request that times out while the lock is passed to it, and a release that
  overlaps a new request.
\<close>

section \<open>Initialised memory\<close>

definition mcs_fresh :: "ShmOffset \<Rightarrow> mem \<Rightarrow> bool" where
  "mcs_fresh off m \<longleftrightarrow> (\<forall>l < MAX_LOCK_COUNT. m (ecell off l mcs_tail_node) = INVALID_NODE_ID \<and>
     m (ecell off l mcs_head_node) = INVALID_NODE_ID \<and> m (ecell off l mcs_owner_node) = INVALID_NODE_ID)"

lemma mcs_fresh_initialized:
  assumes "lines_fit sh nc off"
  shows "\<exists>m'. run sh (alg_initialize new_mcs (Some sh) off nc) m = Result (SUCCESS, McsAlgorithm \<lparr>mcs_node_count = nc\<rparr>) m' \<and>
    mcs_fresh off m'"
  using run_mcs_initialize [OF assms, of "\<lparr>mcs_node_count = 0\<rparr>" m]
  by (auto simp: alg_initialize_def new_mcs_def run_bind mcs_fresh_def mcs_entry_def)

text \<open>The two-tier locks and the manager of three nodes.\<close>

definition trio_lock :: "NodeId \<Rightarrow> TwoTierLock" where
  "trio_lock n = (demo_lock (McsAlgorithm \<lparr>mcs_node_count = 3\<rparr>) n)\<lparr>tt_max_locks := 2, tt_node_count := 3\<rparr>"

definition trio_manager :: LockManager where
  "trio_manager = (demo_manager (McsAlgorithm \<lparr>mcs_node_count = 3\<rparr>))\<lparr>lm_node_count := 3\<rparr>"

lemma trio_lock_client: "client_lock (McsAlgorithm \<lparr>mcs_node_count = 3\<rparr>) demo_region 3 0 n (trio_lock n)"
  using demo_lock_client [of "McsAlgorithm \<lparr>mcs_node_count = 3\<rparr>" n] by (simp add: client_lock_def trio_lock_def)

lemma trio_bounds: "(0 :: u32) < MAX_LOCK_COUNT" "(1 :: u32) < MAX_LOCK_COUNT" "(0 :: u32) < 3" "(1 :: u32) < 3" "(2 :: u32) < 3"
  by (simp_all add: MAX_LOCK_COUNT_def)

section \<open>Two locks\<close>

lemma mcs_scan_grants:
  assumes "lines_fit sh nc off" and "l < MAX_LOCK_COUNT" and "n < nc"
    and "m_owner off m l = INVALID_NODE_ID" and "m_head off m l = n" and "m_locked off m n = 1" and "m_waiting off m n = l"
  shows "\<exists>m'. run sh (scan_lock (McsAlgorithm \<lparr>mcs_node_count = nc\<rparr>) (Some sh) off nc l) m = Result SUCCESS m' \<and>
    mcs_entry off m' l = (mcs_entry off m l)\<lparr>mcs_owner := n\<rparr> \<and>
    (\<forall>l'. l' \<noteq> l \<longrightarrow> l' < MAX_LOCK_COUNT \<longrightarrow> mcs_entry off m' l' = mcs_entry off m l') \<and>
    mcs_node off m' n = (mcs_node off m n)\<lparr>locked := 2\<rparr> \<and>
    (\<forall>n'. n' \<noteq> n \<longrightarrow> mcs_node off m' n' = mcs_node off m n')"
  using run_mcs_grant [OF assms(1-3), of m] run_mcs_check [OF assms(1,2), of m] assms lines_fit_node [OF assms(1,3)]
  by (simp add: scan_lock_def alg_check_grant_def alg_grant_lock_def run_bind)

text \<open>
  Node 2 holds lock 1 and node 0 lock 0. Node 1 queues for lock 0 and, in another thread or after a
  timeout, for lock 1. When node 0 passes lock 0 on, the record of node 1 says that it may enter lock 1.
\<close>

lemma mcs_two_locks_run:
  assumes "mcs_fresh 0 m"
  shows "\<exists>m'. run_ops 2 (McsAlgorithm \<lparr>mcs_node_count = 3\<rparr>) demo_region 0 3
      [Acquire 2 1, Scan 1, Acquire 0 0, Scan 0, Acquire 1 0, Acquire 1 1, Release 0 0] m =
    Result [SUCCESS, SUCCESS, SUCCESS, SUCCESS, SUCCESS, SUCCESS, SUCCESS] m' \<and>
    mcs_node 0 m' 1 = \<lparr>next_node = INVALID_NODE_ID, locked = 0, waiting_lock = 1\<rparr> \<and>
    m_locked 0 m' 2 = 2 \<and> m_waiting 0 m' 2 = 1"
proof -
  note fit = demo_fit(2) and b = trio_bounds
  have inv: "(0 :: u32) \<noteq> INVALID_NODE_ID" "(1 :: u32) \<noteq> INVALID_NODE_ID" "(2 :: u32) \<noteq> INVALID_NODE_ID"
    using lines_fit_node [OF fit] b by blast+
  note acquire = run_mcs_acquire [OF fit _ _ order.refl] and grant = mcs_scan_grants [OF fit]
  have m0: "m_tail 0 m l = INVALID_NODE_ID" "m_owner 0 m l = INVALID_NODE_ID" if "l < MAX_LOCK_COUNT" for l
    using assms that by (simp_all add: mcs_fresh_def mcs_entry_def)
  obtain m1 where m1: "run demo_region (mcs_acquire_lock 2 \<lparr>mcs_node_count = 3\<rparr> 2 1 (Some demo_region) 0) m = Result SUCCESS m1"
    "mcs_entry 0 m1 1 = \<lparr>tail_node = 2, head_node = 2, mcs_owner = INVALID_NODE_ID\<rparr>" "mcs_entry 0 m1 0 = mcs_entry 0 m 0"
    "mcs_node 0 m1 2 = \<lparr>next_node = INVALID_NODE_ID, locked = 1, waiting_lock = 1\<rparr>"
    using acquire [OF b(2,5), of m] m0 [OF b(2)] b by auto
  obtain m2 where m2: "run demo_region (scan_lock (McsAlgorithm \<lparr>mcs_node_count = 3\<rparr>) (Some demo_region) 0 3 1) m1 = Result SUCCESS m2"
    "mcs_entry 0 m2 1 = \<lparr>tail_node = 2, head_node = 2, mcs_owner = 2\<rparr>" "mcs_entry 0 m2 0 = mcs_entry 0 m 0"
    "mcs_node 0 m2 2 = \<lparr>next_node = INVALID_NODE_ID, locked = 2, waiting_lock = 1\<rparr>"
    using grant [OF b(2,5), of m1] m1(2-4) b by auto
  obtain m3 where m3: "run demo_region (mcs_acquire_lock 2 \<lparr>mcs_node_count = 3\<rparr> 0 0 (Some demo_region) 0) m2 = Result SUCCESS m3"
    "mcs_entry 0 m3 0 = \<lparr>tail_node = 0, head_node = 0, mcs_owner = INVALID_NODE_ID\<rparr>"
    "mcs_entry 0 m3 1 = \<lparr>tail_node = 2, head_node = 2, mcs_owner = 2\<rparr>"
    "mcs_node 0 m3 0 = \<lparr>next_node = INVALID_NODE_ID, locked = 1, waiting_lock = 0\<rparr>"
    "mcs_node 0 m3 2 = \<lparr>next_node = INVALID_NODE_ID, locked = 2, waiting_lock = 1\<rparr>"
    using acquire [OF b(1,3), of m2] m2(2-4) m0 [OF b(1)] b inv by auto
  obtain m4 where m4: "run demo_region (scan_lock (McsAlgorithm \<lparr>mcs_node_count = 3\<rparr>) (Some demo_region) 0 3 0) m3 = Result SUCCESS m4"
    "mcs_entry 0 m4 0 = \<lparr>tail_node = 0, head_node = 0, mcs_owner = 0\<rparr>"
    "mcs_entry 0 m4 1 = \<lparr>tail_node = 2, head_node = 2, mcs_owner = 2\<rparr>"
    "mcs_node 0 m4 0 = \<lparr>next_node = INVALID_NODE_ID, locked = 2, waiting_lock = 0\<rparr>"
    "mcs_node 0 m4 2 = \<lparr>next_node = INVALID_NODE_ID, locked = 2, waiting_lock = 1\<rparr>"
    using grant [OF b(1,3), of m3] m3(2-5) b by auto
  obtain m5 where m5: "run demo_region (mcs_acquire_lock 2 \<lparr>mcs_node_count = 3\<rparr> 1 0 (Some demo_region) 0) m4 = Result SUCCESS m5"
    "mcs_entry 0 m5 0 = \<lparr>tail_node = 1, head_node = 0, mcs_owner = 0\<rparr>"
    "mcs_entry 0 m5 1 = \<lparr>tail_node = 2, head_node = 2, mcs_owner = 2\<rparr>"
    "mcs_node 0 m5 0 = \<lparr>next_node = 1, locked = 2, waiting_lock = 0\<rparr>"
    "mcs_node 0 m5 2 = \<lparr>next_node = INVALID_NODE_ID, locked = 2, waiting_lock = 1\<rparr>"
    using acquire [OF b(1,4), of m4] m4(2-5) b inv by auto
  obtain m6 where m6: "run demo_region (mcs_acquire_lock 2 \<lparr>mcs_node_count = 3\<rparr> 1 1 (Some demo_region) 0) m5 = Result SUCCESS m6"
    "mcs_entry 0 m6 0 = \<lparr>tail_node = 1, head_node = 0, mcs_owner = 0\<rparr>"
    "mcs_node 0 m6 0 = \<lparr>next_node = 1, locked = 2, waiting_lock = 0\<rparr>"
    "mcs_node 0 m6 1 = \<lparr>next_node = INVALID_NODE_ID, locked = 1, waiting_lock = 1\<rparr>"
    "mcs_node 0 m6 2 = \<lparr>next_node = 1, locked = 2, waiting_lock = 1\<rparr>"
    using acquire [OF b(2,4), of m5] m5(2-5) b inv by auto
  obtain m7 where m7: "run demo_region (mcs_release_lock 2 \<lparr>mcs_node_count = 3\<rparr> 0 0 (Some demo_region) 0) m6 = Result SUCCESS m7"
    "mcs_node 0 m7 1 = \<lparr>next_node = INVALID_NODE_ID, locked = 0, waiting_lock = 1\<rparr>"
    "mcs_node 0 m7 2 = \<lparr>next_node = 1, locked = 2, waiting_lock = 1\<rparr>"
    using run_mcs_release_pass [OF fit b(1,3), of m6 1 2] m6(2-5) b by auto
  show ?thesis
    using m1(1) m2(1) m3(1) m4(1) m5(1) m6(1) m7
    by (simp add: alg_acquire_lock_def alg_release_lock_def)
qed

text \<open>
  C8. With two locks, the MCS algorithm lets two nodes hold one lock. A node has one queue record for all locks, and the
  node that passes a lock on marks the record of its successor as granted without a look at the lock for which
  the successor waits: from freshly initialised memory, seven complete calls, each of which returns \<open>SUCCESS\<close>, lead to a memory in
  which the polls of nodes 1 and 2 for lock 1 both report the grant.
\<close>

theorem mcs_two_locks_not_exclusive:
  "\<exists>m0 m1. run demo_region (alg_initialize new_mcs (Some demo_region) 0 3) m =
       Result (SUCCESS, McsAlgorithm \<lparr>mcs_node_count = 3\<rparr>) m0 \<and>
     run_ops 2 (McsAlgorithm \<lparr>mcs_node_count = 3\<rparr>) demo_region 0 3
       [Acquire 2 1, Scan 1, Acquire 0 0, Scan 0, Acquire 1 0, Acquire 1 1, Release 0 0] m0 =
       Result (replicate 7 SUCCESS) m1 \<and>
     run demo_region (tt_granted (trio_lock 1) 1) m1 = Result True m1 \<and>
     run demo_region (tt_granted (trio_lock 2) 1) m1 = Result True m1"
proof -
  obtain m0 where m0: "run demo_region (alg_initialize new_mcs (Some demo_region) 0 3) m =
       Result (SUCCESS, McsAlgorithm \<lparr>mcs_node_count = 3\<rparr>) m0" "mcs_fresh 0 m0"
    using mcs_fresh_initialized [OF demo_fit(2)] by blast
  obtain m1 where m1: "run_ops 2 (McsAlgorithm \<lparr>mcs_node_count = 3\<rparr>) demo_region 0 3
       [Acquire 2 1, Scan 1, Acquire 0 0, Scan 0, Acquire 1 0, Acquire 1 1, Release 0 0] m0 =
       Result (replicate 7 SUCCESS) m1"
      "mcs_node 0 m1 1 = \<lparr>next_node = INVALID_NODE_ID, locked = 0, waiting_lock = 1\<rparr>"
      "m_locked 0 m1 2 = 2" "m_waiting 0 m1 2 = 1"
    using mcs_two_locks_run [OF m0(2)] by (auto simp: numeral_eq_Suc simp del: run_ops.simps)
  have "run demo_region (tt_granted (trio_lock 1) 1) m1 = Result True m1"
    using run_tt_granted_mcs [OF demo_fit(2) trio_bounds(2,4) trio_lock_client, of m1] m1(2) by simp
  moreover have "run demo_region (tt_granted (trio_lock 2) 1) m1 = Result True m1"
    using run_tt_granted_mcs [OF demo_fit(2) trio_bounds(2,5) trio_lock_client, of m1] m1(3,4) by simp
  ultimately show ?thesis using m0(1) m1(1) by blast
qed

section \<open>Requests and releases as trees\<close>

text \<open>
  A request up to its first test of the grant, and what follows when that fails (\<open>C\<close>); a release, with the wait
  for a successor that is not linked yet left open (\<open>W\<close>).
\<close>

definition mcs_poll_tree ::
  "SharedMemoryRegion \<Rightarrow> ShmOffset \<Rightarrow> LockId \<Rightarrow> NodeId \<Rightarrow> LockResult prog \<Rightarrow> LockResult prog"
where
  "mcs_poll_tree sh off l n C = Load (node_ptr sh off n + 4) (\<lambda>v. Load (node_ptr sh off n + 8) (\<lambda>w.
     if (v = 2 \<or> v = 0) \<and> w = l then Ret SUCCESS else C))"

definition mcs_request_tree ::
  "SharedMemoryRegion \<Rightarrow> ShmOffset \<Rightarrow> LockId \<Rightarrow> NodeId \<Rightarrow> LockResult prog \<Rightarrow> LockResult prog"
where
  "mcs_request_tree sh off l n P =
    Store (node_ptr sh off n) INVALID_NODE_ID (Store (node_ptr sh off n + 4) 1 (Store (node_ptr sh off n + 8) l
      (bind (mcs_swap_tail 2 (entry_ptr sh off l) INVALID_NODE_ID n) (\<lambda>old.
         if old = INVALID_NODE_ID then Store (entry_ptr sh off l + 4) n (Fence P)
         else deref (mcs_get_node old sh off) (\<lambda>pred. Store pred n (Fence P))))))"

definition mcs_pass_tree ::
  "SharedMemoryRegion \<Rightarrow> ShmOffset \<Rightarrow> LockId \<Rightarrow> NodeId \<Rightarrow> NodeId \<Rightarrow> LockResult prog"
where
  "mcs_pass_tree sh off l n y =
     Store (entry_ptr sh off l + 4) y (Store (entry_ptr sh off l + 8) y
     (deref (mcs_get_node y sh off) (\<lambda>succ. Store (succ + 4) 0
     (Store (node_ptr sh off n) INVALID_NODE_ID (Store (node_ptr sh off n + 4) 0
     (Store (node_ptr sh off n + 8) INVALID_LOCK_ID (Fence (Ret SUCCESS))))))))"

definition mcs_empty_tree ::
  "SharedMemoryRegion \<Rightarrow> ShmOffset \<Rightarrow> LockId \<Rightarrow> NodeId \<Rightarrow> LockResult prog"
where
  "mcs_empty_tree sh off l n =
    Store (entry_ptr sh off l + 4) INVALID_NODE_ID (Store (entry_ptr sh off l + 8) INVALID_NODE_ID
    (Store (node_ptr sh off n) INVALID_NODE_ID (Store (node_ptr sh off n + 4) 0
    (Store (node_ptr sh off n + 8) INVALID_LOCK_ID (Fence (Ret SUCCESS))))))"

definition mcs_release_tree ::
  "SharedMemoryRegion \<Rightarrow> ShmOffset \<Rightarrow> LockId \<Rightarrow> NodeId \<Rightarrow> LockResult prog \<Rightarrow> LockResult prog"
where
  "mcs_release_tree sh off l n W =
    Load (entry_ptr sh off l + 8) (\<lambda>owner. if owner \<noteq> n then Ret ERROR_NOT_OWNER else
    Load (node_ptr sh off n) (\<lambda>succ. if succ = INVALID_NODE_ID then
      CompareExchange (entry_ptr sh off l) n INVALID_NODE_ID (\<lambda>last. if last then
        mcs_empty_tree sh off l n else W)
    else mcs_pass_tree sh off l n succ))"

lemma mcs_release_tree_of:
  assumes fit: "lines_fit sh nc off" and l: "l < MAX_LOCK_COUNT" and n: "n < nc"
    and hw: "shm_consistency sh = HARDWARE_CONSISTENCY"
  shows "\<exists>W. mcs_release_lock fuel \<lparr>mcs_node_count = nc\<rparr> n l (Some sh) off = mcs_release_tree sh off l n W"
  using l n lines_fit_node [OF fit n] hw
  by (simp add: mcs_release_lock_def mcs_release_tree_def mcs_empty_tree_def mcs_pass_tree_def mcs_pass_lock_def tree_simps mcs_ptrs [OF fit] not_le
      cong: if_cong) blast

lemma mcs_request_tree_of:
  assumes fit: "lines_fit sh nc off" and l: "l < MAX_LOCK_COUNT" and n: "n < nc"
    and tt: "client_lock (McsAlgorithm \<lparr>mcs_node_count = nc\<rparr>) sh nc off n tt"
    and hw: "shm_consistency sh = HARDWARE_CONSISTENCY"
  shows "\<exists>C. tt_global_acquire 2 tt (McsAlgorithm \<lparr>mcs_node_count = nc\<rparr>) clk l timeout = mcs_request_tree sh off l n (mcs_poll_tree sh off l n C) \<and>
    (0 < timeout \<longrightarrow> timeout \<le> clk 0 \<longrightarrow>
      C = bind (mcs_release_lock 2 \<lparr>mcs_node_count = nc\<rparr> n l (Some sh) off) (\<lambda>_. Ret ERROR_TIMEOUT))"
proof -
  have t: "tt_node_id tt = n" "tt_shm tt = Some sh" "tt_state_offset tt = off"
    using tt by (simp_all add: client_lock_def)
  define C where "C = bind (if 0 < timeout then if timeout \<le> clk 0 then Ret ERROR_TIMEOUT
         else tt_poll 1 tt l timeout clk 1 (snd (adaptive_backoff 0))
       else tt_poll 1 tt l timeout clk 1 (snd (adaptive_backoff 0)))
     (\<lambda>rc. if rc \<noteq> SUCCESS then bind (mcs_release_lock 2 \<lparr>mcs_node_count = nc\<rparr> n l (Some sh) off) (\<lambda>_. Ret rc) else Ret SUCCESS)"
  have poll: "bind (poll_for_grant 2 tt clk l timeout)
      (\<lambda>rc. if rc \<noteq> SUCCESS then bind (mcs_release_lock 2 \<lparr>mcs_node_count = nc\<rparr> n l (Some sh) off) (\<lambda>_. Ret rc) else Ret SUCCESS) =
      Load (node_ptr sh off n + 4) (\<lambda>v. Load (node_ptr sh off n + 8) (\<lambda>w. if (v = 2 \<or> v = 0) \<and> w = l then Ret SUCCESS else C))"
    by (simp add: poll_for_grant_def numeral_2_eq_2 tt_granted_mcs [OF fit n tt] tree_simps C_def bind_if cong: if_cong)
  have pred: "bind (case a of None \<Rightarrow> Crash | Some p \<Rightarrow> f p) g = (case a of None \<Rightarrow> Crash | Some p \<Rightarrow> bind (f p) g)"
    for a and f :: "ptr \<Rightarrow> LockResult prog" and g :: "LockResult \<Rightarrow> LockResult prog"
    by (simp split: option.split)
  have "tt_global_acquire 2 tt (McsAlgorithm \<lparr>mcs_node_count = nc\<rparr>) clk l timeout = mcs_request_tree sh off l n (mcs_poll_tree sh off l n C)"
    using l n lines_fit_node [OF fit n] hw
    by (simp add: tt_global_acquire_def alg_acquire_lock_def alg_release_lock_def t mcs_acquire_lock_def mcs_request_tree_def
        poll [unfolded mcs_poll_tree_def] mcs_poll_tree_def tree_simps mcs_ptrs [OF fit] bind_if not_le Let_def pred bind_assoc cong: if_cong option.case_cong)
  then show ?thesis by (intro exI [of _ C]) (simp add: C_def)
qed


text \<open>The stretches of a request, a release and a scan of which the histories are made.\<close>

lemma mcs_swap_tail_2:
  "mcs_swap_tail 2 p e d = CompareExchange p e d (\<lambda>ok. if ok then Ret e else
     Load p (\<lambda>v. if v = d then Ret v else CompareExchange p v d (\<lambda>ok. if ok then Ret v else
     Load p (\<lambda>w. if w = d then Ret w else OutOfFuel))))"
  by (simp add: numeral_2_eq_2 tree_simps bind_if cong: if_cong)

lemma mcs_enqueue_first:
  assumes fit: "lines_fit sh nc off" and "l < MAX_LOCK_COUNT" and "n < nc" and "m (ecell off l 0) = INVALID_NODE_ID"
  shows "advance_client_by 6 sh (Acquiring (mcs_request_tree sh off l n P)) m = (Acquiring P,
    m(ncell off n 0 := INVALID_NODE_ID, ncell off n 4 := 1, ncell off n 8 := l, ecell off l 0 := n, ecell off l 4 := n))"
  using assms by (simp add: mcs_request_tree_def mcs_swap_tail_2 deref_def mcs_run_simps mcs_ptrs [OF fit])

lemma mcs_enqueue_behind:
  assumes fit: "lines_fit sh nc off" and "l < MAX_LOCK_COUNT" and "n < nc" and "m (ecell off l 0) = y" and "y < nc" and "y \<noteq> n"
  shows "advance_client_by 8 sh (Acquiring (mcs_request_tree sh off l n P)) m = (Acquiring P,
    m(ncell off n 0 := INVALID_NODE_ID, ncell off n 4 := 1, ncell off n 8 := l, ecell off l 0 := n, ncell off y 0 := n))"
  using assms lines_fit_node [OF fit \<open>y < nc\<close>]
  by (simp add: mcs_request_tree_def mcs_swap_tail_2 deref_def mcs_run_simps mcs_ptrs [OF fit])

lemma mcs_poll_enters:
  assumes fit: "lines_fit sh nc off" and "n < nc" and "m (ncell off n 4) = 2 \<or> m (ncell off n 4) = 0" and "m (ncell off n 8) = l"
  shows "advance_client_by 3 sh (Acquiring (mcs_poll_tree sh off l n C)) m = (Critical, m)"
  using assms by (auto simp: mcs_poll_tree_def mcs_run_simps mcs_ptrs [OF fit])

lemma mcs_poll_waits:
  assumes fit: "lines_fit sh nc off" and "n < nc" and "m (ncell off n 4) = 1"
  shows "advance_client_by 2 sh (Acquiring (mcs_poll_tree sh off l n C)) m = (Acquiring C, m)"
  using assms by (simp add: mcs_poll_tree_def mcs_run_simps mcs_ptrs [OF fit])

lemma mcs_release_swaps:
  assumes fit: "lines_fit sh nc off" and "l < MAX_LOCK_COUNT" and "n < nc"
    and "m (ecell off l 8) = n" and "m (ncell off n 0) = INVALID_NODE_ID" and "m (ecell off l 0) = n"
  shows "advance_client_by 3 sh (Releasing (mcs_release_tree sh off l n W)) m =
    (Releasing (mcs_empty_tree sh off l n), m(ecell off l 0 := INVALID_NODE_ID))"
  using assms by (simp add: mcs_release_tree_def mcs_run_simps mcs_ptrs [OF fit])

lemma mcs_release_empties:
  assumes fit: "lines_fit sh nc off" and "l < MAX_LOCK_COUNT" and "n < nc"
  shows "advance_client_by 7 sh (Releasing (mcs_empty_tree sh off l n)) m = (Idle,
    m(ecell off l 4 := INVALID_NODE_ID, ecell off l 8 := INVALID_NODE_ID, ncell off n 0 := INVALID_NODE_ID,
      ncell off n 4 := 0, ncell off n 8 := INVALID_LOCK_ID))"
  using assms by (simp add: mcs_empty_tree_def mcs_run_simps mcs_ptrs [OF fit])


lemma mcs_cancel_empties:
  assumes fit: "lines_fit sh nc off" and "l < MAX_LOCK_COUNT" and "n < nc"
    and "m (ecell off l 8) = n" and "m (ncell off n 0) = INVALID_NODE_ID" and "m (ecell off l 0) = n"
  shows "advance_client_by 10 sh (Acquiring (bind (mcs_release_tree sh off l n W) (\<lambda>_. Ret ERROR_TIMEOUT))) m = (Idle,
    m(ecell off l 0 := INVALID_NODE_ID, ecell off l 4 := INVALID_NODE_ID, ecell off l 8 := INVALID_NODE_ID,
      ncell off n 0 := INVALID_NODE_ID, ncell off n 4 := 0, ncell off n 8 := INVALID_LOCK_ID))"
  using assms by (simp add: mcs_release_tree_def mcs_empty_tree_def mcs_run_simps mcs_ptrs [OF fit])

text \<open>A release that passes the lock on, paused before it wakes the successor.\<close>

definition mcs_wake_tree ::
  "SharedMemoryRegion \<Rightarrow> ShmOffset \<Rightarrow> NodeId \<Rightarrow> NodeId \<Rightarrow> LockResult prog"
where
  "mcs_wake_tree sh off n y = Store (node_ptr sh off y + 4) 0
     (Store (node_ptr sh off n) INVALID_NODE_ID (Store (node_ptr sh off n + 4) 0
     (Store (node_ptr sh off n + 8) INVALID_LOCK_ID (Fence (Ret SUCCESS)))))"

lemma mcs_release_names:
  assumes fit: "lines_fit sh nc off" and "l < MAX_LOCK_COUNT" and "n < nc"
    and "m (ecell off l 8) = n" and "m (ncell off n 0) = y" and "y < nc"
  shows "advance_client_by 4 sh (Releasing (mcs_release_tree sh off l n W)) m =
    (Releasing (mcs_wake_tree sh off n y), m(ecell off l 4 := y, ecell off l 8 := y))"
  using assms lines_fit_node [OF fit \<open>y < nc\<close>]
  by (simp add: mcs_release_tree_def mcs_pass_tree_def mcs_wake_tree_def mcs_run_simps mcs_ptrs [OF fit])

lemma mcs_release_wakes:
  assumes fit: "lines_fit sh nc off" and "n < nc" and "y < nc"
  shows "advance_client_by 6 sh (Releasing (mcs_wake_tree sh off n y)) m = (Idle,
    m(ncell off y 4 := 0, ncell off n 0 := INVALID_NODE_ID, ncell off n 4 := 0, ncell off n 8 := INVALID_LOCK_ID))"
  using assms by (simp add: mcs_wake_tree_def mcs_run_simps mcs_ptrs [OF fit])

definition scanned_manager :: "LockManager \<Rightarrow> LockManager" where
  "scanned_manager lm = lm\<lparr>lm_stats := (count_grant 0 (lm_stats lm))\<lparr>scan_cycles := scan_cycles (count_grant 0 (lm_stats lm)) + 1\<rparr>\<rparr>"

lemma scanned_manager_ready [simp]:
  "manager_ready alg sh nc off (scanned_manager lm) \<longleftrightarrow> manager_ready alg sh nc off lm"
  "lm_max_locks (scanned_manager lm) = lm_max_locks lm"
  by (simp_all add: scanned_manager_def manager_ready_def)

text \<open>A scan that grants the lock: first what the node polls, then the owner.\<close>

lemma mcs_scan_wakes:
  assumes fit: "lines_fit sh nc off" and "manager_ready (McsAlgorithm \<lparr>mcs_node_count = nc\<rparr>) sh nc off lm" and "lm_max_locks lm = 1"
    and "m (ecell off 0 4) = n" and "n < nc" and "m (ecell off 0 8) = INVALID_NODE_ID" and "m (ncell off n 4) = 1"
    and "m (ncell off n 8) = 0" and hw: "shm_consistency sh = HARDWARE_CONSISTENCY"
  shows "advance_prog_by 5 sh (run_single_scan lm) m =
    (Store (entry_ptr sh off 0 + 8) n (Fence (Ret (scanned_manager lm))), m(ncell off n 4 := 2))"
proof -
  have upto: "u32_upto 1 = [0]" by (simp add: u32_upto_def upt_rec)
  have nc: "nc \<noteq> 0" "n \<noteq> INVALID_NODE_ID" "\<not> nc \<le> n" "(0 :: u32) < MAX_LOCK_COUNT" "MAX_LOCK_COUNT \<noteq> 0"
    using fit lines_fit_node [OF fit assms(5)] assms(5) by (auto simp: lines_fit_def MAX_LOCK_COUNT_def not_le)
  show ?thesis
    using assms(2-8) nc hw
    by (simp add: run_single_scan_def manager_ready_def upto alg_check_grant_def alg_grant_lock_def mcs_check_grant_def mcs_grant_lock_def
        tree_simps mcs_run_simps mcs_ptrs [OF fit] scanned_manager_def Let_def)
qed

lemma mcs_scan_names:
  assumes "lines_fit sh nc off"
  shows "advance_prog_by 2 sh (Store (entry_ptr sh off 0 + 8) n (Fence (Ret lm))) m = (Ret lm, m(ecell off 0 8 := n))"
  by (simp add: mcs_run_simps mcs_ptrs [OF assms] MAX_LOCK_COUNT_def)

lemma mcs_release_refused:
  assumes fit: "lines_fit sh nc off" and "l < MAX_LOCK_COUNT" and "m (ecell off l 8) \<noteq> n"
  shows "advance_client_by 2 sh (Releasing (mcs_release_tree sh off l n W)) m = (Idle, m)"
  using assms by (simp add: mcs_release_tree_def mcs_run_simps mcs_ptrs [OF fit])

section \<open>A release that overlaps a new request\<close>

definition trio_request :: "u64 \<Rightarrow> NodeId \<Rightarrow> LockResult prog" where
  "trio_request now n = tt_global_acquire 2 (trio_lock n) (McsAlgorithm \<lparr>mcs_node_count = 3\<rparr>) (\<lambda>_. now) 0 1"

definition trio_release :: "NodeId \<Rightarrow> LockResult prog" where
  "trio_release n = tt_global_release 2 (trio_lock n) (McsAlgorithm \<lparr>mcs_node_count = 3\<rparr>) 0"

lemma trio_trees:
  assumes "n < 3"
  obtains C W where "trio_request 0 n = mcs_request_tree demo_region 0 0 n (mcs_poll_tree demo_region 0 0 n C)"
    and "trio_request 1 n = mcs_request_tree demo_region 0 0 n
      (mcs_poll_tree demo_region 0 0 n (bind (mcs_release_tree demo_region 0 0 n W) (\<lambda>_. Ret ERROR_TIMEOUT)))"
    and "trio_release n = mcs_release_tree demo_region 0 0 n W"
proof -
  note req = mcs_request_tree_of [OF demo_fit(2) trio_bounds(1) assms trio_lock_client demo_region_fields(3)]
  obtain W where W: "mcs_release_lock 2 \<lparr>mcs_node_count = 3\<rparr> n 0 (Some demo_region) 0 = mcs_release_tree demo_region 0 0 n W"
    using mcs_release_tree_of [OF demo_fit(2) trio_bounds(1) assms demo_region_fields(3)] by blast
  obtain C where "trio_request 0 n = mcs_request_tree demo_region 0 0 n (mcs_poll_tree demo_region 0 0 n C)"
    using req [of "\<lambda>_. 0" 1] unfolding trio_request_def by blast
  moreover have "trio_request 1 n = mcs_request_tree demo_region 0 0 n
      (mcs_poll_tree demo_region 0 0 n (bind (mcs_release_tree demo_region 0 0 n W) (\<lambda>_. Ret ERROR_TIMEOUT)))"
    using req [of "\<lambda>_. 1" 1] unfolding trio_request_def W by auto
  moreover have "trio_release n = mcs_release_tree demo_region 0 0 n W"
    using W trio_lock_client [of n] by (simp add: trio_release_def tt_global_release_def alg_release_lock_def client_lock_def)
  ultimately show thesis by (rule that)
qed

lemma trio_manager_ready: "manager_ready (McsAlgorithm \<lparr>mcs_node_count = 3\<rparr>) demo_region 3 0 trio_manager" "lm_max_locks trio_manager = 1"
  by (simp_all add: manager_ready_def trio_manager_def demo_manager_def new_lock_manager_def MAX_LOCK_COUNT_def)

lemmas trio_histories = mcs_enqueue_first mcs_enqueue_behind mcs_poll_enters mcs_poll_waits mcs_release_swaps mcs_release_empties
  mcs_cancel_empties mcs_release_names mcs_release_wakes mcs_release_refused
  mcs_scan_wakes mcs_scan_names

text \<open>
  Node 0 enters and starts to release: its compare-and-swap empties the queue. Node 1 enters the queue and
  records itself as its head; the rest of node 0's release erases that record.
\<close>

definition mcs_lost_schedule :: "(NodeId \<times> LockId) choice list" where
  "mcs_lost_schedule =
     [StartAcquire (0, 0) (trio_request 0 0), Advance (0, 0) 6, NextScan, AdvanceManager 5, AdvanceManager 2, Advance (0, 0) 3,
      StartRelease (0, 0) (trio_release 0), Advance (0, 0) 3,
      StartAcquire (1, 0) (trio_request 0 1), Advance (1, 0) 6,
      Advance (0, 0) 7]"

fun is_acquiring :: "client \<Rightarrow> bool" where
  "is_acquiring (Acquiring p) = True"
| "is_acquiring _ = False"

lemma mcs_lost_run:
  assumes "mcs_fresh 0 m"
  defines "s \<equiv> run_schedule (open_protocol (\<lambda>_. demo_region) demo_region) mcs_lost_schedule (initial_system m trio_manager)"
  shows "clients s (0, 0) = Idle \<and> is_acquiring (clients s (1, 0)) \<and>
     mcs_entry 0 (shared s) 0 = \<lparr>tail_node = 1, head_node = INVALID_NODE_ID, mcs_owner = INVALID_NODE_ID\<rparr> \<and>
     mcs_node 0 (shared s) 1 = \<lparr>next_node = INVALID_NODE_ID, locked = 1, waiting_lock = 0\<rparr>"
proof -
  obtain A W where A: "trio_request 0 0 = mcs_request_tree demo_region 0 0 0 (mcs_poll_tree demo_region 0 0 0 A)"
      "trio_release 0 = mcs_release_tree demo_region 0 0 0 W"
    using trio_trees [OF trio_bounds(3)] by metis
  obtain B where B: "trio_request 0 1 = mcs_request_tree demo_region 0 0 1 (mcs_poll_tree demo_region 0 0 1 B)"
    using trio_trees [OF trio_bounds(4)] by metis
  have fresh: "m (ecell 0 0 0) = INVALID_NODE_ID" "m (ecell 0 0 4) = INVALID_NODE_ID" "m (ecell 0 0 8) = INVALID_NODE_ID"
    using assms(1) trio_bounds(1) by (simp_all add: mcs_fresh_def)
  show ?thesis
    using trio_bounds unfolding s_def mcs_lost_schedule_def A B
    by (simp add: run_schedule_def open_protocol_def initial_system_def fresh trio_manager_ready demo_region_fields layout_simps
        trio_histories [OF demo_fit(2)] mcs_entry_def mcs_node_def del: advance_numeral)
qed

abbreviation "trio_steady \<equiv> steady_protocol (McsAlgorithm \<lparr>mcs_node_count = 3\<rparr>) 3 0 (\<lambda>_. demo_region) demo_region (\<lambda>_. 0)"

lemma trio_steady_open:
  "run_schedule trio_steady cs s = run_schedule (open_protocol (\<lambda>_. demo_region) demo_region) cs s"
  by (rule run_schedule_cong) (simp_all add: steady_protocol_def lock_protocol_def open_protocol_def)

lemma trio_steady_allowed:
  assumes "n < 3"
  shows "acquisition trio_steady (n, 0) (trio_request 0 n)" "release trio_steady (n, 0) (trio_release n)"
proof -
  have "\<exists>clk timeout. (\<forall>i :: nat. clk i < (timeout :: u64)) \<and>
      trio_request 0 n = tt_global_acquire 2 (trio_lock n) (McsAlgorithm \<lparr>mcs_node_count = 3\<rparr>) clk 0 timeout"
    by (intro exI [of _ "\<lambda>_. 0"] exI [of _ 1]) (simp add: trio_request_def)
  then show "acquisition trio_steady (n, 0) (trio_request 0 n)"
    using assms trio_lock_client [of n] trio_bounds(1) unfolding steady_protocol_def by auto
  show "release trio_steady (n, 0) (trio_release n)"
    using assms trio_lock_client [of n] trio_bounds(1)
    by (auto simp: steady_protocol_def lock_protocol_def trio_release_def)
qed

text \<open>
  C9. The MCS algorithm loses a waiter, even where it is exclusive: a node that leaves an empty queue erases the head in a
  second access, after another node may have entered the queue as its new head. A state is reachable from initialised memory,
  with one lock and without timeouts, in which node 0 has left, node 1 alone is in the queue, and neither its poll
  nor a scan of the manager, which finds no head, ever changes anything.
\<close>

theorem mcs_release_loses_waiter:
  "\<exists>m0 s. run demo_region (alg_initialize new_mcs (Some demo_region) 0 3) m =
       Result (SUCCESS, McsAlgorithm \<lparr>mcs_node_count = 3\<rparr>) m0 \<and>
     reachable trio_steady (initial_system m0 trio_manager) s \<and>
     clients s (0, 0) = Idle \<and> is_acquiring (clients s (1, 0)) \<and> tail_node (mcs_entry 0 (shared s) 0) = 1 \<and>
     run demo_region (tt_granted (trio_lock 1) 0) (shared s) = Result False (shared s) \<and>
     run demo_region (scan_lock (McsAlgorithm \<lparr>mcs_node_count = 3\<rparr>) (Some demo_region) 0 3 0) (shared s) =
       Result ERROR_BUSY (shared s)"
proof -
  let ?alg = "McsAlgorithm \<lparr>mcs_node_count = 3\<rparr>"
  obtain m0 where m0: "run demo_region (alg_initialize new_mcs (Some demo_region) 0 3) m = Result (SUCCESS, ?alg) m0" "mcs_fresh 0 m0"
    using mcs_fresh_initialized [OF demo_fit(2)] by blast
  define s where "s = run_schedule trio_steady mcs_lost_schedule (initial_system m0 trio_manager)"
  have "list_all (choice_allowed trio_steady) mcs_lost_schedule"
    using trio_steady_allowed [of 0] trio_steady_allowed [of 1] by (simp add: mcs_lost_schedule_def)
  then have reach: "reachable trio_steady (initial_system m0 trio_manager) s"
    unfolding s_def by (rule run_schedule_reachable)
  note end_state = mcs_lost_run [OF m0(2), folded trio_steady_open, folded s_def]
  have "run demo_region (tt_granted (trio_lock 1) 0) (shared s) = Result False (shared s)"
    using run_tt_granted_mcs [OF demo_fit(2) trio_bounds(1,4) trio_lock_client, of "shared s"] end_state by simp
  moreover have "run demo_region (scan_lock ?alg (Some demo_region) 0 3 0) (shared s) = Result ERROR_BUSY (shared s)"
    using run_mcs_check [OF demo_fit(2) trio_bounds(1), of "shared s"] end_state
    by (simp add: scan_lock_def alg_check_grant_def run_bind INVALID_NODE_ID_def)
  ultimately show ?thesis using m0(1) reach end_state by (intro exI [of _ m0] exI [of _ s]) simp
qed

section \<open>A release before the owner is recorded\<close>

text \<open>
  The manager tells node 0 that it has the lock; node 0 enters and leaves before the manager writes the owner.
\<close>

definition mcs_early_schedule :: "(NodeId \<times> LockId) choice list" where
  "mcs_early_schedule =
     [StartAcquire (0, 0) (trio_request 0 0), Advance (0, 0) 6, NextScan, AdvanceManager 5, Advance (0, 0) 3,
      StartRelease (0, 0) (trio_release 0), Advance (0, 0) 2, AdvanceManager 2]"

lemma mcs_early_run:
  assumes "mcs_fresh 0 m"
  defines "s \<equiv> run_schedule (open_protocol (\<lambda>_. demo_region) demo_region) mcs_early_schedule (initial_system m trio_manager)"
  shows "clients s = (\<lambda>_. Idle) \<and> mcs_entry 0 (shared s) 0 = \<lparr>tail_node = 0, head_node = 0, mcs_owner = 0\<rparr>"
proof -
  obtain A W where A: "trio_request 0 0 = mcs_request_tree demo_region 0 0 0 (mcs_poll_tree demo_region 0 0 0 A)"
      "trio_release 0 = mcs_release_tree demo_region 0 0 0 W"
    using trio_trees [OF trio_bounds(3)] by metis
  have fresh: "m (ecell 0 0 0) = INVALID_NODE_ID" "m (ecell 0 0 4) = INVALID_NODE_ID" "m (ecell 0 0 8) = INVALID_NODE_ID"
    using assms(1) trio_bounds(1) by (simp_all add: mcs_fresh_def)
  have inv: "INVALID_NODE_ID \<noteq> 0" by (simp add: INVALID_NODE_ID_def)
  show ?thesis
    using trio_bounds inv unfolding s_def mcs_early_schedule_def A
    by (simp add: run_schedule_def open_protocol_def initial_system_def fresh trio_manager_ready demo_region_fields layout_simps
        trio_histories [OF demo_fit(2)] mcs_entry_def fun_upd_idem del: advance_numeral)
qed

text \<open>
  C10. Under the MCS algorithm a lock can stay locked with nobody inside: \<open>grant_lock\<close> lets the node in before it records the node as
  the owner, and a release in between is refused. A state is reachable from initialised memory, with one lock and without
  timeouts, in which every node is idle and node 0 is recorded as the owner, so that no scan grants the lock any more.
\<close>

theorem mcs_lock_stays_locked:
  "\<exists>m0 s. run demo_region (alg_initialize new_mcs (Some demo_region) 0 3) m =
       Result (SUCCESS, McsAlgorithm \<lparr>mcs_node_count = 3\<rparr>) m0 \<and>
     reachable trio_steady (initial_system m0 trio_manager) s \<and>
     clients s = (\<lambda>_. Idle) \<and> mcs_owner (mcs_entry 0 (shared s) 0) = 0 \<and>
     run demo_region (scan_lock (McsAlgorithm \<lparr>mcs_node_count = 3\<rparr>) (Some demo_region) 0 3 0) (shared s) =
       Result ERROR_BUSY (shared s)"
proof -
  let ?alg = "McsAlgorithm \<lparr>mcs_node_count = 3\<rparr>"
  obtain m0 where m0: "run demo_region (alg_initialize new_mcs (Some demo_region) 0 3) m = Result (SUCCESS, ?alg) m0" "mcs_fresh 0 m0"
    using mcs_fresh_initialized [OF demo_fit(2)] by blast
  define s where "s = run_schedule trio_steady mcs_early_schedule (initial_system m0 trio_manager)"
  have "list_all (choice_allowed trio_steady) mcs_early_schedule"
    using trio_steady_allowed [of 0] by (simp add: mcs_early_schedule_def)
  then have reach: "reachable trio_steady (initial_system m0 trio_manager) s"
    unfolding s_def by (rule run_schedule_reachable)
  note end_state = mcs_early_run [OF m0(2), folded trio_steady_open, folded s_def]
  have "run demo_region (scan_lock ?alg (Some demo_region) 0 3 0) (shared s) = Result ERROR_BUSY (shared s)"
    using run_mcs_check [OF demo_fit(2) trio_bounds(1), of "shared s"] end_state
    by (simp add: scan_lock_def alg_check_grant_def run_bind INVALID_NODE_ID_def)
  then show ?thesis using m0(1) reach end_state by (intro exI [of _ m0] exI [of _ s]) simp
qed

section \<open>A timeout while the lock is passed on\<close>

text \<open>
  Node 0 holds the lock and node 1 waits. Node 0 names node 1 as the next owner; before it wakes node 1, the request of
  node 1 times out and is cancelled with success. Node 2 asks and is granted the lock, node 1 asks again and waits behind it; now
  node 0 wakes node 1.
\<close>

definition mcs_timeout_schedule :: "(NodeId \<times> LockId) choice list" where
  "mcs_timeout_schedule =
     [StartAcquire (0, 0) (trio_request 0 0), Advance (0, 0) 6, NextScan, AdvanceManager 5, AdvanceManager 2, Advance (0, 0) 3,
      StartAcquire (1, 0) (trio_request 1 1), Advance (1, 0) 8,
      StartRelease (0, 0) (trio_release 0), Advance (0, 0) 4,
      Advance (1, 0) 2, Advance (1, 0) 10,
      StartAcquire (2, 0) (trio_request 0 2), Advance (2, 0) 6, NextScan, AdvanceManager 5, AdvanceManager 2, Advance (2, 0) 3,
      StartAcquire (1, 0) (trio_request 0 1), Advance (1, 0) 8,
      Advance (0, 0) 6, Advance (1, 0) 3]"

lemma mcs_timeout_run:
  assumes "mcs_fresh 0 m"
  defines "s \<equiv> run_schedule (open_protocol (\<lambda>_. demo_region) demo_region) mcs_timeout_schedule (initial_system m trio_manager)"
  shows "is_critical (clients s (1, 0)) \<and> is_critical (clients s (2, 0))"
proof -
  obtain A W where A: "trio_request 0 0 = mcs_request_tree demo_region 0 0 0 (mcs_poll_tree demo_region 0 0 0 A)"
      "trio_release 0 = mcs_release_tree demo_region 0 0 0 W"
    using trio_trees [OF trio_bounds(3)] by metis
  obtain B V where B: "trio_request 0 1 = mcs_request_tree demo_region 0 0 1 (mcs_poll_tree demo_region 0 0 1 B)"
      "trio_request 1 1 = mcs_request_tree demo_region 0 0 1
        (mcs_poll_tree demo_region 0 0 1 (bind (mcs_release_tree demo_region 0 0 1 V) (\<lambda>_. Ret ERROR_TIMEOUT)))"
    using trio_trees [OF trio_bounds(4)] by metis
  obtain C where C: "trio_request 0 2 = mcs_request_tree demo_region 0 0 2 (mcs_poll_tree demo_region 0 0 2 C)"
    using trio_trees [OF trio_bounds(5)] by metis
  have fresh: "m (ecell 0 0 0) = INVALID_NODE_ID" "m (ecell 0 0 4) = INVALID_NODE_ID" "m (ecell 0 0 8) = INVALID_NODE_ID"
    using assms(1) trio_bounds(1) by (simp_all add: mcs_fresh_def)
  show ?thesis
    using trio_bounds unfolding s_def mcs_timeout_schedule_def A B C
    by (simp add: run_schedule_def open_protocol_def initial_system_def fresh trio_manager_ready demo_region_fields layout_simps
        trio_histories [OF demo_fit(2)] del: advance_numeral)
qed

text \<open>
  C7. With timeouts, the MCS algorithm lets two nodes into the critical section, already with a single lock: a request
  that times out is withdrawn with success between the two accesses by which the previous holder names it as the owner and wakes
  it, and the wake-up then reaches a later request of the same node. The state is reachable from initialised memory by interleaving
  single accesses of three nodes and the manager.
\<close>

theorem mcs_timeout_not_exclusive:
  "\<exists>m0 s. run demo_region (alg_initialize new_mcs (Some demo_region) 0 3) m =
       Result (SUCCESS, McsAlgorithm \<lparr>mcs_node_count = 3\<rparr>) m0 \<and>
     reachable (lock_protocol (McsAlgorithm \<lparr>mcs_node_count = 3\<rparr>) 3 0 (\<lambda>_. demo_region) demo_region)
       (initial_system m0 trio_manager) s \<and>
     clients s (1, 0) = Critical \<and> clients s (2, 0) = Critical"
proof -
  let ?alg = "McsAlgorithm \<lparr>mcs_node_count = 3\<rparr>"
  let ?P = "lock_protocol ?alg 3 0 (\<lambda>_. demo_region) demo_region"
  obtain m0 where m0: "run demo_region (alg_initialize new_mcs (Some demo_region) 0 3) m = Result (SUCCESS, ?alg) m0" "mcs_fresh 0 m0"
    using mcs_fresh_initialized [OF demo_fit(2)] by blast
  have ok: "acquisition ?P (n, 0) (trio_request now n)" "release ?P (n, 0) (trio_release n)" if "n < 3" for n now
    using that trio_lock_client [of n] trio_bounds(1)
    by (auto simp: lock_protocol_def trio_request_def trio_release_def)
  have "list_all (choice_allowed ?P) mcs_timeout_schedule"
    using ok [of 0] ok [of 1] ok [of 2] by (simp add: mcs_timeout_schedule_def)
  from run_schedule_reachable [OF this, of "initial_system m0 trio_manager"]
  show ?thesis
    using m0(1) mcs_timeout_run [OF m0(2)] unfolding run_schedule_open is_critical_iff by blast
qed

end
