(* ===== verification/Faa_Races.thy ===== *)
theory Faa_Races
  imports Faa_Service Interleave
begin

text \<open>
  Two ways in which the FAA algorithm lets two nodes hold one lock, as reachable states of the
  model from freshly initialised memory. With several locks, a grant on one lock is computed
  from the tickets of another; with a single lock, the ticket is taken and published in
  separate accesses, and a scan between them overtakes it.
\<close>

section \<open>Initialised memory\<close>

definition faa_fresh :: "u32 \<Rightarrow> ShmOffset \<Rightarrow> mem \<Rightarrow> bool" where
  "faa_fresh nc off m \<longleftrightarrow>
     (\<forall>l < MAX_LOCK_COUNT. m (ecell off l 0) = 0 \<and> m (ecell off l 4) = 0 \<and>
                           m (ecell off l 8) = INVALID_NODE_ID) \<and>
     (\<forall>n < nc. m (ncell off n 0) = 0 \<and> m (ncell off n 4) = 0)"

text \<open>What the two loops of \<open>initialize\<close> write, for the fields at offsets 0, 4 and 8.\<close>

lemma run_faa_init_entries:
  assumes fit: "lines_fit sh nc off" and "\<forall>l \<in> set ls. l < MAX_LOCK_COUNT"
  shows "\<exists>m'. run sh (faa_init_entries sh off ls) m = Result () m' \<and>
    (\<forall>l < MAX_LOCK_COUNT. \<forall>f \<in> {0, 4, 8}. m' (ecell off l f) =
       (if l \<in> set ls then if f = 8 then INVALID_NODE_ID else 0 else m (ecell off l f)))"
  using assms(2)
proof (induction ls arbitrary: m)
  case Nil
  then show ?case by simp
next
  case (Cons l ls)
  then have l: "l < MAX_LOCK_COUNT" and ls: "\<forall>l \<in> set ls. l < MAX_LOCK_COUNT" by simp_all
  define m1 where "m1 = m(ecell off l 0 := 0, ecell off l 4 := 0, ecell off l 8 := INVALID_NODE_ID,
                          ecell off l 12 := 0)"
  have start: "run sh (faa_init_entries sh off (l # ls)) m = run sh (faa_init_entries sh off ls) m1"
    using l by (simp add: faa_run_simps faa_ptrs [OF fit] m1_def)
  obtain m' where m': "run sh (faa_init_entries sh off ls) m1 = Result () m'"
      "\<forall>l < MAX_LOCK_COUNT. \<forall>f \<in> {0, 4, 8}. m' (ecell off l f) =
         (if l \<in> set ls then if f = 8 then INVALID_NODE_ID else 0 else m1 (ecell off l f))"
    using Cons.IH [OF ls] by blast
  have "m1 (ecell off l' f) = (if l' = l then if f = 8 then INVALID_NODE_ID else 0 else m (ecell off l' f))"
    if "f \<in> {0, 4, 8}" for l' f
    using that by (auto simp: m1_def layout_simps)
  then show ?case
    using m' unfolding start by (intro exI [of _ m']) simp
qed

lemma run_faa_init_tickets:
  assumes fit: "lines_fit sh nc off" and "\<forall>n \<in> set ns. n < nc"
  shows "\<exists>m'. run sh (faa_init_tickets sh off ns) m = Result () m' \<and>
    (\<forall>n. \<forall>f \<in> {0, 4}. m' (ncell off n f) = (if n \<in> set ns then 0 else m (ncell off n f))) \<and>
    (\<forall>l < MAX_LOCK_COUNT. \<forall>f \<in> {0, 4, 8}. m' (ecell off l f) = m (ecell off l f))"
  using assms(2)
proof (induction ns arbitrary: m)
  case Nil
  then show ?case by simp
next
  case (Cons n ns)
  then have n: "n < nc" and ns: "\<forall>n \<in> set ns. n < nc" by simp_all
  define m1 where "m1 = m(ncell off n 0 := 0, ncell off n 4 := 0)"
  have start: "run sh (faa_init_tickets sh off (n # ns)) m = run sh (faa_init_tickets sh off ns) m1"
    using n by (simp add: faa_run_simps faa_ptrs [OF fit] m1_def)
  obtain m' where m': "run sh (faa_init_tickets sh off ns) m1 = Result () m'"
      "\<forall>n. \<forall>f \<in> {0, 4}. m' (ncell off n f) = (if n \<in> set ns then 0 else m1 (ncell off n f))"
      "\<forall>l < MAX_LOCK_COUNT. \<forall>f \<in> {0, 4, 8}. m' (ecell off l f) = m1 (ecell off l f)"
    using Cons.IH [OF ns] by blast
  have "m1 (ncell off n' f) = (if n' = n then 0 else m (ncell off n' f))" if "f \<in> {0, 4}" for n' f
    using that by (auto simp: m1_def layout_simps)
  moreover have "m1 (ecell off l f) = m (ecell off l f)"
    if "l < MAX_LOCK_COUNT" "f \<in> {0, 4, 8}" for l f
    using that by (auto simp: m1_def layout_simps)
  ultimately show ?case
    using m' unfolding start by (intro exI [of _ m']) simp
qed

lemma run_faa_initialize:
  assumes fit: "lines_fit sh nc off"
  shows "\<exists>m'. run sh (faa_initialize self (Some sh) off nc) m =
           Result (SUCCESS, self\<lparr>faa_node_count := nc\<rparr>) m' \<and> faa_fresh nc off m'"
proof -
  have nc: "nc \<noteq> 0" "\<not> MAX_NODE_COUNT < nc" "nc \<le> MAX_NODE_COUNT"
    using fit by (auto simp: lines_fit_def)
  have sz: "unat (faa_get_state_size nc) = lines_size nc"
    using lines_state_size [OF nc(3)] by (simp add: faa_get_state_size_def)
  let ?m0 = "zero_cells off (lines_size nc) m"
  obtain m1 where m1: "run sh (faa_init_entries sh off (u32_upto MAX_LOCK_COUNT)) ?m0 = Result () m1"
      "\<forall>l < MAX_LOCK_COUNT. m1 (ecell off l 0) = 0 \<and> m1 (ecell off l 4) = 0 \<and>
                             m1 (ecell off l 8) = INVALID_NODE_ID"
    using run_faa_init_entries [OF fit, of "u32_upto MAX_LOCK_COUNT" ?m0] by auto
  obtain m2 where m2: "run sh (faa_init_tickets sh off (u32_upto nc)) m1 = Result () m2"
      "\<forall>n < nc. m2 (ncell off n 0) = 0 \<and> m2 (ncell off n 4) = 0"
      "\<forall>l < MAX_LOCK_COUNT. \<forall>f \<in> {0, 4, 8}. m2 (ecell off l f) = m1 (ecell off l f)"
    using run_faa_init_tickets [OF fit, of "u32_upto nc" m1] by auto
  have "run sh (faa_initialize self (Some sh) off nc) m = Result (SUCCESS, self\<lparr>faa_node_count := nc\<rparr>) m2"
    using nc lines_base [OF fit] m1(1) m2(1) sz
    by (simp add: faa_initialize_def Let_def prog_simps)
  then show ?thesis using m1(2) m2(2,3) by (auto simp: faa_fresh_def)
qed

section \<open>Tickets of another lock\<close>

lemma faa_two_locks_run:
  assumes "faa_fresh 3 0 m"
  shows "\<exists>m'. run_ops 0 (FaaAlgorithm \<lparr>faa_node_count = 3\<rparr>) demo_region 0 3
            [Acquire 0 0, Release 0 0, Acquire 0 0, Scan 0, Scan 1, Acquire 1 1, Acquire 2 1] m =
          Result [SUCCESS, SUCCESS, SUCCESS, SUCCESS, SUCCESS, SUCCESS, SUCCESS] m' \<and>
     m' (ecell 0 1 4) = 1 \<and> m' (ncell 0 1 0) = 0 \<and> m' (ncell 0 1 4) = 1 \<and>
     m' (ncell 0 2 0) = 1 \<and> m' (ncell 0 2 4) = 1"
  using assms
  by (simp add: faa_fresh_def alg_acquire_lock_def alg_release_lock_def scan_lock_def
      alg_check_grant_def alg_grant_lock_def faa_acquire_lock_def faa_release_lock_def
      faa_check_grant_def faa_grant_lock_def faa_run_simps faa_ptrs [OF demo_fit(2)]
      MAX_LOCK_COUNT_def INVALID_NODE_ID_def u32_upto_def upt_rec)

section \<open>A scan between taking and publishing a ticket\<close>

text \<open>The request of a node and a scan over one lock, as trees.\<close>

lemma faa_request_tree:
  assumes fit: "lines_fit sh nc off" and l: "l < MAX_LOCK_COUNT" and n: "n < nc"
    and tt: "client_lock (FaaAlgorithm \<lparr>faa_node_count = nc\<rparr>) sh nc off n tt"
    and hw: "shm_consistency sh = HARDWARE_CONSISTENCY"
  shows "\<exists>R. tt_global_acquire (Suc fuel) tt (FaaAlgorithm \<lparr>faa_node_count = nc\<rparr>) clk l timeout =
    FetchAdd (entry_ptr sh off l) 1 (\<lambda>my_ticket.
    Store (node_ptr sh off n) my_ticket (Store (node_ptr sh off n + 4) 1 (Fence
    (Load (entry_ptr sh off l + 4) (\<lambda>serving. Load (node_ptr sh off n) (\<lambda>t.
     Load (node_ptr sh off n + 4) (\<lambda>act.
       if t \<le> serving \<and> act \<noteq> 0 then Ret SUCCESS else R)))))))"
proof -
  have "tt_node_id tt = n" "tt_shm tt = Some sh" "tt_state_offset tt = off"
    using tt by (simp_all add: client_lock_def)
  then show ?thesis
    using l n lines_fit_node [OF fit n] hw
    by (simp add: tt_global_acquire_def alg_acquire_lock_def faa_acquire_lock_def poll_for_grant_def
        tt_granted_faa [OF fit l n tt] tree_simps faa_ptrs [OF fit] bind_if cong: if_cong) blast
qed

definition faa_demo_request :: "NodeId \<Rightarrow> LockResult prog" where
  "faa_demo_request n = tt_global_acquire 1 (demo_lock (FaaAlgorithm \<lparr>faa_node_count = 2\<rparr>) n)
     (FaaAlgorithm \<lparr>faa_node_count = 2\<rparr>) (\<lambda>_. 0) 0 0"

text \<open>
  Node 0 takes ticket 0; node 1 takes ticket 1 and publishes it; the manager scans, finds only
  node 1 and serves ticket 1; node 1 polls and enters; node 0 publishes ticket 0, polls, and
  enters too, since \<open>now_serving\<close> has passed its ticket.
\<close>

definition faa_race_schedule :: "(NodeId \<times> LockId) choice list" where
  "faa_race_schedule =
     [StartAcquire (0, 0) (faa_demo_request 0), StartAcquire (1, 0) (faa_demo_request 1),
      Advance (0, 0) 1, Advance (1, 0) 4, NextScan, AdvanceManager 8, Advance (1, 0) 4,
      Advance (0, 0) 7]"

lemma faa_race_run:
  assumes "faa_fresh 2 0 m"
  defines "s \<equiv> run_schedule (open_protocol (\<lambda>_. demo_region) demo_region) faa_race_schedule
             (initial_system m (demo_manager (FaaAlgorithm \<lparr>faa_node_count = 2\<rparr>)))"
  shows "is_critical (clients s (0, 0)) \<and> is_critical (clients s (1, 0))"
proof -
  have l: "(0 :: u32) < MAX_LOCK_COUNT" by (simp add: MAX_LOCK_COUNT_def)
  have n: "(0 :: u32) < 2" "(1 :: u32) < 2" by simp_all
  note tree = faa_request_tree [OF demo_fit(1) l _ demo_lock_client demo_region_fields(3), of _ 0,
      folded One_nat_def]
  obtain R0 R1 where R: "faa_demo_request 0 = FetchAdd (entry_ptr demo_region 0 0) 1 (\<lambda>my_ticket.
      Store (node_ptr demo_region 0 0) my_ticket (Store (node_ptr demo_region 0 0 + 4) 1 (Fence
      (Load (entry_ptr demo_region 0 0 + 4) (\<lambda>serving. Load (node_ptr demo_region 0 0) (\<lambda>t.
       Load (node_ptr demo_region 0 0 + 4) (\<lambda>act.
         if t \<le> serving \<and> act \<noteq> 0 then Ret SUCCESS else R0)))))))"
    "faa_demo_request 1 = FetchAdd (entry_ptr demo_region 0 0) 1 (\<lambda>my_ticket.
      Store (node_ptr demo_region 0 1) my_ticket (Store (node_ptr demo_region 0 1 + 4) 1 (Fence
      (Load (entry_ptr demo_region 0 0 + 4) (\<lambda>serving. Load (node_ptr demo_region 0 1) (\<lambda>t.
       Load (node_ptr demo_region 0 1 + 4) (\<lambda>act.
         if t \<le> serving \<and> act \<noteq> 0 then Ret SUCCESS else R1)))))))"
    using tree [OF n(1)] tree [OF n(2)] unfolding faa_demo_request_def by metis
  show ?thesis
    using assms(1) n l unfolding s_def
    by (simp add: faa_fresh_def faa_race_schedule_def R run_schedule_def open_protocol_def
        initial_system_def run_single_scan_def demo_manager_def new_lock_manager_def
        u32_upto_def upt_rec alg_check_grant_def alg_grant_lock_def faa_check_grant_def
        faa_grant_lock_def tree_simps bind_if faa_ptrs [OF demo_fit(1)] faa_run_simps
        INVALID_NODE_ID_def)
qed

definition faa_demo_client :: "NodeId \<Rightarrow> TwoTierLock" where
  "faa_demo_client n = (demo_lock (FaaAlgorithm \<lparr>faa_node_count = 3\<rparr>) n)
     \<lparr>tt_max_locks := 2, tt_node_count := 3\<rparr>"

text \<open>
  C12. With two locks, the FAA algorithm lets two nodes hold one lock. The ticket record of a node
  is shared by all locks and \<open>check_grant\<close> never compares it with the lock it scans: from
  freshly initialised memory, seven complete calls, each of which returns \<open>SUCCESS\<close>, lead to a memory in which
  the polls of nodes 1 and 2 for lock 1 both report the grant.
\<close>

theorem faa_two_locks_not_exclusive:
  "\<exists>m0 m1. run demo_region (alg_initialize new_faa (Some demo_region) 0 3) m =
       Result (SUCCESS, FaaAlgorithm \<lparr>faa_node_count = 3\<rparr>) m0 \<and>
     run_ops 0 (FaaAlgorithm \<lparr>faa_node_count = 3\<rparr>) demo_region 0 3
       [Acquire 0 0, Release 0 0, Acquire 0 0, Scan 0, Scan 1, Acquire 1 1, Acquire 2 1] m0 =
       Result (replicate 7 SUCCESS) m1 \<and>
     run demo_region (tt_granted (faa_demo_client 1) 1) m1 = Result True m1 \<and>
     run demo_region (tt_granted (faa_demo_client 2) 1) m1 = Result True m1"
proof -
  obtain m0 where m0: "run demo_region (alg_initialize new_faa (Some demo_region) 0 3) m =
       Result (SUCCESS, FaaAlgorithm \<lparr>faa_node_count = 3\<rparr>) m0" "faa_fresh 3 0 m0"
    using run_faa_initialize [OF demo_fit(2), of "\<lparr>faa_node_count = 0\<rparr>" m]
    by (auto simp: alg_initialize_def new_faa_def run_bind)
  obtain m1 where m1: "run_ops 0 (FaaAlgorithm \<lparr>faa_node_count = 3\<rparr>) demo_region 0 3
       [Acquire 0 0, Release 0 0, Acquire 0 0, Scan 0, Scan 1, Acquire 1 1, Acquire 2 1] m0 =
       Result (replicate 7 SUCCESS) m1"
      "m1 (ecell 0 1 4) = 1" "m1 (ncell 0 1 0) = 0" "m1 (ncell 0 1 4) = 1"
      "m1 (ncell 0 2 0) = 1" "m1 (ncell 0 2 4) = 1"
    using faa_two_locks_run [OF m0(2)] by (auto simp: numeral_eq_Suc)
  have "client_lock (FaaAlgorithm \<lparr>faa_node_count = 3\<rparr>) demo_region 3 0 n (faa_demo_client n)" for n
    using demo_lock_client [of "FaaAlgorithm \<lparr>faa_node_count = 3\<rparr>" n]
    by (simp add: client_lock_def faa_demo_client_def)
  from run_tt_granted_faa [OF demo_fit(2) _ _ this]
  have "run demo_region (tt_granted (faa_demo_client n) 1) m1 = Result True m1"
    if "n = 1 \<or> n = 2" for n
    using that m1 by (auto simp: MAX_LOCK_COUNT_def faa_entry_def faa_node_def)
  with m0 m1(1) show ?thesis by blast
qed

text \<open>
  C11. Even with a single lock, the FAA algorithm lets two nodes into the critical section: the
  ticket is taken and published in separate accesses, and a scan between the two serves a later
  ticket. The state is reachable from freshly initialised memory by interleaving single
  accesses of two nodes and the manager.
\<close>

theorem faa_race_not_exclusive:
  "\<exists>m0 s. run demo_region (alg_initialize new_faa (Some demo_region) 0 2) m =
       Result (SUCCESS, FaaAlgorithm \<lparr>faa_node_count = 2\<rparr>) m0 \<and>
     reachable (lock_protocol (FaaAlgorithm \<lparr>faa_node_count = 2\<rparr>) 2 0 (\<lambda>_. demo_region) demo_region)
       (initial_system m0 (demo_manager (FaaAlgorithm \<lparr>faa_node_count = 2\<rparr>))) s \<and>
     clients s (0, 0) = Critical \<and> clients s (1, 0) = Critical"
proof -
  let ?alg = "FaaAlgorithm \<lparr>faa_node_count = 2\<rparr>"
  let ?P = "lock_protocol ?alg 2 0 (\<lambda>_. demo_region) demo_region"
  obtain m0 where m0: "run demo_region (alg_initialize new_faa (Some demo_region) 0 2) m =
       Result (SUCCESS, ?alg) m0" "faa_fresh 2 0 m0"
    using run_faa_initialize [OF demo_fit(1), of "\<lparr>faa_node_count = 0\<rparr>" m]
    by (auto simp: alg_initialize_def new_faa_def run_bind)
  have ok: "acquisition ?P (n, 0) (faa_demo_request n)" if "n < 2" for n
    using that demo_lock_client [of ?alg n]
    by (auto simp: lock_protocol_def faa_demo_request_def MAX_LOCK_COUNT_def)
  have "list_all (choice_allowed ?P) faa_race_schedule"
    using ok [of 0] ok [of 1] by (simp add: faa_race_schedule_def)
  from run_schedule_reachable [OF this, of "initial_system m0 (demo_manager ?alg)"]
  show ?thesis
    using m0(1) faa_race_run [OF m0(2)] unfolding run_schedule_open is_critical_iff by blast
qed

end
