(* ===== verification/Qspin_Service.thy ===== *)
theory Qspin_Service
  imports Lock_Contract
begin

text \<open>
  The qspinlock algorithm: the encoding of its lock word, and its routines as operations on the
  state of a lock with a holder and at most one waiter. In that case they implement the lock
  service (safety); with two waiters a release cuts the queue off (theory \<open>Qspin_Races\<close>). The
  manager has nothing to do for this algorithm: in these states \<open>check_grant\<close> finds no node.
\<close>

section \<open>The encoding of the lock word\<close>

lemma qspin_word_masks:
  "qspin_locked w = take_bit 1 w" "qspin_pending w = take_bit 1 (drop_bit 1 w)"
  "qspin_tail_idx w = take_bit 16 (drop_bit 2 w)"
  "qspin_set_tail w t = take_bit 2 w OR push_bit 2 t"
  by (simp_all add: qspin_locked_def qspin_pending_def qspin_tail_idx_def qspin_set_tail_def
      take_bit_eq_mask mask_eq_exp_minus_1)

lemma qspin_set_tail_fields:
  "qspin_locked (qspin_set_tail w t) = qspin_locked w"
  "qspin_pending (qspin_set_tail w t) = qspin_pending w"
  "qspin_tail_idx (qspin_set_tail w t) = take_bit 16 t"
  unfolding qspin_word_masks
  by (rule bit_word_eqI; auto simp: bit_simps even_drop_bit_iff_not_bit simp del: bit_0)+

lemma qspin_held_word_fields:
  "qspin_locked (qspin_held_word n) = 1"
  "qspin_pending (qspin_held_word n) = 0"
  "qspin_tail_idx (qspin_held_word n) = take_bit 16 (qspin_node_to_tail n)"
  unfolding qspin_word_masks qspin_held_word_def
  by (rule bit_word_eqI; auto simp: bit_simps even_drop_bit_iff_not_bit simp del: bit_0)+

lemma qspin_small_tail: "t \<le> MAX_NODE_COUNT \<Longrightarrow> take_bit 16 t = t"
  by (simp add: word_unat_eq_iff unsigned_take_bit_eq take_bit_nat_eq_self u32_le_unat MAX_NODE_COUNT_def)

lemma qspin_set_tail_held: "qspin_set_tail (qspin_held_word x) (qspin_node_to_tail y) = qspin_held_word y"
  unfolding qspin_word_masks qspin_held_word_def
  by (rule bit_word_eqI) (auto simp: bit_simps even_drop_bit_iff_not_bit simp del: bit_0)

section \<open>The state of a lock\<close>

abbreviation "q_word off m l \<equiv> lock_word (qspin_entry off m l)"
abbreviation "q_owner off m l \<equiv> qspin_owner (qspin_entry off m l)"
abbreviation "q_next off m n \<equiv> qnext_node (qspin_node off m n)"
abbreviation "q_locked off m n \<equiv> qlocked (qspin_node off m n)"
abbreviation "q_waiting off m n \<equiv> qwaiting_lock (qspin_node off m n)"

lemma qspin_held_word_nonzero [simp]: "qspin_held_word n \<noteq> 0"
proof
  assume "qspin_held_word n = 0"
  then have "qspin_locked (qspin_held_word n) = 0" by (simp add: qspin_locked_def)
  then show False by (simp add: qspin_held_word_fields)
qed

lemma qspin_held_word_tail:
  assumes "nc \<le> MAX_NODE_COUNT" and "n < nc"
  shows "qspin_tail_idx (qspin_held_word n) = qspin_node_to_tail n"
    and "qspin_tail_to_node (qspin_node_to_tail n) = n" and "qspin_node_to_tail n \<noteq> 0"
proof -
  have n: "unat n < 64" using assms by (simp add: u32_less_unat u32_le_unat MAX_NODE_COUNT_def)
  then have u: "unat (qspin_node_to_tail n) = unat n + 1"
    by (simp add: qspin_node_to_tail_def unat_word_ariths)
  then have "qspin_node_to_tail n \<le> MAX_NODE_COUNT"
    using n by (simp add: u32_le_unat MAX_NODE_COUNT_def)
  then show "qspin_tail_idx (qspin_held_word n) = qspin_node_to_tail n"
    by (simp add: qspin_held_word_fields qspin_small_tail)
  show t: "qspin_node_to_tail n \<noteq> 0" using u by auto
  then show "qspin_tail_to_node (qspin_node_to_tail n) = n"
    by (simp add: qspin_tail_to_node_def qspin_node_to_tail_def)
qed

definition qspin_lock ::
  "ShmOffset \<Rightarrow> u32 \<Rightarrow> mem \<Rightarrow> LockId \<Rightarrow> NodeId option \<Rightarrow> NodeId option \<Rightarrow> bool"
where
  "qspin_lock off nc m l h w \<longleftrightarrow>
     (case h of
        None \<Rightarrow> w = None \<and> q_word off m l = 0
      | Some x \<Rightarrow> x < nc \<and> q_owner off m l = x \<and> q_locked off m x = 2 \<and> q_waiting off m x = l \<and>
          (case w of
             None \<Rightarrow> q_word off m l = qspin_held_word x \<and> q_next off m x = INVALID_NODE_ID
           | Some y \<Rightarrow> y < nc \<and> y \<noteq> x \<and> q_word off m l = qspin_held_word y \<and> q_next off m x = y \<and>
               q_next off m y = INVALID_NODE_ID \<and> q_locked off m y = 1 \<and> q_waiting off m y = l))"

lemma qspin_lock_simps [simp]:
  "qspin_lock off nc m l None w \<longleftrightarrow> w = None \<and> q_word off m l = 0"
  "qspin_lock off nc m l (Some x) None \<longleftrightarrow>
     x < nc \<and> q_owner off m l = x \<and> q_locked off m x = 2 \<and> q_waiting off m x = l \<and>
     q_word off m l = qspin_held_word x \<and> q_next off m x = INVALID_NODE_ID"
  "qspin_lock off nc m l (Some x) (Some y) \<longleftrightarrow>
     x < nc \<and> q_owner off m l = x \<and> q_locked off m x = 2 \<and> q_waiting off m x = l \<and>
     y < nc \<and> y \<noteq> x \<and> q_word off m l = qspin_held_word y \<and> q_next off m x = y \<and>
     q_next off m y = INVALID_NODE_ID \<and> q_locked off m y = 1 \<and> q_waiting off m y = l"
  by (auto simp: qspin_lock_def)

section \<open>The routines\<close>

lemmas qspin_run_simps = prog_simps prog_assoc layout_simps qspin_entry_def qspin_node_def

lemmas qspin_ptrs = line_bounds qspin_get_node_ptr qspin_get_entry_ptr

lemma run_qspin_acquire_fast:
  assumes fit: "lines_fit sh nc off" and l: "l < MAX_LOCK_COUNT" and n: "n < nc"
    and free: "q_word off m l = 0"
  shows "\<exists>m'. run sh (qspin_acquire_lock fuel \<lparr>qspin_node_count = nc\<rparr> n l (Some sh) off) m = Result SUCCESS m' \<and>
     qspin_entry off m' l = (qspin_entry off m l)
       \<lparr>lock_word := qspin_held_word n, qspin_owner := n, pending_tail := n\<rparr> \<and>
     (\<forall>l'. l' \<noteq> l \<longrightarrow> l' < MAX_LOCK_COUNT \<longrightarrow> qspin_entry off m' l' = qspin_entry off m l') \<and>
     q_next off m' n = INVALID_NODE_ID \<and> q_locked off m' n = 2 \<and> q_waiting off m' n = l \<and>
     (\<forall>n'. n' \<notin> {n} \<longrightarrow> qspin_node off m' n' = qspin_node off m n')"
  using l n lines_fit_node [OF fit n] free
  by (simp add: qspin_acquire_lock_def qspin_run_simps qspin_ptrs [OF fit] not_le)

lemma run_qspin_acquire_slow:
  assumes fit: "lines_fit sh nc off" and l: "l < MAX_LOCK_COUNT" and n: "n < nc" and x: "x < nc" "x \<noteq> n"
    and held: "q_word off m l = qspin_held_word x"
  shows "\<exists>m'. run sh (qspin_acquire_lock (Suc fuel) \<lparr>qspin_node_count = nc\<rparr> n l (Some sh) off) m = Result SUCCESS m' \<and>
     qspin_entry off m' l = (qspin_entry off m l)\<lparr>lock_word := qspin_held_word n\<rparr> \<and>
     (\<forall>l'. l' \<noteq> l \<longrightarrow> l' < MAX_LOCK_COUNT \<longrightarrow> qspin_entry off m' l' = qspin_entry off m l') \<and>
     q_next off m' n = INVALID_NODE_ID \<and> q_locked off m' n = 1 \<and> q_waiting off m' n = l \<and>
     qspin_node off m' x = (qspin_node off m x)\<lparr>qnext_node := n\<rparr> \<and>
     (\<forall>n'. n' \<notin> {n, x} \<longrightarrow> qspin_node off m' n' = qspin_node off m n')"
proof -
  have nc: "nc \<le> MAX_NODE_COUNT" using fit by (simp add: lines_fit_def)
  show ?thesis
    using l n lines_fit_node [OF fit n] x held qspin_held_word_tail [OF nc x(1)]
    by (simp add: qspin_acquire_lock_def qspin_run_simps qspin_ptrs [OF fit] qspin_set_tail_held Let_def not_le)
qed

lemma run_qspin_release_last:
  assumes fit: "lines_fit sh nc off" and l: "l < MAX_LOCK_COUNT" and n: "n < nc"
    and "q_owner off m l = n" "q_next off m n = INVALID_NODE_ID" "q_word off m l = qspin_held_word n"
  shows "\<exists>m'. run sh (qspin_release_lock \<lparr>qspin_node_count = nc\<rparr> n l (Some sh) off) m = Result SUCCESS m' \<and>
     qspin_entry off m' l = (qspin_entry off m l)
       \<lparr>lock_word := 0, qspin_owner := INVALID_NODE_ID, pending_tail := INVALID_NODE_ID\<rparr> \<and>
     (\<forall>l'. l' \<noteq> l \<longrightarrow> l' < MAX_LOCK_COUNT \<longrightarrow> qspin_entry off m' l' = qspin_entry off m l') \<and>
     q_next off m' n = INVALID_NODE_ID \<and> q_locked off m' n = 0 \<and> q_waiting off m' n = INVALID_LOCK_ID \<and>
     (\<forall>n'. n' \<notin> {n} \<longrightarrow> qspin_node off m' n' = qspin_node off m n')"
proof -
  have nc: "nc \<le> MAX_NODE_COUNT" using fit by (simp add: lines_fit_def)
  show ?thesis
    using l n lines_fit_node [OF fit n] qspin_held_word_tail [OF nc n] assms(4-6)
    by (simp add: qspin_release_lock_def qspin_release_last_def qspin_reset_node_def Let_def
        qspin_run_simps qspin_ptrs [OF fit] not_le)
qed

lemma run_qspin_release_pass:
  assumes fit: "lines_fit sh nc off" and l: "l < MAX_LOCK_COUNT" and n: "n < nc" and y: "y < nc" "y \<noteq> n"
    and "q_owner off m l = n" "q_next off m n = y"
  shows "\<exists>m'. run sh (qspin_release_lock \<lparr>qspin_node_count = nc\<rparr> n l (Some sh) off) m = Result SUCCESS m' \<and>
     qspin_entry off m' l = (qspin_entry off m l)
       \<lparr>lock_word := qspin_held_word y, qspin_owner := y, pending_tail := y\<rparr> \<and>
     (\<forall>l'. l' \<noteq> l \<longrightarrow> l' < MAX_LOCK_COUNT \<longrightarrow> qspin_entry off m' l' = qspin_entry off m l') \<and>
     q_next off m' n = INVALID_NODE_ID \<and> q_locked off m' n = 0 \<and> q_waiting off m' n = INVALID_LOCK_ID \<and>
     qspin_node off m' y = (qspin_node off m y)\<lparr>qlocked := 2\<rparr> \<and>
     (\<forall>n'. n' \<notin> {n, y} \<longrightarrow> qspin_node off m' n' = qspin_node off m n')"
  using l n lines_fit_node [OF fit n] lines_fit_node [OF fit y(1)] y assms(6,7)
  by (simp add: qspin_release_lock_def qspin_pass_lock_def qspin_reset_node_def
      qspin_run_simps qspin_ptrs [OF fit] not_le)

lemma run_qspin_check:
  assumes fit: "lines_fit sh nc off" and l: "l < MAX_LOCK_COUNT"
    and "q_word off m l = 0 \<or> q_word off m l = qspin_held_word x"
  shows "run sh (qspin_check_grant l (Some sh) off nc) m = Result INVALID_NODE_ID m"
proof -
  have "nc \<noteq> 0" using fit by (auto simp: lines_fit_def)
  moreover have "qspin_tail_idx 0 = 0" by (simp add: qspin_tail_idx_def)
  ultimately show ?thesis
    using l assms(3)
    by (auto simp: qspin_check_grant_def qspin_run_simps qspin_ptrs [OF fit] qspin_held_word_fields)
qed

lemma run_tt_granted_qspin:
  assumes fit: "lines_fit sh nc off" and l: "l < MAX_LOCK_COUNT" and n: "n < nc"
    and "client_lock (QspinAlgorithm a) sh nc off n tt"
  shows "run sh (tt_granted tt l) m = Result (q_locked off m n = 2 \<and> q_waiting off m n = l) m"
  using n assms(4) node_offset_to_ptr [OF fit n]
  by (simp add: tt_granted_def client_lock_def qspin_run_simps line_bounds [OF fit])

section \<open>The service\<close>

definition qspin_impl :: "SharedMemoryRegion \<Rightarrow> u32 \<Rightarrow> ShmOffset \<Rightarrow> mem \<Rightarrow> service \<Rightarrow> bool" where
  "qspin_impl sh nc off m s \<longleftrightarrow> lines_fit sh nc off \<and>
     (\<forall>l < MAX_LOCK_COUNT. \<exists>w. waiters s l = set_option w \<and> qspin_lock off nc m l (holder s l) w)"

definition qspin_may_request :: "mem \<Rightarrow> service \<Rightarrow> NodeId \<Rightarrow> LockId \<Rightarrow> bool" where
  "qspin_may_request m s n l \<longleftrightarrow> waiters s l = {} \<and>
     (\<forall>l' < MAX_LOCK_COUNT. n \<notin> waiters s l' \<and> holder s l' \<noteq> Some n)"

lemma qspin_lock_frame:
  assumes "qspin_lock off nc m l h w" and "qspin_entry off m' l = qspin_entry off m l"
    and "\<And>n. n \<in> set_option h \<union> set_option w \<Longrightarrow> qspin_node off m' n = qspin_node off m n"
  shows "qspin_lock off nc m' l h w"
  using assms by (cases h; cases w) auto

lemma qspin_lock_waiting:
  "qspin_lock off nc m l h w \<Longrightarrow> n \<in> set_option h \<union> set_option w \<Longrightarrow> n < nc \<and> q_waiting off m n = l"
  by (cases h; cases w) auto

lemma qspin_lock_granted:
  "qspin_lock off nc m l h w \<Longrightarrow> h = Some n \<or> w = Some n \<Longrightarrow>
   (q_locked off m n = 2 \<and> q_waiting off m n = l) = (h = Some n)"
  by (cases h; cases w) auto

lemma qspin_impl_lock:
  assumes "qspin_impl sh nc off m s" and "l < MAX_LOCK_COUNT"
  obtains w where "waiters s l = set_option w" and "qspin_lock off nc m l (holder s l) w"
  using assms by (auto simp: qspin_impl_def)

lemma qspin_impl_step:
  assumes impl: "qspin_impl sh nc off m s" and l: "l < MAX_LOCK_COUNT"
    and here: "qspin_lock off nc m' l (holder s' l) w'" "set_option w' = waiters s' l"
    and e: "\<forall>l'. l' \<noteq> l \<longrightarrow> l' < MAX_LOCK_COUNT \<longrightarrow> qspin_entry off m' l' = qspin_entry off m l'"
    and o: "\<forall>n. n \<notin> N \<longrightarrow> qspin_node off m' n = qspin_node off m n"
    and N: "\<And>n l'. n \<in> N \<Longrightarrow> l' \<noteq> l \<Longrightarrow> l' < MAX_LOCK_COUNT \<Longrightarrow> n \<notin> waiters s l' \<and> holder s l' \<noteq> Some n"
    and s': "\<And>l'. l' \<noteq> l \<Longrightarrow> holder s' l' = holder s l' \<and> waiters s' l' = waiters s l'"
  shows "qspin_impl sh nc off m' s'"
proof -
  have "\<exists>w. waiters s' l' = set_option w \<and> qspin_lock off nc m' l' (holder s' l') w"
    if l': "l' < MAX_LOCK_COUNT" for l'
  proof (cases "l' = l")
    case True
    then show ?thesis using here by blast
  next
    case False
    obtain w where w: "waiters s l' = set_option w" "qspin_lock off nc m l' (holder s l') w"
      using qspin_impl_lock [OF impl l'] by blast
    have "qspin_node off m' n = qspin_node off m n" if "n \<in> set_option (holder s l') \<union> set_option w" for n
    proof -
      have "n \<notin> N" using N [OF _ False l', of n] that w(1) by auto
      then show ?thesis using o by blast
    qed
    then have "qspin_lock off nc m' l' (holder s l') w"
      using qspin_lock_frame [OF w(2)] e False l' by blast
    then show ?thesis using w(1) s' [OF False] by auto
  qed
  then show ?thesis using impl by (simp add: qspin_impl_def)
qed

lemma qspin_members_elsewhere:
  assumes "qspin_impl sh nc off m s" and "l < MAX_LOCK_COUNT" and "n \<in> waiters s l \<or> holder s l = Some n"
    and "l' \<noteq> l" and "l' < MAX_LOCK_COUNT"
  shows "n \<notin> waiters s l' \<and> holder s l' \<noteq> Some n"
proof -
  obtain w where w: "waiters s l = set_option w" "qspin_lock off nc m l (holder s l) w"
    using qspin_impl_lock [OF assms(1,2)] by blast
  obtain w' where w': "waiters s l' = set_option w'" "qspin_lock off nc m l' (holder s l') w'"
    using qspin_impl_lock [OF assms(1,5)] by blast
  show ?thesis
    using qspin_lock_waiting [OF w(2), of n] qspin_lock_waiting [OF w'(2), of n] w(1) w'(1) assms(3,4)
    by auto
qed


interpretation qspin: lock_safe
  "QspinAlgorithm \<lparr>qspin_node_count = nc\<rparr>" sh off nc "{l. l < MAX_LOCK_COUNT}" "Suc fuel"
  "qspin_impl sh nc off" qspin_may_request
  for sh off nc fuel
proof unfold_locales
  fix m s n l
  assume impl: "qspin_impl sh nc off m s" and "l \<in> {l. l < MAX_LOCK_COUNT}"
  then have l: "l < MAX_LOCK_COUNT" by simp
  have fit: "lines_fit sh nc off" using impl by (simp add: qspin_impl_def)
  obtain w where w: "waiters s l = set_option w" "qspin_lock off nc m l (holder s l) w"
    using qspin_impl_lock [OF impl l] by blast
  note elsewhere = qspin_members_elsewhere [OF impl l]
  show "\<exists>m' s'. run sh (alg_acquire_lock (Suc fuel) (QspinAlgorithm \<lparr>qspin_node_count = nc\<rparr>) n l (Some sh) off) m =
          Result SUCCESS m' \<and> qspin_impl sh nc off m' s' \<and>
          (s' = add_waiter n l s \<or> holder s l = None \<and> waiters s l = {} \<and> s' = let_in n l s)"
    if may: "qspin_may_request m s n l" and n: "n < nc"
  proof (cases "holder s l")
    case None
    then obtain m' where m': "run sh (qspin_acquire_lock (Suc fuel) \<lparr>qspin_node_count = nc\<rparr> n l (Some sh) off) m = Result SUCCESS m'"
        "qspin_lock off nc m' l (Some n) None"
        "\<forall>l'. l' \<noteq> l \<longrightarrow> l' < MAX_LOCK_COUNT \<longrightarrow> qspin_entry off m' l' = qspin_entry off m l'"
        "\<forall>n'. n' \<notin> {n} \<longrightarrow> qspin_node off m' n' = qspin_node off m n'"
      using run_qspin_acquire_fast [OF fit l n, of m "Suc fuel"] w(2) n by auto
    have "waiters s l = {}" using may by (simp add: qspin_may_request_def)
    then have "qspin_impl sh nc off m' (let_in n l s)"
      using m'(2-4) may
      by (intro qspin_impl_step [OF impl l, where w' = None and N = "{n}"])
         (auto simp: let_in_def qspin_may_request_def)
    then show ?thesis using m'(1) None may by (auto simp: alg_acquire_lock_def qspin_may_request_def)
  next
    case (Some x)
    then have e: "w = None" and x: "x < nc" "x \<noteq> n"
      using may w l qspin_lock_waiting [OF w(2), of x] by (auto simp: qspin_may_request_def)
    then obtain m' where m': "run sh (qspin_acquire_lock (Suc fuel) \<lparr>qspin_node_count = nc\<rparr> n l (Some sh) off) m = Result SUCCESS m'"
        "qspin_lock off nc m' l (Some x) (Some n)"
        "\<forall>l'. l' \<noteq> l \<longrightarrow> l' < MAX_LOCK_COUNT \<longrightarrow> qspin_entry off m' l' = qspin_entry off m l'"
        "\<forall>n'. n' \<notin> {n, x} \<longrightarrow> qspin_node off m' n' = qspin_node off m n'"
      using run_qspin_acquire_slow [OF fit l n x, of m fuel] w(2) n Some by auto
    have "qspin_impl sh nc off m' (add_waiter n l s)"
      using m'(2-4) may elsewhere [of x] Some w(1) e
      by (intro qspin_impl_step [OF impl l, where w' = "Some n" and N = "{n, x}"])
         (auto simp: add_waiter_def qspin_may_request_def)
    then show ?thesis using m'(1) by (auto simp: alg_acquire_lock_def)
  qed
  show "\<exists>m' s'. run sh (alg_release_lock (Suc fuel) (QspinAlgorithm \<lparr>qspin_node_count = nc\<rparr>) n l (Some sh) off) m =
          Result SUCCESS m' \<and> qspin_impl sh nc off m' s' \<and>
          (s' = let_out l s \<or> (\<exists>n' \<in> waiters s l. s' = let_in n' l s))"
    if h: "holder s l = Some n" "n < nc"
  proof (cases w)
    case None
    then obtain m' where m': "run sh (qspin_release_lock \<lparr>qspin_node_count = nc\<rparr> n l (Some sh) off) m = Result SUCCESS m'"
        "qspin_lock off nc m' l None None"
        "\<forall>l'. l' \<noteq> l \<longrightarrow> l' < MAX_LOCK_COUNT \<longrightarrow> qspin_entry off m' l' = qspin_entry off m l'"
        "\<forall>n'. n' \<notin> {n} \<longrightarrow> qspin_node off m' n' = qspin_node off m n'"
      using run_qspin_release_last [OF fit l h(2), of m] w(2) h(1) by auto
    have "qspin_impl sh nc off m' (let_out l s)"
      using m'(2-4) elsewhere [of n] h(1) w(1) None
      by (intro qspin_impl_step [OF impl l, where w' = None and N = "{n}"]) (auto simp: let_out_def)
    then show ?thesis using m'(1) by (auto simp: alg_release_lock_def)
  next
    case (Some y)
    then obtain m' where m': "run sh (qspin_release_lock \<lparr>qspin_node_count = nc\<rparr> n l (Some sh) off) m = Result SUCCESS m'"
        "qspin_lock off nc m' l (Some y) None"
        "\<forall>l'. l' \<noteq> l \<longrightarrow> l' < MAX_LOCK_COUNT \<longrightarrow> qspin_entry off m' l' = qspin_entry off m l'"
        "\<forall>n'. n' \<notin> {n, y} \<longrightarrow> qspin_node off m' n' = qspin_node off m n'"
      using run_qspin_release_pass [OF fit l h(2), of y m] w(2) h(1) by auto
    have "qspin_impl sh nc off m' (let_in y l s)"
      using m'(2-4) elsewhere [of n] elsewhere [of y] h(1) w(1) Some
      by (intro qspin_impl_step [OF impl l, where w' = None and N = "{n, y}"]) (auto simp: let_in_def)
    then show ?thesis using m'(1) w(1) Some by (auto simp: alg_release_lock_def)
  qed
  show "\<exists>r m'. run sh (alg_check_grant (QspinAlgorithm \<lparr>qspin_node_count = nc\<rparr>) l (Some sh) off nc) m = Result r m' \<and>
          (r = INVALID_NODE_ID \<and> qspin_impl sh nc off m' s \<or>
           r \<noteq> INVALID_NODE_ID \<and>
           (\<exists>m''. run sh (alg_grant_lock (QspinAlgorithm \<lparr>qspin_node_count = nc\<rparr>) r l (Some sh) off) m' =
                Result SUCCESS m'' \<and>
              (holder s l = Some r \<and> qspin_impl sh nc off m'' s \<or>
               holder s l = None \<and> r \<in> waiters s l \<and> qspin_impl sh nc off m'' (let_in r l s))))"
  proof -
    obtain x where "q_word off m l = 0 \<or> q_word off m l = qspin_held_word x"
      using w(2) by (cases "holder s l"; cases w) auto
    from run_qspin_check [OF fit l this] show ?thesis
      using impl by (auto simp: alg_check_grant_def)
  qed
  show "run sh (tt_granted tt l) m = Result (holder s l = Some n) m"
    if "n < nc" "n \<in> waiters s l \<or> holder s l = Some n"
      "client_lock (QspinAlgorithm \<lparr>qspin_node_count = nc\<rparr>) sh nc off n tt" for tt
  proof -
    have "(q_locked off m n = 2 \<and> q_waiting off m n = l) = (holder s l = Some n)"
      by (rule qspin_lock_granted [OF w(2)]) (use that(2) w(1) in auto)
    then show ?thesis using run_tt_granted_qspin [OF fit l that(1,3), of m] by simp
  qed
qed

section \<open>Properties\<close>

text \<open>
  The lock word round trip: for every legal node id, writing the node as the tail of any lock word and
  reading the tail back gives the node, and leaves the locked and pending bits as they were;
  the word that a new holder writes reads back as locked, not pending, with that node as tail.
\<close>

theorem qspin_lock_word_roundtrip:
  assumes "n < MAX_NODE_COUNT"
  shows "qspin_tail_to_node (qspin_tail_idx (qspin_set_tail w (qspin_node_to_tail n))) = n \<and>
    qspin_locked (qspin_set_tail w (qspin_node_to_tail n)) = qspin_locked w \<and>
    qspin_pending (qspin_set_tail w (qspin_node_to_tail n)) = qspin_pending w \<and>
    qspin_tail_to_node (qspin_tail_idx (qspin_held_word n)) = n \<and>
    qspin_locked (qspin_held_word n) = 1 \<and> qspin_pending (qspin_held_word n) = 0"
  using qspin_held_word_tail [OF order_refl assms]
  by (simp_all add: qspin_set_tail_fields qspin_held_word_fields)

theorem qspin_lock_word_roundtrip_witness:
  "qspin_tail_to_node (qspin_tail_idx (qspin_set_tail 0xFD (qspin_node_to_tail 7))) = 7"
  using qspin_lock_word_roundtrip [of 7 "0xFD"] by (simp add: MAX_NODE_COUNT_def)

text \<open>
  Handover of the qspinlock: when a lock is held and exactly one node waits, \<open>release_lock\<close> by
  the holder makes the waiter the holder, its poll reports the grant, and the lock word, the
  owner and the queue nodes are those of a lock held without waiters.
\<close>

theorem qspin_release_hands_over:
  assumes "lines_fit sh nc off" and "l < MAX_LOCK_COUNT" and "qspin_lock off nc m l (Some x) (Some y)"
    and "client_lock (QspinAlgorithm \<lparr>qspin_node_count = nc\<rparr>) sh nc off y tt"
  shows "\<exists>m'. run sh (qspin_release_lock \<lparr>qspin_node_count = nc\<rparr> x l (Some sh) off) m = Result SUCCESS m' \<and>
     qspin_lock off nc m' l (Some y) None \<and> run sh (tt_granted tt l) m' = Result True m'"
proof -
  have x: "x < nc" "y < nc" "y \<noteq> x" "q_owner off m l = x" "q_next off m x = y"
    using assms(3) by simp_all
  obtain m' where "run sh (qspin_release_lock \<lparr>qspin_node_count = nc\<rparr> x l (Some sh) off) m = Result SUCCESS m'"
      "qspin_lock off nc m' l (Some y) None"
    using run_qspin_release_pass [OF assms(1,2) x] assms(3) by auto
  then show ?thesis
    using run_tt_granted_qspin [OF assms(1,2) x(2) assms(4), of m'] by auto
qed

text \<open>Node 0 holds lock 3 and node 1 waits for it.\<close>

definition qspin_demo_held :: mem where
  "qspin_demo_held = (\<lambda>_. 0)(ecell 0 3 0 := qspin_held_word 1, ecell 0 3 4 := 0,
     ncell 0 0 0 := 1, ncell 0 0 4 := 2, ncell 0 0 8 := 3,
     ncell 0 1 0 := - 1, ncell 0 1 4 := 1, ncell 0 1 8 := 3)"

lemma qspin_demo_lock: "qspin_lock 0 2 qspin_demo_held 3 (Some 0) (Some 1)"
  by (simp add: qspin_demo_held_def qspin_entry_def qspin_node_def layout_simps MAX_LOCK_COUNT_def
      INVALID_NODE_ID_def)

theorem qspin_release_hands_over_witness:
  "\<exists>m'. run demo_region (qspin_release_lock \<lparr>qspin_node_count = 2\<rparr> 0 3 (Some demo_region) 0) qspin_demo_held =
          Result SUCCESS m' \<and> qspin_lock 0 2 m' 3 (Some 1) None"
  using qspin_release_hands_over [OF demo_fit(1) _ qspin_demo_lock demo_lock_client]
  by (auto simp: MAX_LOCK_COUNT_def)

end
