(* ===== verification/Qspin_Races.thy ===== *)
theory Qspin_Races
  imports Qspin_Service Interleave
begin

text \<open>
  How the qspinlock fails: a waiter that is cut off the queue, and a release that overtakes the
  next holder.
\<close>

section \<open>Initialised memory\<close>

lemma run_qspin_init_entries:
  assumes fit: "lines_fit sh nc off" and "\<forall>l \<in> set ls. l < MAX_LOCK_COUNT"
  shows "\<exists>m'. run sh (qspin_init_entries sh off ls) m = Result () m' \<and>
    (\<forall>l < MAX_LOCK_COUNT. m' (ecell off l 0) = (if l \<in> set ls then 0 else m (ecell off l 0)))"
  using assms(2)
proof (induction ls arbitrary: m)
  case Nil
  then show ?case by simp
next
  case (Cons l ls)
  then have l: "l < MAX_LOCK_COUNT" and ls: "\<forall>l \<in> set ls. l < MAX_LOCK_COUNT" by simp_all
  define m1 where "m1 = m(ecell off l 0 := 0, ecell off l 4 := INVALID_NODE_ID,
     ecell off l 8 := INVALID_NODE_ID, ecell off l 12 := 0)"
  have start: "run sh (qspin_init_entries sh off (l # ls)) m = run sh (qspin_init_entries sh off ls) m1"
    using l by (simp add: qspin_run_simps qspin_ptrs [OF fit] m1_def)
  obtain m' where m': "run sh (qspin_init_entries sh off ls) m1 = Result () m'"
      "\<forall>l < MAX_LOCK_COUNT. m' (ecell off l 0) = (if l \<in> set ls then 0 else m1 (ecell off l 0))"
    using Cons.IH [OF ls] by blast
  have "m1 (ecell off l' 0) = (if l' = l then 0 else m (ecell off l' 0))" for l'
    by (simp add: m1_def layout_simps)
  then show ?case
    using m' unfolding start by (intro exI [of _ m']) simp
qed

lemma run_qspin_init_nodes:
  assumes fit: "lines_fit sh nc off" and "\<forall>n \<in> set ns. n < nc"
  shows "\<exists>m'. run sh (qspin_init_nodes sh off ns) m = Result () m' \<and>
    (\<forall>l < MAX_LOCK_COUNT. m' (ecell off l 0) = m (ecell off l 0))"
  using assms(2)
proof (induction ns arbitrary: m)
  case Nil
  then show ?case by simp
next
  case (Cons n ns)
  then have n: "n < nc" and ns: "\<forall>n \<in> set ns. n < nc" by simp_all
  define m1 where "m1 = m(ncell off n 0 := INVALID_NODE_ID, ncell off n 4 := 0,
     ncell off n 8 := INVALID_LOCK_ID, ncell off n 12 := 0)"
  have start: "run sh (qspin_init_nodes sh off (n # ns)) m = run sh (qspin_init_nodes sh off ns) m1"
    using n by (simp add: qspin_run_simps qspin_ptrs [OF fit] m1_def)
  have "\<forall>l < MAX_LOCK_COUNT. m1 (ecell off l 0) = m (ecell off l 0)"
    by (simp add: m1_def layout_simps)
  then show ?case
    using Cons.IH [OF ns, of m1] unfolding start by auto
qed

lemma run_qspin_initialize:
  assumes fit: "lines_fit sh nc off"
  shows "\<exists>m'. run sh (qspin_initialize self (Some sh) off nc) m =
           Result (SUCCESS, self\<lparr>qspin_node_count := nc\<rparr>) m' \<and>
           (\<forall>l < MAX_LOCK_COUNT. m' (ecell off l 0) = 0)"
proof -
  have nc: "nc \<noteq> 0" "\<not> MAX_NODE_COUNT < nc" "nc \<le> MAX_NODE_COUNT"
    using fit by (auto simp: lines_fit_def)
  have sz: "unat (qspin_get_state_size nc) = lines_size nc"
    using lines_state_size [OF nc(3)] by (simp add: qspin_get_state_size_def)
  let ?m0 = "zero_cells off (lines_size nc) m"
  obtain m1 where m1: "run sh (qspin_init_entries sh off (u32_upto MAX_LOCK_COUNT)) ?m0 = Result () m1"
      "\<forall>l < MAX_LOCK_COUNT. m1 (ecell off l 0) = 0"
    using run_qspin_init_entries [OF fit, of "u32_upto MAX_LOCK_COUNT" ?m0] by auto
  obtain m2 where m2: "run sh (qspin_init_nodes sh off (u32_upto nc)) m1 = Result () m2"
      "\<forall>l < MAX_LOCK_COUNT. m2 (ecell off l 0) = m1 (ecell off l 0)"
    using run_qspin_init_nodes [OF fit, of "u32_upto nc" m1] by auto
  have "run sh (qspin_initialize self (Some sh) off nc) m = Result (SUCCESS, self\<lparr>qspin_node_count := nc\<rparr>) m2"
    using nc lines_base [OF fit] m1(1) m2(1) sz
    by (simp add: qspin_initialize_def Let_def prog_simps)
  then show ?thesis using m1(2) m2(2) by auto
qed

lemma qspin_impl_new:
  assumes "lines_fit sh nc off" and "\<forall>l < MAX_LOCK_COUNT. m (ecell off l 0) = 0"
  shows "qspin_impl sh nc off m new_service"
  using assms by (simp add: qspin_impl_def new_service_def qspin_entry_def)

section \<open>Two waiters\<close>

text \<open>
  Nodes \<open>a\<close>, \<open>b\<close> and \<open>c\<close> queue up in this order; \<open>a\<close> releases, which writes \<open>b\<close> as the tail
  although \<open>c\<close> is behind it; \<open>a\<close> asks again and is linked behind \<open>b\<close> in place of \<open>c\<close>.
\<close>

lemma qspin_lost_waiter_run:
  assumes fit: "lines_fit sh nc off" and l: "l < MAX_LOCK_COUNT" and n: "a < nc" "b < nc" "c < nc"
    and d: "a \<noteq> b" "b \<noteq> c" "a \<noteq> c" and "q_word off m l = 0"
  shows "\<exists>m'. run_ops (Suc f) (QspinAlgorithm \<lparr>qspin_node_count = nc\<rparr>) sh off nc
            [Acquire a l, Acquire b l, Acquire c l, Release a l, Acquire a l, Release b l, Release a l] m =
          Result [SUCCESS, SUCCESS, SUCCESS, SUCCESS, SUCCESS, SUCCESS, SUCCESS] m' \<and>
     q_word off m' l = 0 \<and> q_locked off m' c = 1 \<and> q_waiting off m' c = l"
proof -
  let ?alg = "\<lparr>qspin_node_count = nc\<rparr>"
  let ?acq = "\<lambda>n. qspin_acquire_lock (Suc f) ?alg n l (Some sh) off"
  let ?rel = "\<lambda>n. qspin_release_lock ?alg n l (Some sh) off"
  obtain m1 where m1: "run sh (?acq a) m = Result SUCCESS m1"
      and e1: "qspin_entry off m1 l = (qspin_entry off m l)
        \<lparr>lock_word := qspin_held_word a, qspin_owner := a, pending_tail := a\<rparr>"
    using run_qspin_acquire_fast [OF fit l n(1) assms(9), of "Suc f"] by blast
  then have f1: "q_word off m1 l = qspin_held_word a" "q_owner off m1 l = a" by simp_all
  obtain m2 where m2: "run sh (?acq b) m1 = Result SUCCESS m2"
      and e2: "qspin_entry off m2 l = (qspin_entry off m1 l)\<lparr>lock_word := qspin_held_word b\<rparr>"
        "qspin_node off m2 a = (qspin_node off m1 a)\<lparr>qnext_node := b\<rparr>"
    using run_qspin_acquire_slow [OF fit l n(2,1) d(1) f1(1), of f] by blast
  then have f2: "q_word off m2 l = qspin_held_word b" "q_owner off m2 l = a" "q_next off m2 a = b"
    using f1 by simp_all
  obtain m3 where m3: "run sh (?acq c) m2 = Result SUCCESS m3"
      and e3: "qspin_entry off m3 l = (qspin_entry off m2 l)\<lparr>lock_word := qspin_held_word c\<rparr>"
        "q_locked off m3 c = 1" "q_waiting off m3 c = l"
        "\<forall>n'. n' \<notin> {c, b} \<longrightarrow> qspin_node off m3 n' = qspin_node off m2 n'"
    using run_qspin_acquire_slow [OF fit l n(3,2) d(2) f2(1), of f] by blast
  then have f3: "q_owner off m3 l = a" "q_next off m3 a = b" using f2 d by simp_all
  obtain m4 where m4: "run sh (?rel a) m3 = Result SUCCESS m4"
      and e4: "qspin_entry off m4 l = (qspin_entry off m3 l)
        \<lparr>lock_word := qspin_held_word b, qspin_owner := b, pending_tail := b\<rparr>"
        "\<forall>n'. n' \<notin> {a, b} \<longrightarrow> qspin_node off m4 n' = qspin_node off m3 n'"
    using run_qspin_release_pass [OF fit l n(1,2) d(1) [symmetric] f3] by blast
  then have f4: "q_word off m4 l = qspin_held_word b" "q_owner off m4 l = b"
      "qspin_node off m4 c = qspin_node off m3 c"
    using d by simp_all
  obtain m5 where m5: "run sh (?acq a) m4 = Result SUCCESS m5"
      and e5: "qspin_entry off m5 l = (qspin_entry off m4 l)\<lparr>lock_word := qspin_held_word a\<rparr>"
        "q_next off m5 a = INVALID_NODE_ID" "qspin_node off m5 b = (qspin_node off m4 b)\<lparr>qnext_node := a\<rparr>"
        "\<forall>n'. n' \<notin> {a, b} \<longrightarrow> qspin_node off m5 n' = qspin_node off m4 n'"
    using run_qspin_acquire_slow [OF fit l n(1,2) d(1) [symmetric] f4(1), of f] by blast
  then have f5: "q_word off m5 l = qspin_held_word a" "q_owner off m5 l = b" "q_next off m5 b = a"
      "qspin_node off m5 c = qspin_node off m4 c"
    using f4 d by simp_all
  obtain m6 where m6: "run sh (?rel b) m5 = Result SUCCESS m6"
      and e6: "qspin_entry off m6 l = (qspin_entry off m5 l)
        \<lparr>lock_word := qspin_held_word a, qspin_owner := a, pending_tail := a\<rparr>"
        "qspin_node off m6 a = (qspin_node off m5 a)\<lparr>qlocked := 2\<rparr>"
        "\<forall>n'. n' \<notin> {b, a} \<longrightarrow> qspin_node off m6 n' = qspin_node off m5 n'"
    using run_qspin_release_pass [OF fit l n(2,1) d(1) f5(2,3)] by blast
  then have f6: "q_owner off m6 l = a" "q_next off m6 a = INVALID_NODE_ID"
      "q_word off m6 l = qspin_held_word a" "qspin_node off m6 c = qspin_node off m5 c"
    using e5(2) d by simp_all
  obtain m7 where m7: "run sh (?rel a) m6 = Result SUCCESS m7"
      and e7: "qspin_entry off m7 l = (qspin_entry off m6 l)
        \<lparr>lock_word := 0, qspin_owner := INVALID_NODE_ID, pending_tail := INVALID_NODE_ID\<rparr>"
        "\<forall>n'. n' \<notin> {a} \<longrightarrow> qspin_node off m7 n' = qspin_node off m6 n'"
    using run_qspin_release_last [OF fit l n(1) f6(1-3)] by blast
  then have f7: "q_word off m7 l = 0" "qspin_node off m7 c = qspin_node off m6 c"
    using d by simp_all
  have "q_locked off m7 c = 1" "q_waiting off m7 c = l"
    using e3(2,3) f4(3) f5(4) f6(4) f7(2) by simp_all
  moreover have "run_ops (Suc f) (QspinAlgorithm ?alg) sh off nc
      [Acquire a l, Acquire b l, Acquire c l, Release a l, Acquire a l, Release b l, Release a l] m =
      Result [SUCCESS, SUCCESS, SUCCESS, SUCCESS, SUCCESS, SUCCESS, SUCCESS] m7"
    using m1 m2 m3 m4 m5 m6 m7
    by (simp add: alg_acquire_lock_def alg_release_lock_def)
  ultimately show ?thesis using f7(1) by blast
qed

text \<open>
  C13. The qspinlock loses a waiter. From any memory in which the lock is free, seven complete
  calls by three nodes, each of which returns \<open>SUCCESS\<close>, lead to a memory in which the lock is
  free and nobody holds it, yet node \<open>c\<close>, whose \<open>acquire_lock\<close> succeeded and which never released,
  still waits: its poll is not granted, and the scan of the manager finds nobody and changes nothing, so it waits
  for ever.
\<close>

theorem qspin_loses_waiter:
  assumes "lines_fit sh nc off" and "l < MAX_LOCK_COUNT" and "a < nc" and "b < nc" and "c < nc"
    and "a \<noteq> b" and "b \<noteq> c" and "a \<noteq> c" and "lock_word (qspin_entry off m l) = 0"
    and "client_lock (QspinAlgorithm \<lparr>qspin_node_count = nc\<rparr>) sh nc off c tt"
  shows "\<exists>m'. run_ops (Suc f) (QspinAlgorithm \<lparr>qspin_node_count = nc\<rparr>) sh off nc
            [Acquire a l, Acquire b l, Acquire c l, Release a l, Acquire a l, Release b l, Release a l] m =
          Result (replicate 7 SUCCESS) m' \<and>
     lock_word (qspin_entry off m' l) = 0 \<and> run sh (tt_granted tt l) m' = Result False m' \<and>
     run sh (scan_lock (QspinAlgorithm \<lparr>qspin_node_count = nc\<rparr>) (Some sh) off nc l) m' = Result ERROR_BUSY m'"
proof -
  obtain m' where m': "run_ops (Suc f) (QspinAlgorithm \<lparr>qspin_node_count = nc\<rparr>) sh off nc
            [Acquire a l, Acquire b l, Acquire c l, Release a l, Acquire a l, Release b l, Release a l] m =
          Result [SUCCESS, SUCCESS, SUCCESS, SUCCESS, SUCCESS, SUCCESS, SUCCESS] m'"
      "q_word off m' l = 0" "q_locked off m' c = 1"
    using qspin_lost_waiter_run [OF assms(1-9), of f] by blast
  have "run sh (tt_granted tt l) m' = Result False m'"
    using run_tt_granted_qspin [OF assms(1,2,5,10), of m'] m'(3) by simp
  moreover have "run sh (scan_lock (QspinAlgorithm \<lparr>qspin_node_count = nc\<rparr>) (Some sh) off nc l) m' =
      Result ERROR_BUSY m'"
    using run_qspin_check [OF assms(1,2) disjI1 [OF m'(2)]]
    by (simp add: scan_lock_def alg_check_grant_def run_bind)
  ultimately show ?thesis using m'(1,2) by (auto simp: numeral_eq_Suc simp del: run_ops.simps)
qed

theorem qspin_loses_waiter_witness:
  "\<exists>m0 m'. run demo_region (qspin_initialize \<lparr>qspin_node_count = 0\<rparr> (Some demo_region) 0 3) (\<lambda>_. 0) =
       Result (SUCCESS, \<lparr>qspin_node_count = 3\<rparr>) m0 \<and>
     run_ops 1 (QspinAlgorithm \<lparr>qspin_node_count = 3\<rparr>) demo_region 0 3
       [Acquire 0 0, Acquire 1 0, Acquire 2 0, Release 0 0, Acquire 0 0, Release 1 0, Release 0 0] m0 =
       Result (replicate 7 SUCCESS) m' \<and>
     run demo_region (scan_lock (QspinAlgorithm \<lparr>qspin_node_count = 3\<rparr>) (Some demo_region) 0 3 0) m' =
       Result ERROR_BUSY m'"
proof -
  note fit = demo_fit(2)
  obtain m0 where m0: "run demo_region (qspin_initialize \<lparr>qspin_node_count = 0\<rparr> (Some demo_region) 0 3) (\<lambda>_. 0) =
       Result (SUCCESS, \<lparr>qspin_node_count = 3\<rparr>) m0" "\<forall>l < MAX_LOCK_COUNT. m0 (ecell 0 l 0) = 0"
    using run_qspin_initialize [OF fit, of "\<lparr>qspin_node_count = 0\<rparr>" "\<lambda>_. 0"] by auto
  define tt where "tt = (demo_lock (QspinAlgorithm \<lparr>qspin_node_count = 3\<rparr>) 2)\<lparr>tt_node_count := 3\<rparr>"
  have tt: "client_lock (QspinAlgorithm \<lparr>qspin_node_count = 3\<rparr>) demo_region 3 0 2 tt"
    using demo_lock_client [of "QspinAlgorithm \<lparr>qspin_node_count = 3\<rparr>" 2]
    by (simp add: client_lock_def tt_def)
  have l: "(0 :: u32) < MAX_LOCK_COUNT" by (simp add: MAX_LOCK_COUNT_def)
  have w: "lock_word (qspin_entry 0 m0 0) = 0" using m0(2) l by (simp add: qspin_entry_def)
  from qspin_loses_waiter [OF fit l, of 0 1 2 m0 tt 0] m0(1) w tt
  show ?thesis by (auto simp del: run_ops.simps)
qed

section \<open>A release that overtakes the next holder\<close>

text \<open>
  A request and a release as trees of accesses: the fast path and the release of a lock without
  successor in full, the rest (\<open>R\<close>, \<open>R'\<close>) left open.
\<close>

definition fast_path_tree ::
  "SharedMemoryRegion \<Rightarrow> ShmOffset \<Rightarrow> LockId \<Rightarrow> NodeId \<Rightarrow> LockResult prog \<Rightarrow> LockResult prog \<Rightarrow>
   LockResult prog"
where
  "fast_path_tree sh off l n R R' =
    Store (node_ptr sh off n) INVALID_NODE_ID (Store (node_ptr sh off n + 4) 1
    (Store (node_ptr sh off n + 8) l (Fence
    (CompareExchange (entry_ptr sh off l) 0 (qspin_held_word n) (\<lambda>fast. if fast then
       Store (node_ptr sh off n + 4) 2 (Store (entry_ptr sh off l + 4) n
       (Store (entry_ptr sh off l + 8) n (Fence
       (Load (node_ptr sh off n + 4) (\<lambda>v. Load (node_ptr sh off n + 8) (\<lambda>w.
         if v = 2 \<and> w = l then Ret SUCCESS else R))))))
     else R')))))"

definition release_tree ::
  "SharedMemoryRegion \<Rightarrow> ShmOffset \<Rightarrow> LockId \<Rightarrow> NodeId \<Rightarrow> LockResult prog \<Rightarrow> LockResult prog \<Rightarrow>
   LockResult prog"
where
  "release_tree sh off l n R R' =
    Load (entry_ptr sh off l + 4) (\<lambda>owner. if owner \<noteq> n then Ret ERROR_NOT_OWNER else
    Load (node_ptr sh off n) (\<lambda>next. if next = INVALID_NODE_ID then
      Load (entry_ptr sh off l) (\<lambda>old. CompareExchange (entry_ptr sh off l) old
        (if qspin_tail_idx old = qspin_node_to_tail n then 0 else old) (\<lambda>ok.
        if ok \<and> qspin_tail_idx old = qspin_node_to_tail n then
          Store (entry_ptr sh off l + 8) INVALID_NODE_ID (Store (entry_ptr sh off l + 4) INVALID_NODE_ID
          (Store (node_ptr sh off n) INVALID_NODE_ID (Store (node_ptr sh off n + 4) 0
          (Store (node_ptr sh off n + 8) INVALID_LOCK_ID (Fence (Ret SUCCESS))))))
        else R)) else R'))"

lemma qspin_request_tree:
  assumes fit: "lines_fit sh nc off" and l: "l < MAX_LOCK_COUNT" and n: "n < nc"
    and tt: "client_lock (QspinAlgorithm \<lparr>qspin_node_count = nc\<rparr>) sh nc off n tt"
    and hw: "shm_consistency sh = HARDWARE_CONSISTENCY"
  shows "\<exists>R R'. tt_global_acquire (Suc fuel) tt (QspinAlgorithm \<lparr>qspin_node_count = nc\<rparr>) clk l timeout =
           fast_path_tree sh off l n R R'"
proof -
  have "tt_node_id tt = n" "tt_shm tt = Some sh" "tt_state_offset tt = off"
      "tt_algorithm tt = Some (QspinAlgorithm \<lparr>qspin_node_count = nc\<rparr>)"
    using tt by (simp_all add: client_lock_def)
  then show ?thesis
    using l n lines_fit_node [OF fit n] hw node_offset_to_ptr [OF fit n]
    by (simp add: tt_global_acquire_def alg_acquire_lock_def qspin_acquire_lock_def poll_for_grant_def
        tt_granted_def fast_path_tree_def tree_simps qspin_ptrs [OF fit] bind_if not_le cong: if_cong) blast
qed

lemma qspin_release_tree:
  assumes fit: "lines_fit sh nc off" and l: "l < MAX_LOCK_COUNT" and n: "n < nc"
    and tt: "client_lock (QspinAlgorithm \<lparr>qspin_node_count = nc\<rparr>) sh nc off n tt"
    and hw: "shm_consistency sh = HARDWARE_CONSISTENCY"
  shows "\<exists>R R'. tt_global_release fuel tt (QspinAlgorithm \<lparr>qspin_node_count = nc\<rparr>) l =
           release_tree sh off l n R R'"
proof -
  have "tt_node_id tt = n" "tt_shm tt = Some sh" "tt_state_offset tt = off"
    using tt by (simp_all add: client_lock_def)
  then show ?thesis
    using l n lines_fit_node [OF fit n] hw
    by (simp add: tt_global_release_def alg_release_lock_def qspin_release_lock_def
        qspin_release_last_def qspin_reset_node_def release_tree_def Let_def tree_simps qspin_ptrs [OF fit] not_le
        cong: if_cong) blast
qed


lemma qspin_demo_word:
  "n < 2 \<Longrightarrow> qspin_tail_idx (qspin_held_word n) = qspin_node_to_tail n"
  by (rule qspin_held_word_tail [of 2]) (simp_all add: MAX_NODE_COUNT_def)

definition qspin_demo_request :: "NodeId \<Rightarrow> LockResult prog" where
  "qspin_demo_request n = tt_global_acquire 1 (demo_lock (QspinAlgorithm \<lparr>qspin_node_count = 2\<rparr>) n)
     (QspinAlgorithm \<lparr>qspin_node_count = 2\<rparr>) (\<lambda>_. 0) 0 0"

definition qspin_demo_release :: "NodeId \<Rightarrow> LockResult prog" where
  "qspin_demo_release n = tt_global_release 1 (demo_lock (QspinAlgorithm \<lparr>qspin_node_count = 2\<rparr>) n)
     (QspinAlgorithm \<lparr>qspin_node_count = 2\<rparr>) 0"

text \<open>
  Node 0 enters and starts to release: its compare-and-swap frees the lock word. Node 1 enters
  by the fast path and records itself as the owner; the rest of node 0's release erases that
  record. The release of node 1 is then refused, with the lock word still locked.
\<close>

definition qspin_race_schedule :: "(NodeId \<times> LockId) choice list" where
  "qspin_race_schedule =
     [StartAcquire (0, 0) (qspin_demo_request 0), Advance (0, 0) 12,
      StartRelease (0, 0) (qspin_demo_release 0), Advance (0, 0) 4,
      StartAcquire (1, 0) (qspin_demo_request 1), Advance (1, 0) 12,
      Advance (0, 0) 7,
      StartRelease (1, 0) (qspin_demo_release 1), Advance (1, 0) 2]"

lemma qspin_race_run:
  assumes "m (ecell 0 0 0) = 0"
  defines "s \<equiv> run_schedule (open_protocol (\<lambda>_. demo_region) demo_region) qspin_race_schedule
             (initial_system m (demo_manager (QspinAlgorithm \<lparr>qspin_node_count = 2\<rparr>)))"
  shows "clients s (0, 0) = Idle \<and> clients s (1, 0) = Idle \<and>
         shared s (ecell 0 0 0) = qspin_held_word 1"
proof -
  have l: "(0 :: u32) < MAX_LOCK_COUNT" by (simp add: MAX_LOCK_COUNT_def)
  have n: "(0 :: u32) < 2" "(1 :: u32) < 2" by simp_all
  note req = qspin_request_tree [OF demo_fit(1) l _ demo_lock_client demo_region_fields(3), of _ 0,
      folded One_nat_def]
  note rel = qspin_release_tree [OF demo_fit(1) l _ demo_lock_client demo_region_fields(3), of _ 1]
  obtain A A' B B' C C' D D' where tree:
      "qspin_demo_request 0 = fast_path_tree demo_region 0 0 0 A A'"
      "qspin_demo_request 1 = fast_path_tree demo_region 0 0 1 B B'"
      "qspin_demo_release 0 = release_tree demo_region 0 0 0 C C'"
      "qspin_demo_release 1 = release_tree demo_region 0 0 1 D D'"
    using req [OF n(1)] req [OF n(2)] rel [OF n(1)] rel [OF n(2)]
    unfolding qspin_demo_request_def qspin_demo_release_def by metis
  show ?thesis
    using assms(1) n l unfolding s_def
    by (simp add: qspin_race_schedule_def tree fast_path_tree_def release_tree_def run_schedule_def
        open_protocol_def initial_system_def qspin_ptrs [OF demo_fit(1)] qspin_run_simps
        qspin_demo_word INVALID_NODE_ID_def)
qed

text \<open>
  C14. Under the qspinlock a lock can stay locked with nobody inside. A release frees the lock
  word before it erases the owner, so the owner that another node records in between is erased
  too and that node's release is refused: a state is reachable from initialised memory in which
  nodes 0 and 1 have both left, and the word of lock 0 still says that node 1 holds it.
\<close>

theorem qspin_lock_stays_locked:
  "\<exists>m0 s. run demo_region (alg_initialize new_qspin (Some demo_region) 0 2) m =
       Result (SUCCESS, QspinAlgorithm \<lparr>qspin_node_count = 2\<rparr>) m0 \<and>
     reachable (lock_protocol (QspinAlgorithm \<lparr>qspin_node_count = 2\<rparr>) 2 0 (\<lambda>_. demo_region) demo_region)
       (initial_system m0 (demo_manager (QspinAlgorithm \<lparr>qspin_node_count = 2\<rparr>))) s \<and>
     clients s (0, 0) = Idle \<and> clients s (1, 0) = Idle \<and>
     lock_word (qspin_entry 0 (shared s) 0) = qspin_held_word 1"
proof -
  let ?alg = "QspinAlgorithm \<lparr>qspin_node_count = 2\<rparr>"
  let ?P = "lock_protocol ?alg 2 0 (\<lambda>_. demo_region) demo_region"
  obtain m0 where m0: "run demo_region (alg_initialize new_qspin (Some demo_region) 0 2) m =
       Result (SUCCESS, ?alg) m0" "m0 (ecell 0 0 0) = 0"
    using run_qspin_initialize [OF demo_fit(1), of "\<lparr>qspin_node_count = 0\<rparr>" m]
    by (auto simp: alg_initialize_def new_qspin_def run_bind MAX_LOCK_COUNT_def)
  have ok: "acquisition ?P (n, 0) (qspin_demo_request n)" "release ?P (n, 0) (qspin_demo_release n)"
    if "n < 2" for n
    using that demo_lock_client [of ?alg n]
    by (auto simp: lock_protocol_def qspin_demo_request_def qspin_demo_release_def MAX_LOCK_COUNT_def)
  have "list_all (choice_allowed ?P) qspin_race_schedule"
    using ok [of 0] ok [of 1] by (simp add: qspin_race_schedule_def)
  from run_schedule_reachable [OF this, of "initial_system m0 (demo_manager ?alg)"]
  show ?thesis
    using m0(1) qspin_race_run [of m0, OF m0(2)] unfolding run_schedule_open
    by (auto simp: qspin_entry_def)
qed

end
