(* ===== verification/Wait_Freedom.thy ===== *)
theory Wait_Freedom
  imports Lock_Contract
begin

text \<open>
  Which routines return whatever the other nodes write. An access tree is wait-free when no
  path through it, with arbitrary values read, runs out of fuel: under every interleaving the
  caller finishes after finitely many of its own accesses.
\<close>

section \<open>Wait-free access trees\<close>

primrec wait_free :: "'r prog \<Rightarrow> bool" where
  "wait_free (Ret r) = True"
| "wait_free (Load p k) = (\<forall>v. wait_free (k v))"
| "wait_free (Store p v k) = wait_free k"
| "wait_free (CompareExchange p e d k) = (\<forall>b. wait_free (k b))"
| "wait_free (FetchAdd p v k) = (\<forall>x. wait_free (k x))"
| "wait_free (MemsetZero p n k) = wait_free k"
| "wait_free (Flush p n k) = wait_free k"
| "wait_free (Fence k) = wait_free k"
| "wait_free Crash = True"
| "wait_free OutOfFuel = False"

lemma wait_free_run: "wait_free p \<Longrightarrow> run sh p m \<noteq> NoFuel"
  by (induction p arbitrary: m) auto

lemma wait_free_pstep: "wait_free p \<Longrightarrow> pstep sh p m = (p', m') \<Longrightarrow> wait_free p'"
  by (cases p) (auto split: if_splits)

lemma wait_free_bind: "wait_free p \<Longrightarrow> (\<And>r. wait_free (f r)) \<Longrightarrow> wait_free (bind p f)"
  by (induction p) auto

lemma wait_free_deref: "(\<And>a. wait_free (f a)) \<Longrightarrow> wait_free (deref p f)"
  by (simp add: deref_def split: option.split)

lemma wait_free_seq: "wait_free p \<Longrightarrow> wait_free q \<Longrightarrow> wait_free (seq p q)"
  by (simp add: seq_def wait_free_bind)

lemma wait_free_access:
  "wait_free (atomic_load p)" "wait_free (atomic_store p v)" "wait_free (plain_load p)"
  "wait_free (plain_store p v)" "wait_free (compare_exchange p e d)" "wait_free (fetch_add p v)"
  "wait_free (memset_zero p n)" "wait_free (flush_cache sh p n)" "wait_free (invalidate_cache sh p n)"
  "wait_free memory_fence"
  by (simp_all add: atomic_load_def atomic_store_def plain_load_def plain_store_def
      compare_exchange_def fetch_add_def memset_zero_def flush_cache_def invalidate_cache_def
      memory_fence_def)

lemmas wait_free_intros = wait_free_bind wait_free_seq wait_free_deref wait_free_access

section \<open>The routines\<close>

lemma scans_wait_free:
  "wait_free (cas_scan_locked l nc shm off ns)" "wait_free (cas_scan_waiting l nc shm off ns)"
  "wait_free (faa_scan_min shm off ns t n0)"
  by (induction ns arbitrary: t n0) (auto simp: cas_read_slot_state_def intro!: wait_free_intros)

lemma qspin_await_wait_free: "wait_free (qspin_await_next k shm node)"
  by (induction k) (auto intro!: wait_free_intros)

lemma check_grant_wait_free: "wait_free (alg_check_grant alg l shm off nc)"
  by (cases alg; cases shm)
     (auto simp: alg_check_grant_def cas_check_grant_def faa_check_grant_def mcs_check_grant_def
       qspin_check_grant_def intro!: wait_free_intros scans_wait_free)

lemma grant_lock_wait_free: "wait_free (alg_grant_lock alg n l shm off)"
  by (cases alg; cases shm)
     (auto simp: alg_grant_lock_def cas_grant_lock_def faa_grant_lock_def mcs_grant_lock_def
       qspin_grant_lock_def intro!: wait_free_intros)

lemma scan_locks_wait_free: "wait_free (scan_locks alg shm off nc ls w st)"
  by (induction ls arbitrary: w st)
     (auto intro!: wait_free_intros check_grant_wait_free grant_lock_wait_free)

lemma qspin_release_wait_free: "wait_free (qspin_release_lock a n l shm off)"
  by (cases shm)
     (auto simp: qspin_release_lock_def qspin_release_last_def qspin_pass_lock_def qspin_reset_node_def
       Let_def intro!: wait_free_intros qspin_await_wait_free)

lemma cas_faa_wait_free:
  "wait_free (cas_acquire_lock a n l shm off)" "wait_free (cas_release_lock a n l shm off)"
  "wait_free (faa_acquire_lock b n l shm off)" "wait_free (faa_release_lock b n l shm off)"
  by (cases shm; auto simp: cas_acquire_lock_def cas_release_lock_def cas_write_slot_state_def
       faa_acquire_lock_def faa_release_lock_def intro!: wait_free_intros)+

lemma tt_granted_wait_free: "wait_free (tt_granted tt l)"
  by (auto simp: tt_granted_def intro!: wait_free_intros split: option.split GlobalLockAlgorithm.split)

lemma poll_zero_wait_free:
  assumes "unat spin \<le> 1001" and "1002 - unat spin \<le> fuel"
  shows "wait_free (tt_poll fuel tt l 0 clk i spin)"
  using assms
proof (induction fuel arbitrary: i spin)
  case 0
  then show ?case by simp
next
  case (Suc fuel)
  show ?case
  proof (cases "1000 < spin")
    case True
    then show ?thesis by (auto intro!: wait_free_intros tt_granted_wait_free)
  next
    case False
    then have "unat spin \<le> 1000" by (simp add: word_less_nat_alt)
    then have "unat (spin + 1) = unat spin + 1" by (simp add: unat_word_ariths)
    then have "wait_free (tt_poll fuel tt l 0 clk (Suc i) (spin + 1))"
      using Suc.prems \<open>unat spin \<le> 1000\<close> by (intro Suc.IH) simp_all
    then show ?thesis
      using False by (auto simp: adaptive_backoff_def Let_def intro!: wait_free_intros tt_granted_wait_free)
  qed
qed

lemma poll_timeout_wait_free:
  assumes "timeout \<le> clk (i + k)" and "k < fuel" and "0 < timeout"
  shows "wait_free (tt_poll fuel tt l timeout clk i spin)"
  using assms
proof (induction fuel arbitrary: i k spin)
  case 0
  then show ?case by simp
next
  case (Suc fuel)
  have "wait_free (tt_poll fuel tt l timeout clk (Suc i) spin')" if "clk i < timeout" for spin'
  proof (cases k)
    case 0
    then show ?thesis using that Suc.prems(1) by simp
  next
    case (Suc k')
    then show ?thesis using Suc.prems by (intro Suc.IH [of "Suc i" k']) simp_all
  qed
  then show ?case
    using Suc.prems(3) by (auto simp: not_le intro!: wait_free_intros tt_granted_wait_free)
qed

section \<open>Properties\<close>

text \<open>
  The manager never waits for a client: under all four algorithms \<open>check_grant\<close> and \<open>grant_lock\<close> have no unbounded
  loop, so a scan over any number of locks ends whatever the nodes write meanwhile.
\<close>

lemma run_single_scan_wait_free: "wait_free (run_single_scan lm)"
  by (auto simp: run_single_scan_def Let_def intro!: wait_free_intros scan_locks_wait_free
      split: option.split)

text \<open>
  C29. Polling ends: whatever \<open>poll_for_grant\<close> reads, it returns, with a zero timeout after at
  most 1002 tests, with a positive one when the clock has reached it. Hence under the CAS and FAA
  algorithms the global part of \<open>acquire\<close>, with its cancellation, always ends.
\<close>

theorem acquire_ends:
  assumes "poll_ends fuel clk timeout"
  shows "wait_free (poll_for_grant fuel tt clk l timeout) \<and>
    wait_free (tt_global_acquire fuel tt (CasAlgorithm a) clk l timeout) \<and>
    wait_free (tt_global_acquire fuel tt (FaaAlgorithm b) clk l timeout)"
proof (intro conjI)
  show p: "wait_free (poll_for_grant fuel tt clk l timeout)"
  proof (cases "timeout = 0")
    case True
    then show ?thesis
      using assms poll_zero_wait_free [of 0 fuel] by (simp add: poll_ends_def poll_for_grant_def)
  next
    case False
    then obtain k where "k < fuel" "timeout \<le> clk k" using assms by (auto simp: poll_ends_def)
    then show ?thesis
      using False poll_timeout_wait_free [of timeout clk 0 k fuel]
      by (simp add: poll_for_grant_def word_greater_zero_iff)
  qed
  show "wait_free (tt_global_acquire fuel tt (CasAlgorithm a) clk l timeout)"
    "wait_free (tt_global_acquire fuel tt (FaaAlgorithm b) clk l timeout)"
    by (auto simp: tt_global_acquire_def alg_acquire_lock_def alg_release_lock_def
        intro!: wait_free_intros cas_faa_wait_free p)
qed

theorem acquire_ends_witness: "wait_free (poll_for_grant 1002 (demo_lock new_cas 1) of_nat 0 0)"
  using acquire_ends [of 1002 of_nat 0 "demo_lock new_cas 1" 0] by (simp add: poll_ends_def)

text \<open>
  C32. Releasing ends under the CAS, FAA and qspinlock algorithms, whatever the other nodes
  write: the wait of the qspinlock for its successor is bounded.
\<close>

theorem release_ends:
  "wait_free (alg_release_lock fuel (CasAlgorithm a) n l shm off) \<and>
   wait_free (alg_release_lock fuel (FaaAlgorithm b) n l shm off) \<and>
   wait_free (alg_release_lock fuel (QspinAlgorithm c) n l shm off)"
  by (simp add: alg_release_lock_def cas_faa_wait_free qspin_release_wait_free)

end
