(* ===== verification/Two_Tier_Properties.thy ===== *)
theory Two_Tier_Properties
  imports Cas_Service Qspin_Service
begin

text \<open>
  Properties of \<open>TwoTierLock\<close> for every algorithm: what its operations do to the local mutexes,
  the hash functions from data keys to locks, and the effect of a late \<open>initialize\<close> on locks in
  use.
\<close>

section \<open>The local tier\<close>

text \<open>The part of \<open>acquire\<close> after the local mutex.\<close>

definition tt_tier2 ::
  "nat \<Rightarrow> thread \<Rightarrow> (nat \<Rightarrow> u64) \<Rightarrow> LockId \<Rightarrow> u64 \<Rightarrow> TwoTierLock \<Rightarrow> LocalLockArray \<Rightarrow>
   (LockResult \<times> LocalLockArray) prog"
where
  "tt_tier2 fuel t clk l timeout tt ll1 =
     (case tt_algorithm tt of
        None \<Rightarrow> Crash
      | Some alg \<Rightarrow>
          bind (tt_global_acquire fuel tt alg clk l timeout) (\<lambda>rc.
            if rc \<noteq> SUCCESS then bind (tt_local_release t l ll1) (\<lambda>(_, ll2). Ret (rc, ll2)) else Ret (SUCCESS, ll1)))"

lemma run_tt_tier2:
  assumes "run sh (tt_tier2 fuel t clk l timeout tt ll1) m = Result (rc, ll') m'"
  shows "if rc = SUCCESS then ll' = ll1 else \<exists>rc2. ll_release t l ll1 = Some (rc2, ll')"
  using assms by (auto simp: tt_tier2_def run_bind split: option.splits outcome.splits if_splits)

text \<open>
  C26. \<open>acquire\<close> keeps the local mutex exactly when it succeeds: if it returns \<open>SUCCESS\<close>, the
  calling thread holds the mutex of the lock, which was free; if it returns an error, on any path, the
  local mutexes are as they were before.
\<close>

theorem two_tier_acquire_local:
  assumes "ll_wf ll" and "tt_acquire fuel t clk l timeout tt ll = Some p"
    and "run sh p m = Result (rc, ll') m'"
  shows "if rc = SUCCESS
         then ll_acquire t l ll = Returns SUCCESS ll' \<and> ll_mutexes ll' ! unat l = Some t
         else ll' = ll"
proof (cases "tt_initialized tt \<and> l < tt_max_locks tt")
  case False
  then show ?thesis using assms(2,3) by (auto simp: tt_acquire_def not_less split: if_splits)
next
  case True
  then have p: "tt_acquire fuel t clk l timeout tt ll = (case ll_acquire t l ll of
        Overrun \<Rightarrow> Some Crash
      | Blocked \<Rightarrow> None
      | Returns rc ll1 \<Rightarrow> Some (if rc \<noteq> SUCCESS then Ret (rc, ll1) else tt_tier2 fuel t clk l timeout tt ll1))"
    unfolding tt_acquire_def tt_tier2_def by (simp add: not_le [symmetric])
  then obtain rc1 ll1 where a: "ll_acquire t l ll = Returns rc1 ll1"
      "p = (if rc1 \<noteq> SUCCESS then Ret (rc1, ll1) else tt_tier2 fuel t clk l timeout tt ll1)"
    using assms(2) ll_in_bounds(1) [OF assms(1), of t l] by (auto split: ll_acquired.splits)
  show ?thesis
  proof (cases "rc1 = SUCCESS")
    case False
    then show ?thesis using a ll_acquire_error [OF a(1)] assms(3) by auto
  next
    case ok: True
    note acq = ll_acquired [OF assms(1) a(1) [unfolded ok]]
    have "run sh (tt_tier2 fuel t clk l timeout tt ll1) m = Result (rc, ll') m'"
      using a(2) ok assms(3) by simp
    then have "if rc = SUCCESS then ll' = ll1 else \<exists>rc2. ll_release t l ll1 = Some (rc2, ll')"
      by (rule run_tt_tier2)
    then show ?thesis using a(1) ok acq(3,4) by (auto split: if_splits)
  qed
qed

theorem two_tier_acquire_local_witness:
  "\<exists>p m' ll'. tt_acquire 1 4 of_nat 0 5 (demo_lock (QspinAlgorithm \<lparr>qspin_node_count = 2\<rparr>) 1)
         (two_local_locks\<lparr>ll_mutexes := [None, None]\<rparr>) = Some p \<and>
       run demo_region p (\<lambda>_. 0) = Result (SUCCESS, ll') m' \<and> ll_mutexes ll' ! 0 = Some 4"
proof -
  let ?alg = "QspinAlgorithm \<lparr>qspin_node_count = 2\<rparr>"
  let ?tt = "demo_lock ?alg 1"
  let ?ll = "two_local_locks\<lparr>ll_mutexes := [None, None]\<rparr>"
  let ?ll1 = "two_local_locks\<lparr>ll_mutexes := [Some 4, None]\<rparr>"
  have wf: "ll_wf ?ll" by (simp add: ll_wf_def two_local_locks_def MAX_LOCK_COUNT_def)
  have l: "(0 :: u32) < MAX_LOCK_COUNT" by (simp add: MAX_LOCK_COUNT_def)
  obtain m1 where m1: "run demo_region (qspin_acquire_lock 1 \<lparr>qspin_node_count = 2\<rparr> 1 0 (Some demo_region) 0) (\<lambda>_. 0) =
        Result SUCCESS m1" "q_locked 0 m1 1 = 2" "q_waiting 0 m1 1 = 0"
    using run_qspin_acquire_fast [OF demo_fit(1) l, of 1 "\<lambda>_. 0" 1] by (auto simp: qspin_entry_def)
  have "run demo_region (tt_granted ?tt 0) m1 = Result True m1"
    using run_tt_granted_qspin [OF demo_fit(1) l _ demo_lock_client, where n = 1 and m = m1] m1 by simp
  then have "run demo_region (poll_for_grant 1 ?tt of_nat 0 5) m1 = Result SUCCESS m1"
    by (rule run_poll_granted) simp
  then have g: "run demo_region (tt_global_acquire 1 ?tt ?alg of_nat 0 5) (\<lambda>_. 0) = Result SUCCESS m1"
    using m1(1) by (simp add: tt_global_acquire_def alg_acquire_lock_def demo_lock_def
        new_two_tier_lock_def run_bind)
  have a: "ll_acquire 4 0 ?ll = Returns SUCCESS ?ll1"
    by (simp add: ll_acquire_def pthread_mutex_lock_def two_local_locks_def word_le_nat_alt)
  define p where "p = tt_tier2 1 4 of_nat 0 5 ?tt ?ll1"
  have p: "tt_acquire 1 4 of_nat 0 5 ?tt ?ll = Some p"
    using a by (simp add: tt_acquire_def p_def tt_tier2_def demo_lock_def new_two_tier_lock_def)
  moreover have r: "run demo_region p (\<lambda>_. 0) = Result (SUCCESS, ?ll1) m1"
    using g by (simp add: p_def tt_tier2_def run_bind) (simp add: demo_lock_def run_bind)
  ultimately show ?thesis
    using two_tier_acquire_local [OF wf p r] by auto
qed

text \<open>
  \<open>release\<close> always gives the local mutex back: when the calling thread holds it, \<open>release\<close>
  frees it even if the release of the global lock fails; the result is the error of the global
  lock, or \<open>SUCCESS\<close>.
\<close>

theorem two_tier_release_local:
  assumes "ll_wf ll" and "l < ll_lock_count ll" and "ll_mutexes ll ! unat l = Some t"
    and "tt_initialized tt" and "l < tt_max_locks tt" and "tt_algorithm tt = Some alg"
    and "run sh (tt_release fuel t l tt ll) m = Result (rc, ll') m'"
  shows "ll' = ll\<lparr>ll_mutexes := (ll_mutexes ll)[unat l := None]\<rparr> \<and>
    run sh (tt_global_release fuel tt alg l) m = Result rc m'"
proof -
  have rel: "ll_release t l ll = Some (SUCCESS, ll\<lparr>ll_mutexes := (ll_mutexes ll)[unat l := None]\<rparr>)"
    using ll_release_cases [OF assms(1,2), of t] assms(3) by simp
  have p: "tt_release fuel t l tt ll = bind (tt_global_release fuel tt alg l) (\<lambda>rc.
      Ret (rc, ll\<lparr>ll_mutexes := (ll_mutexes ll)[unat l := None]\<rparr>))"
  proof -
    have "(\<lambda>rc. if rc \<noteq> SUCCESS then bind (tt_local_release t l ll) (\<lambda>(_, ll'). Ret (rc, ll')) else tt_local_release t l ll) =
        (\<lambda>rc. Ret (rc, ll\<lparr>ll_mutexes := (ll_mutexes ll)[unat l := None]\<rparr>))"
      using rel by (auto simp: tt_local_release_def)
    then show ?thesis
      using assms(4-6) by (simp add: tt_release_def not_le [symmetric])
  qed
  show ?thesis
    using assms(7) by (auto simp: p run_bind split: outcome.splits)
qed

theorem two_tier_release_local_witness:
  "\<exists>ll' m'. run demo_region (tt_release 0 7 0 (demo_lock (CasAlgorithm \<lparr>cas_node_count = 2\<rparr>) 1) two_local_locks)
       (\<lambda>_. 0) = Result (SUCCESS, ll') m' \<and> ll_mutexes ll' = [None, None]"
proof -
  let ?tt = "demo_lock (CasAlgorithm \<lparr>cas_node_count = 2\<rparr>) 1"
  have fits: "cas_fits demo_region 2 0" by (simp add: demo_cas_fits MAX_NODE_COUNT_def)
  obtain ll' m' where r: "run demo_region (tt_release 0 7 0 ?tt two_local_locks) (\<lambda>_. 0) = Result (SUCCESS, ll') m'"
    using run_cas_release [OF fits, of 0 1]
    by (simp add: tt_release_def tt_global_release_def alg_release_lock_def demo_lock_def
        new_two_tier_lock_def two_local_locks_def ll_release_def pthread_mutex_unlock_def run_bind
        MAX_LOCK_COUNT_def)
  have tt: "tt_initialized ?tt" "0 < tt_max_locks ?tt" "tt_algorithm ?tt = Some (CasAlgorithm \<lparr>cas_node_count = 2\<rparr>)"
    by (simp_all add: demo_lock_def)
  have "ll' = two_local_locks\<lparr>ll_mutexes := (ll_mutexes two_local_locks)[unat (0 :: u32) := None]\<rparr>"
    using two_tier_release_local [OF two_local_locks_wf _ _ tt r] by (simp add: two_local_locks_def)
  then show ?thesis using r by (simp add: two_local_locks_def)
qed

text \<open>
  The local tier keeps the threads of a node apart: while thread \<open>t\<close> holds the mutex of a
  lock, \<open>acquire\<close> of the same lock by another thread blocks before it touches shared memory,
  and \<open>try_acquire\<close> returns \<open>ERROR_BUSY\<close> without any access to shared memory; a nested \<open>acquire\<close> of \<open>t\<close>
  itself fails the same way, with \<open>ERROR_UNKNOWN\<close>.
\<close>

theorem two_tier_one_thread:
  assumes "ll_wf ll" and "l < ll_lock_count ll" and "ll_mutexes ll ! unat l = Some t"
    and "tt_initialized tt" and "l < tt_max_locks tt"
  shows "(t' \<noteq> t \<longrightarrow> tt_acquire fuel t' clk l timeout tt ll = None) \<and>
    tt_try_acquire fuel t' clk l tt ll = Ret (ERROR_BUSY, ll) \<and>
    tt_acquire fuel t clk l timeout tt ll = Some (Ret (ERROR_UNKNOWN, ll))"
  using assms(3-5) ll_acquire_cases [OF assms(1,2)] ll_try_acquire_cases [OF assms(1,2), of t']
  by (simp add: tt_acquire_def tt_try_acquire_def not_le [symmetric])

theorem two_tier_one_thread_witness:
  "tt_acquire 0 8 of_nat 0 5 (demo_lock new_cas 1) two_local_locks = None"
  using two_tier_one_thread [OF two_local_locks_wf, of 0 7 "demo_lock new_cas 1" 8]
  by (simp add: two_local_locks_def demo_lock_def)

section \<open>Hashing\<close>

lemma reduce_to_lock_id:
  assumes "count \<noteq> 0"
  shows "(ucast (h mod ucast count :: u64) :: u32) < count"
proof -
  have "unat (h mod ucast count :: u64) = unat h mod unat count" by (simp add: unat_mod_distrib)
  moreover have "unat h mod unat count < unat count"
    using assms by (simp add: unat_eq_0 word_neq_0_conv [symmetric] mod_less_divisor unat_gt_0)
  moreover have "unat (ucast (h mod ucast count :: u64) :: u32) = unat (h mod ucast count :: u64) mod 4294967296"
    by (simp add: unsigned_ucast_eq take_bit_eq_mod)
  ultimately show ?thesis
    by (simp add: u32_less_unat)
qed

text \<open>
  Both \<open>hash_data_to_lock_id\<close> functions give a lock id below the lock count, for every key
  and every positive count; a count of 0 is a division by zero.
\<close>

theorem hash_lock_id_bounds:
  "(hash_bytes_to_lock_id bytes count = None) = (count = 0) \<and>
   (hash_id_to_lock_id data_id count = None) = (count = 0) \<and>
   pred_option (\<lambda>l. l < count) (hash_bytes_to_lock_id bytes count) \<and>
   pred_option (\<lambda>l. l < count) (hash_id_to_lock_id data_id count)"
  by (simp add: hash_bytes_to_lock_id_def hash_id_to_lock_id_def reduce_to_lock_id)

text \<open>The inverse of the mixing function: the factors are odd, the shift is more than half.\<close>

definition xorshift33 :: "u64 \<Rightarrow> u64" where
  "xorshift33 x = x XOR drop_bit 33 x"

definition unmix64 :: "u64 \<Rightarrow> u64" where
  "unmix64 h = xorshift33 (xorshift33 (xorshift33 h * 11291846944257947611) * 5725274745694666757)"

lemma xorshift33_involution: "xorshift33 (xorshift33 x) = x"
  unfolding xorshift33_def by (rule bit_word_eqI) (auto simp: bit_simps dest: bit_imp_le_length)

lemma odd_factor_inverses:
  "(x :: u64) * 0xff51afd7ed558ccd * 5725274745694666757 = x"
  "(x :: u64) * 0xc4ceb9fe1a85ec53 * 11291846944257947611 = x"
proof -
  have "(0xff51afd7ed558ccd :: u64) * 5725274745694666757 = 1"
    "(0xc4ceb9fe1a85ec53 :: u64) * 11291846944257947611 = 1"
    by (simp_all add: word_unat_eq_iff)
  then show "x * 0xff51afd7ed558ccd * 5725274745694666757 = x" "x * 0xc4ceb9fe1a85ec53 * 11291846944257947611 = x"
    by (simp_all only: mult.assoc mult_1_right)
qed

lemma mix64_xorshift: "mix64 x = xorshift33 (xorshift33 (xorshift33 x * 0xff51afd7ed558ccd) * 0xc4ceb9fe1a85ec53)"
  by (simp add: mix64_def xorshift33_def Let_def)

text \<open>
  The mixing function for 64-bit data ids loses nothing: it has an inverse, so two different
  ids can only share a lock because of the final reduction to the number of locks.
\<close>

theorem mix64_roundtrip: "unmix64 (mix64 data_id) = data_id"
  by (simp add: unmix64_def mix64_xorshift xorshift33_involution odd_factor_inverses)


section \<open>A late initialisation\<close>

text \<open>
  C16. \<open>initialize\<close> of a two-tier lock does not ask whether the region is in use: it zeroes the state of the
  algorithm in shared memory. Under the CAS algorithm a node that joins while others hold
  locks therefore gets any lock at once: whatever the slot table said (in particular when another
  node's slot was \<open>LOCKED\<close>), after \<open>initialize\<close>, one \<open>acquire_lock\<close> and one scan its poll reports the grant.
\<close>

theorem late_initialize_grants_held_lock:
  assumes "cas_fits sh nc off" and "l < MAX_LOCK_COUNT" and "n < nc" and "\<not> tt_initialized tt0"
    and "0 < max_locks" and "max_locks \<le> MAX_LOCK_COUNT"
  shows "\<exists>tt m1 m2 m3.
    run sh (tt_initialize tt0 n True (Some sh) (Some new_cas) off max_locks nc) m = Result (SUCCESS, tt) m1 \<and>
    run sh (alg_acquire_lock 0 (CasAlgorithm \<lparr>cas_node_count = nc\<rparr>) n l (Some sh) off) m1 = Result SUCCESS m2 \<and>
    run sh (scan_lock (CasAlgorithm \<lparr>cas_node_count = nc\<rparr>) (Some sh) off nc l) m2 = Result SUCCESS m3 \<and>
    run sh (tt_granted tt l) m3 = Result True m3"
proof -
  note fits = assms(1)
  have nc: "nc \<le> MAX_NODE_COUNT" "0 < nc" using fits by (auto simp: cas_fits_def word_gt_0)
  have n: "n \<noteq> INVALID_NODE_ID" using node_valid [OF nc(1) assms(3)] .
  define alg where "alg = CasAlgorithm \<lparr>cas_node_count = nc\<rparr>"
  define tt where "tt = tt0\<lparr>tt_node_id := n, tt_has_local_locks := True, tt_shm := Some sh,
      tt_algorithm := Some alg, tt_state_offset := off, tt_max_locks := max_locks, tt_node_count := nc,
      tt_initialized := True\<rparr>"
  define m1 where "m1 = zero_cells off (unat (cas_get_state_size nc)) m"
  have init: "run sh (tt_initialize tt0 n True (Some sh) (Some new_cas) off max_locks nc) m = Result (SUCCESS, tt) m1"
    using assms(4-6) n nc(2) run_cas_initialize [OF fits]
    by (simp add: tt_initialize_def alg_initialize_def new_cas_def run_bind tt_def alg_def m1_def not_less
        Let_def word_gt_0)
  have zero: "m1 (cas_get_slot_offset l n' nc off) = 0" if "n' < nc" for n'
    using zero_cells_slot [OF fits assms(2) that] by (simp add: m1_def)
  define m2 where "m2 = m1(cas_get_slot_offset l n nc off := 1)"
  have acq: "run sh (alg_acquire_lock 0 alg n l (Some sh) off) m1 = Result SUCCESS m2"
    using assms(2,3) by (simp add: alg_def alg_acquire_lock_def run_cas_acquire [OF fits] m2_def)
  have slots: "m2 (cas_get_slot_offset l n' nc off) = (if n' = n then 1 else 0)" if "n' < nc" for n'
    using zero [OF that] cas_slot_inj [OF nc(1) assms(2) that assms(2,3), of off] by (auto simp: m2_def)
  have "cas_pick nc (\<lambda>n'. m2 (cas_get_slot_offset l n' nc off)) = Some n"
    using assms(3) slots by (auto simp: cas_pick_Some dest: less_trans)
  then have scan: "run sh (scan_lock alg (Some sh) off nc l) m2 =
      Result SUCCESS (m2(cas_get_slot_offset l n nc off := 2))"
    using n slots [OF assms(3)]
    by (simp add: alg_def scan_lock_def alg_check_grant_def alg_grant_lock_def run_bind
        run_cas_check [OF fits assms(2)] run_cas_grant [OF fits assms(2,3)])
  have "client_lock alg sh nc off n tt"
    by (simp add: client_lock_def tt_def)
  then have "run sh (tt_granted tt l) (m2(cas_get_slot_offset l n nc off := 2)) =
      Result True (m2(cas_get_slot_offset l n nc off := 2))"
    using run_tt_granted_cas [OF fits assms(2,3)] by (simp add: alg_def)
  then show ?thesis using init acq scan unfolding alg_def by blast
qed

theorem late_initialize_grants_held_lock_witness:
  "\<exists>tt m1 m2 m3.
    run demo_region (tt_granted (demo_lock (CasAlgorithm \<lparr>cas_node_count = 2\<rparr>) 0) 0)
      ((\<lambda>_. 0)(cas_get_slot_offset 0 0 2 0 := 2)) = Result True ((\<lambda>_. 0)(cas_get_slot_offset 0 0 2 0 := 2)) \<and>
    run demo_region (tt_initialize new_two_tier_lock 1 True (Some demo_region) (Some new_cas) 0 1 2)
      ((\<lambda>_. 0)(cas_get_slot_offset 0 0 2 0 := 2)) = Result (SUCCESS, tt) m1 \<and>
    run demo_region (alg_acquire_lock 0 (CasAlgorithm \<lparr>cas_node_count = 2\<rparr>) 1 0 (Some demo_region) 0) m1 =
      Result SUCCESS m2 \<and>
    run demo_region (scan_lock (CasAlgorithm \<lparr>cas_node_count = 2\<rparr>) (Some demo_region) 0 2 0) m2 = Result SUCCESS m3 \<and>
    run demo_region (tt_granted tt 0) m3 = Result True m3"
proof -
  have fits: "cas_fits demo_region 2 0" by (simp add: demo_cas_fits MAX_NODE_COUNT_def)
  have l: "(0 :: u32) < MAX_LOCK_COUNT" by (simp add: MAX_LOCK_COUNT_def)
  have "run demo_region (tt_granted (demo_lock (CasAlgorithm \<lparr>cas_node_count = 2\<rparr>) 0) 0)
      ((\<lambda>_. 0)(cas_get_slot_offset 0 0 2 0 := 2)) = Result True ((\<lambda>_. 0)(cas_get_slot_offset 0 0 2 0 := 2))"
    using run_tt_granted_cas [OF fits l _ demo_lock_client, of 0] by simp
  then show ?thesis
    using late_initialize_grants_held_lock [OF fits l, of 1 new_two_tier_lock 1 "(\<lambda>_. 0)(cas_get_slot_offset 0 0 2 0 := 2)"]
    by (simp add: new_two_tier_lock_def MAX_LOCK_COUNT_def)
qed

section \<open>A release by a thread that does not hold the lock\<close>

text \<open>
  \<open>release\<close> releases the global lock of the node before it asks the local mutex whether the caller holds it.
\<close>

lemma tt_release_foreign:
  assumes "ll_wf ll" and "l < ll_lock_count ll" and "ll_mutexes ll ! unat l \<noteq> Some t"
    and "tt_initialized tt" and "l < tt_max_locks tt" and "client_lock alg sh nc off n tt"
    and "run sh (alg_release_lock fuel alg n l (Some sh) off) m = Result SUCCESS m'"
  shows "run sh (tt_release fuel t l tt ll) m = Result (ERROR_NOT_OWNER, ll) m'"
  using assms ll_release_cases [OF assms(1,2), of t]
  by (simp add: tt_release_def tt_global_release_def client_lock_def run_bind not_le [symmetric])

context lock_live
begin

lemma foreign_release_serves:
  assumes "impl m s" and "holder s l = Some n" and "waiters s l = {}" and "n < nc" and "n2 < nc" and "l \<in> locks"
    and "\<And>m s. impl m s \<Longrightarrow> holder s l = None \<Longrightarrow> waiters s l = {} \<Longrightarrow> may_request m s n2 l"
    and tt: "client_lock alg sh nc off n tt" "tt_initialized tt" "l < tt_max_locks tt" "client_lock alg sh nc off n2 tt2"
    and ll: "ll_wf ll" "l < ll_lock_count ll" "ll_mutexes ll ! unat l = Some t" "t' \<noteq> t"
    and lm: "manager_ready alg sh nc off lm" "l < lm_max_locks lm" "{l. l < lm_max_locks lm} \<subseteq> locks" and "0 < fuel'"
  shows "\<exists>m1 m2 lm' m3.
    run sh (tt_release fuel t' l tt ll) m = Result (ERROR_NOT_OWNER, ll) m1 \<and>
    run sh (alg_acquire_lock fuel alg n2 l (Some sh) off) m1 = Result SUCCESS m2 \<and>
    run sh (run_single_scan lm) m2 = Result lm' m3 \<and>
    run sh (poll_for_grant fuel' tt2 clk l timeout) m3 = Result SUCCESS m3"
proof -
  obtain m1 s1 where m1: "run sh (alg_release_lock fuel alg n l (Some sh) off) m = Result SUCCESS m1" "impl m1 s1"
      "s1 = let_out l s"
    using release [OF assms(1,2,4,6)] assms(3) by auto
  then have free: "holder s1 l = None" "waiters s1 l = {}" using assms(3) by (simp_all add: let_out_def)
  have "run sh (tt_release fuel t' l tt ll) m = Result (ERROR_NOT_OWNER, ll) m1"
    by (rule tt_release_foreign [OF ll(1,2) _ tt(2,3,1) m1(1)]) (use ll in auto)
  with request_served [OF m1(2) assms(7) [OF m1(2) free] assms(5,6) free lm tt(4) assms(19)] show ?thesis by blast
qed

end

text \<open>
  C17. A thread that calls \<open>release\<close> for a lock that another thread of its node holds gets \<open>ERROR_NOT_OWNER\<close>, and the local
  mutexes stay as they are, but the global lock is gone: under the CAS algorithm the node's slot is empty after the refused
  call, and the next node that asks is let in by the next scan, while the thread that holds the local mutex is still inside.
\<close>

theorem foreign_release_breaks_exclusion:
  assumes "cas_impl sh nc off m s" and "holder s l = Some n" and "waiters s l = {}" and "n < nc" and "n2 < nc" and "l < MAX_LOCK_COUNT"
    and tt: "client_lock (CasAlgorithm \<lparr>cas_node_count = nc\<rparr>) sh nc off n tt" "tt_initialized tt" "l < tt_max_locks tt"
      "client_lock (CasAlgorithm \<lparr>cas_node_count = nc\<rparr>) sh nc off n2 tt2"
    and ll: "ll_wf ll" "l < ll_lock_count ll" "ll_mutexes ll ! unat l = Some t" "t' \<noteq> t"
    and lm: "manager_ready (CasAlgorithm \<lparr>cas_node_count = nc\<rparr>) sh nc off lm" "l < lm_max_locks lm"
  shows "\<exists>m1 m2 lm' m3.
    run sh (tt_release fuel t' l tt ll) m = Result (ERROR_NOT_OWNER, ll) m1 \<and>
    run sh (alg_acquire_lock fuel (CasAlgorithm \<lparr>cas_node_count = nc\<rparr>) n2 l (Some sh) off) m1 = Result SUCCESS m2 \<and>
    run sh (run_single_scan lm) m2 = Result lm' m3 \<and>
    run sh (poll_for_grant 1 tt2 clk l timeout) m3 = Result SUCCESS m3"
proof -
  have "{l. l < lm_max_locks lm} \<subseteq> {l. l < MAX_LOCK_COUNT}"
    using lm(1) by (auto simp: manager_ready_def intro: order.strict_trans2)
  then show ?thesis
    using lock_live.foreign_release_serves [OF cas.lock_live_axioms, where fuel = fuel and fuel' = 1,
        OF assms(1-5) _ _ tt ll lm] assms(6) by simp
qed

theorem foreign_release_breaks_exclusion_witness:
  "\<exists>m1 m2 lm' m3.
    run demo_region (tt_granted (demo_lock (CasAlgorithm \<lparr>cas_node_count = 2\<rparr>) 0) 0) ((\<lambda>_. 0)(cas_slot 2 0 0 0 := 2)) =
      Result True ((\<lambda>_. 0)(cas_slot 2 0 0 0 := 2)) \<and>
    run demo_region (tt_release 0 8 0 (demo_lock (CasAlgorithm \<lparr>cas_node_count = 2\<rparr>) 0) two_local_locks)
      ((\<lambda>_. 0)(cas_slot 2 0 0 0 := 2)) = Result (ERROR_NOT_OWNER, two_local_locks) m1 \<and>
    run demo_region (alg_acquire_lock 0 (CasAlgorithm \<lparr>cas_node_count = 2\<rparr>) 1 0 (Some demo_region) 0) m1 = Result SUCCESS m2 \<and>
    run demo_region (run_single_scan (demo_manager (CasAlgorithm \<lparr>cas_node_count = 2\<rparr>))) m2 = Result lm' m3 \<and>
    run demo_region (poll_for_grant 1 (demo_lock (CasAlgorithm \<lparr>cas_node_count = 2\<rparr>) 1) of_nat 0 5) m3 = Result SUCCESS m3"
proof -
  let ?m = "(\<lambda>_. 0)(cas_slot 2 0 0 0 := 2) :: mem"
  have fits: "cas_fits demo_region 2 0" by (simp add: demo_cas_fits MAX_NODE_COUNT_def)
  have l: "(0 :: u32) < MAX_LOCK_COUNT" by (simp add: MAX_LOCK_COUNT_def)
  have slot: "?m (cas_slot 2 0 l n) = (if l = 0 \<and> n = 0 then 2 else 0)" if "l < MAX_LOCK_COUNT" "n < 2" for l n
    using cas_slot_inj [of 2 l n 0 0 0] that l by (auto simp: MAX_NODE_COUNT_def)
  define s where "s = let_in 0 0 new_service"
  have impl: "cas_impl demo_region 2 0 ?m s"
    using slot fits by (auto simp: cas_impl_def s_def let_in_def new_service_def split: if_splits)
  have s: "holder s 0 = Some 0" "waiters s 0 = {}" by (simp_all add: s_def let_in_def new_service_def)
  have tt: "tt_initialized (demo_lock (CasAlgorithm \<lparr>cas_node_count = 2\<rparr>) 0)"
    "0 < tt_max_locks (demo_lock (CasAlgorithm \<lparr>cas_node_count = 2\<rparr>) 0)"
    by (simp_all add: demo_lock_def)
  have ll: "ll_wf two_local_locks" "0 < ll_lock_count two_local_locks"
    "ll_mutexes two_local_locks ! unat (0 :: u32) = Some 7" "(8 :: thread) \<noteq> 7"
    by (simp, simp_all add: two_local_locks_def)
  have lm: "0 < lm_max_locks (demo_manager (CasAlgorithm \<lparr>cas_node_count = 2\<rparr>))" by (simp add: demo_manager_def)
  have "run demo_region (tt_granted (demo_lock (CasAlgorithm \<lparr>cas_node_count = 2\<rparr>) 0) 0) ?m = Result True ?m"
    using run_tt_granted_cas [OF fits l _ demo_lock_client, where n = 0 and m = ?m] by simp
  with foreign_release_breaks_exclusion [OF impl s _ _ l demo_lock_client tt demo_lock_client ll demo_manager_ready lm, of 1]
  show ?thesis by simp
qed

end
