(* ===== verification/Node_Config.thy ===== *)
theory Node_Config
  imports Lock_Types "HOL-Library.Char_ord"
begin

text \<open>
  The configuration file of a node (\<open>src/node_registry.cpp\<close>, \<open>load_local_config\<close> and its helper
  functions): a hand-written reader of one JSON key and value per line. Characters are bytes,
  \<open>std::isspace\<close> and \<open>std::stoul\<close> are those of the C locale with a 64-bit \<open>unsigned long\<close>. The
  file system is a parameter: the content of a path, or \<open>None\<close> if it cannot be opened.
\<close>

section \<open>Helper functions\<close>

abbreviation (input) "newline \<equiv> CHR 0x0A"
abbreviation (input) "quote \<equiv> CHR 0x22"
abbreviation (input) "blank \<equiv> CHR 0x20"

definition isspace :: "char \<Rightarrow> bool" where
  "isspace c \<longleftrightarrow> c \<in> {CHR 0x20, CHR 0x09, CHR 0x0A, CHR 0x0B, CHR 0x0C, CHR 0x0D}"

definition trim :: "string \<Rightarrow> string" where
  "trim s = rev (dropWhile isspace (rev (dropWhile isspace s)))"

definition extract_json_value :: "string \<Rightarrow> string" where
  "extract_json_value line =
     (if CHR 0x3A \<notin> set line then []
      else
        let v0 = trim (tl (dropWhile (\<lambda>c. c \<noteq> CHR 0x3A) line));
            v1 = (if v0 \<noteq> [] \<and> last v0 = CHR 0x2C then trim (butlast v0) else v0)
        in if 2 \<le> length v1 \<and> hd v1 = quote \<and> last v1 = quote then butlast (tl v1) else v1)"

definition extract_json_key :: "string \<Rightarrow> string" where
  "extract_json_key line =
     (case dropWhile (\<lambda>c. c \<noteq> quote) line of
        [] \<Rightarrow> []
      | _ # rest \<Rightarrow> if quote \<in> set rest then takeWhile (\<lambda>c. c \<noteq> quote) rest else [])"

text \<open>
  \<open>std::stoul\<close>: white space, an optional sign, digits; anything after them is ignored. \<open>None\<close> is
  an exception (no digits, or a magnitude above \<open>ULONG_MAX\<close>); a negative number wraps around.
\<close>

definition digit_value :: "char \<Rightarrow> nat" where
  "digit_value c = of_char c - 48"

definition is_digit :: "char \<Rightarrow> bool" where
  "is_digit c \<longleftrightarrow> 48 \<le> (of_char c :: nat) \<and> (of_char c :: nat) \<le> 57"

definition digits_value :: "string \<Rightarrow> nat" where
  "digits_value ds = foldl (\<lambda>n c. n * 10 + digit_value c) 0 ds"

definition stoul :: "string \<Rightarrow> u64 option" where
  "stoul s =
     (let s1 = dropWhile isspace s;
          neg = (s1 \<noteq> [] \<and> hd s1 = CHR 0x2D);
          s2 = (if s1 \<noteq> [] \<and> (hd s1 = CHR 0x2D \<or> hd s1 = CHR 0x2B) then tl s1 else s1);
          ds = takeWhile is_digit s2;
          n = digits_value ds
      in if ds = [] \<or> 18446744073709551616 \<le> n then None
         else Some (if neg then - of_nat n else of_nat n))"

text \<open>The lines that \<open>std::getline\<close> delivers: a final newline starts no further line.\<close>

fun getlines :: "string \<Rightarrow> string list" where
  "getlines [] = []"
| "getlines (c # s) =
     (if c = newline then [] # getlines s
      else case getlines s of [] \<Rightarrow> [[c]] | l # ls \<Rightarrow> (c # l) # ls)"

section \<open>Loading\<close>

record NodeConfig =
  nc_node_id :: NodeId
  nc_node_name :: string
  nc_ip_address :: string
  nc_num_compute_threads :: u32
  nc_is_lock_manager :: bool

record NodeRegistry =
  local_config :: NodeConfig
  has_local_config :: bool

definition zero_config :: NodeConfig where
  "zero_config = \<lparr>nc_node_id = 0, nc_node_name = [], nc_ip_address = [],
     nc_num_compute_threads = 0, nc_is_lock_manager = False\<rparr>"

definition new_registry :: NodeRegistry where
  "new_registry = \<lparr>local_config = zero_config, has_local_config = False\<rparr>"

text \<open>One line: \<open>None\<close> when a number cannot be read.\<close>

definition load_line :: "string \<Rightarrow> NodeConfig \<Rightarrow> NodeConfig option" where
  "load_line line0 cfg =
     (let line = trim line0;
          key = extract_json_key line;
          value = extract_json_value line
      in if line = [] \<or> line = ''{'' \<or> line = ''}'' then Some cfg
         else if key = [] \<or> value = [] then Some cfg
         else if key = ''node_id'' then
           map_option (\<lambda>n. cfg\<lparr>nc_node_id := ucast n\<rparr>) (stoul value)
         else if key = ''node_name'' then Some (cfg\<lparr>nc_node_name := value\<rparr>)
         else if key = ''ip_address'' then Some (cfg\<lparr>nc_ip_address := value\<rparr>)
         else if key = ''num_compute_threads'' then
           map_option (\<lambda>n. cfg\<lparr>nc_num_compute_threads := ucast n\<rparr>) (stoul value)
         else if key = ''is_lock_manager'' then Some (cfg\<lparr>nc_is_lock_manager := (value = ''true'')\<rparr>)
         else Some cfg)"

text \<open>The loop: the configuration as it is at the end or at the first failure.\<close>

fun load_lines :: "string list \<Rightarrow> NodeConfig \<Rightarrow> bool \<times> NodeConfig" where
  "load_lines [] cfg = (True, cfg)"
| "load_lines (line # lines) cfg =
     (case load_line line cfg of
        None \<Rightarrow> (False, cfg)
      | Some cfg' \<Rightarrow> load_lines lines cfg')"

definition load_local_config ::
  "(string \<Rightarrow> string option) \<Rightarrow> string \<Rightarrow> NodeRegistry \<Rightarrow> LockResult \<times> NodeRegistry"
where
  "load_local_config files config_path reg =
     (if config_path = [] then (ERROR_INVALID_PARAM, reg)
      else case files config_path of
        None \<Rightarrow> (ERROR_SHM_FAILURE, reg)
      | Some content \<Rightarrow>
          let (ok, cfg) = load_lines (getlines content) (zero_config\<lparr>nc_node_id := INVALID_NODE_ID\<rparr>)
          in if \<not> ok then (ERROR_UNKNOWN, reg\<lparr>local_config := cfg\<rparr>)
             else if nc_node_id cfg = INVALID_NODE_ID then (ERROR_UNKNOWN, reg\<lparr>local_config := cfg\<rparr>)
             else (SUCCESS, reg\<lparr>local_config := cfg, has_local_config := True\<rparr>))"

definition get_local_config :: "NodeRegistry \<Rightarrow> NodeConfig" where
  "get_local_config reg = local_config reg"

definition reg_move_construct :: "NodeRegistry \<Rightarrow> NodeRegistry \<times> NodeRegistry" where
  "reg_move_construct other = (other, new_registry)"

definition reg_move_assign :: "NodeRegistry \<Rightarrow> NodeRegistry \<Rightarrow> NodeRegistry \<times> NodeRegistry" where
  "reg_move_assign self other = (other, new_registry)"

section \<open>Printing\<close>

text \<open>
  The documented format of the file, as a function from configurations; the reader is proved
  to be its inverse.
\<close>

fun show_nat :: "nat \<Rightarrow> string" where
  "show_nat n =
     (if n < 10 then [char_of (48 + n)] else show_nat (n div 10) @ [char_of (48 + n mod 10)])"

declare show_nat.simps [simp del]

definition entry_line :: "string \<Rightarrow> string \<Rightarrow> string \<Rightarrow> string" where
  "entry_line key value comma = [blank, blank, blank, blank, quote] @ key @ [quote, CHR 0x3A, blank] @ value @ comma"

definition config_lines :: "NodeConfig \<Rightarrow> string list" where
  "config_lines cfg =
     [''{'',
      entry_line ''node_id'' (show_nat (unat (nc_node_id cfg))) '','',
      entry_line ''node_name'' (quote # nc_node_name cfg @ [quote]) '','',
      entry_line ''ip_address'' (quote # nc_ip_address cfg @ [quote]) '','',
      entry_line ''num_compute_threads'' (show_nat (unat (nc_num_compute_threads cfg))) '','',
      entry_line ''is_lock_manager'' (if nc_is_lock_manager cfg then ''true'' else ''false'') [],
      ''}'']"

definition print_config :: "NodeConfig \<Rightarrow> string" where
  "print_config cfg = concat (map (\<lambda>l. l @ [newline]) (config_lines cfg))"

lemma getlines_line: "newline \<notin> set l \<Longrightarrow> getlines (l @ newline # s) = l # getlines s"
  by (induction l) auto

lemma getlines_print: "\<forall>l \<in> set ls. newline \<notin> set l \<Longrightarrow> getlines (concat (map (\<lambda>l. l @ [newline]) ls)) = ls"
  by (induction ls) (simp_all add: getlines_line)

lemma show_nat_digits: "show_nat n \<noteq> [] \<and> list_all is_digit (show_nat n) \<and> digits_value (show_nat n) = n"
proof (induction n rule: show_nat.induct)
  case (1 n)
  have d: "is_digit (char_of (48 + k)) \<and> digit_value (char_of (48 + k)) = k" if "k < 10" for k :: nat
    using that by (simp add: is_digit_def digit_value_def of_char_of)
  show ?case
    using 1 d [of n] d [of "n mod 10"] by (subst (1 2 3) show_nat.simps) (auto simp: digits_value_def)
qed

lemma trim_indent:
  "s \<noteq> [] \<Longrightarrow> \<not> isspace (hd s) \<Longrightarrow> \<not> isspace (last s) \<Longrightarrow> \<forall>c \<in> set i. isspace c \<Longrightarrow> trim (i @ s) = s"
proof -
  assume s: "s \<noteq> []" "\<not> isspace (hd s)" "\<not> isspace (last s)" and i: "\<forall>c \<in> set i. isspace c"
  have "dropWhile isspace (i @ s) = s" using s i by (cases s) (simp_all add: dropWhile_append)
  moreover have "dropWhile isspace (rev s) = rev s"
    using s by (cases "rev s") (auto simp: last_rev hd_rev [symmetric])
  ultimately show ?thesis by (simp add: trim_def)
qed


text \<open>One printed entry, read back.\<close>

lemma dropWhile_to: "x \<notin> set k \<Longrightarrow> dropWhile (\<lambda>c. c \<noteq> x) (k @ x # r) = x # r"
  by (induction k) auto

lemma takeWhile_to: "x \<notin> set k \<Longrightarrow> takeWhile (\<lambda>c. c \<noteq> x) (k @ x # r) = k"
  by (induction k) auto

lemma entry_line_trim:
  assumes "v @ c \<noteq> []" and "\<not> isspace (last (v @ c))"
  shows "trim (entry_line k v c) = quote # k @ quote # CHR 0x3A # blank # v @ c"
proof -
  have "trim ([blank, blank, blank, blank] @ (quote # k @ quote # CHR 0x3A # blank # v @ c)) =
      quote # k @ quote # CHR 0x3A # blank # v @ c"
    using assms by (intro trim_indent) (auto simp: isspace_def)
  then show ?thesis by (simp add: entry_line_def)
qed

lemma entry_line_key:
  "quote \<notin> set k \<Longrightarrow> extract_json_key (quote # k @ quote # r) = k"
  by (simp add: extract_json_key_def takeWhile_to)

lemma entry_line_value:
  assumes "CHR 0x3A \<notin> set k" and "v \<noteq> []" and "\<not> isspace (hd v)" and "\<not> isspace (last v)"
    and "c = [] \<and> last v \<noteq> CHR 0x2C \<or> c = [CHR 0x2C]"
  shows "extract_json_value (quote # k @ quote # CHR 0x3A # blank # v @ c) =
     (if 2 \<le> length v \<and> hd v = quote \<and> last v = quote then butlast (tl v) else v)"
proof -
  have vc: "v @ c \<noteq> []" "\<not> isspace (hd (v @ c))" "\<not> isspace (last (v @ c))"
    using assms(2-5) by (auto simp: isspace_def)
  have d: "tl (dropWhile (\<lambda>c. c \<noteq> CHR 0x3A) (quote # k @ quote # CHR 0x3A # blank # v @ c)) = blank # v @ c"
  proof -
    have "CHR 0x3A \<notin> set (quote # k @ [quote])" using assms(1) by simp
    from dropWhile_to [OF this, of "blank # v @ c"] show ?thesis by simp
  qed
  have t: "trim (blank # v @ c) = v @ c"
    using trim_indent [OF vc, of "[blank]"] by (simp add: isspace_def)
  have tv: "trim v = v" using trim_indent [OF assms(2-4), of "[]"] by simp
  show ?thesis
    unfolding extract_json_value_def d Let_def t using assms(2,5) by (auto simp: tv)
qed

lemma load_entry:
  assumes "quote \<notin> set k" and "CHR 0x3A \<notin> set k" and "v \<noteq> []" and "\<not> isspace (hd v)" and "\<not> isspace (last v)"
    and "c = [] \<and> last v \<noteq> CHR 0x2C \<or> c = [CHR 0x2C]"
  shows "load_line (entry_line k v c) cfg =
    (let value = (if 2 \<le> length v \<and> hd v = quote \<and> last v = quote then butlast (tl v) else v)
     in if k = [] \<or> value = [] then Some cfg
         else if k = ''node_id'' then map_option (\<lambda>n. cfg\<lparr>nc_node_id := ucast n\<rparr>) (stoul value)
         else if k = ''node_name'' then Some (cfg\<lparr>nc_node_name := value\<rparr>)
         else if k = ''ip_address'' then Some (cfg\<lparr>nc_ip_address := value\<rparr>)
         else if k = ''num_compute_threads'' then
           map_option (\<lambda>n. cfg\<lparr>nc_num_compute_threads := ucast n\<rparr>) (stoul value)
         else if k = ''is_lock_manager'' then Some (cfg\<lparr>nc_is_lock_manager := (value = ''true'')\<rparr>)
         else Some cfg)"
proof -
  have "v @ c \<noteq> []" "\<not> isspace (last (v @ c))" using assms(3-6) by (auto simp: isspace_def)
  note t = entry_line_trim [OF this, of k]
  have "quote # k @ quote # CHR 0x3A # blank # v @ c \<noteq> ''{''" "quote # k @ quote # CHR 0x3A # blank # v @ c \<noteq> ''}''"
    by simp_all
  then show ?thesis
    unfolding load_line_def Let_def t entry_line_key [OF assms(1)] entry_line_value [OF assms(2-6)] by simp
qed

lemma is_digit_not_special: "is_digit c \<Longrightarrow> \<not> isspace c \<and> c \<noteq> quote \<and> c \<noteq> CHR 0x2D \<and> c \<noteq> CHR 0x2B \<and> c \<noteq> newline"
  by (auto simp: is_digit_def isspace_def)

lemma show_nat_parts:
  "show_nat n \<noteq> []" "is_digit (hd (show_nat n))" "is_digit (last (show_nat n))" "newline \<notin> set (show_nat n)"
  using show_nat_digits [of n] is_digit_not_special by (auto simp: list_all_iff)

lemma stoul_show_nat:
  assumes "n < 18446744073709551616"
  shows "stoul (show_nat n) = Some (of_nat n)"
proof -
  have h: "\<not> isspace (hd (show_nat n))" "hd (show_nat n) \<noteq> CHR 0x2D" "hd (show_nat n) \<noteq> CHR 0x2B"
    using show_nat_parts [of n] is_digit_not_special [of "hd (show_nat n)"] by auto
  have d: "dropWhile isspace (show_nat n) = show_nat n"
    using h(1) show_nat_parts(1) [of n] by (cases "show_nat n") simp_all
  have t: "takeWhile is_digit (show_nat n) = show_nat n"
    using show_nat_digits [of n] by (simp add: takeWhile_eq_all_conv list_all_iff)
  show ?thesis
    using h show_nat_digits [of n] assms by (simp add: stoul_def d t Let_def)
qed

lemma load_number:
  assumes "quote \<notin> set k" and "CHR 0x3A \<notin> set k" and "k = ''node_id'' \<or> k = ''num_compute_threads''"
  shows "load_line (entry_line k (show_nat (unat (x :: u32))) '','') cfg =
     Some (if k = ''node_id'' then cfg\<lparr>nc_node_id := x\<rparr> else cfg\<lparr>nc_num_compute_threads := x\<rparr>)"
proof -
  have p: "show_nat (unat x) \<noteq> []" "\<not> isspace (hd (show_nat (unat x)))" "\<not> isspace (last (show_nat (unat x)))"
      "hd (show_nat (unat x)) \<noteq> quote"
    using show_nat_parts [of "unat x"] is_digit_not_special by blast+
  have s: "stoul (show_nat (unat x)) = Some (of_nat (unat x))"
    using unat_u32_bound [of x] by (intro stoul_show_nat) simp
  have u: "(ucast (of_nat (unat x) :: u64) :: u32) = x"
  proof -
    have "unat (ucast (ucast x :: u64) :: u32) = unat x"
      using unat_u32_bound [of x] by (subst unsigned_ucast_eq) (simp add: take_bit_nat_eq_self)
    then show ?thesis by (simp add: word_unat_eq_iff)
  qed
  show ?thesis
    using load_entry [OF assms(1,2) p(1-3), of "'',''" cfg] p(1,4) s u assms(3) by (auto simp: Let_def)
qed

lemma load_string:
  assumes "quote \<notin> set k" and "CHR 0x3A \<notin> set k" and "k = ''node_name'' \<or> k = ''ip_address''"
  shows "load_line (entry_line k (quote # s @ [quote]) '','') cfg =
     Some (if s = [] then cfg
           else if k = ''node_name'' then cfg\<lparr>nc_node_name := s\<rparr> else cfg\<lparr>nc_ip_address := s\<rparr>)"
  using load_entry [OF assms(1,2), of "quote # s @ [quote]" "'',''" cfg] assms(3)
  by (auto simp: Let_def isspace_def)

section \<open>Properties\<close>

text \<open>
  C35. Reading a configuration file back: for every configuration with a legal node id and names
  without line breaks, the file in the documented format loads with \<open>SUCCESS\<close> and gives exactly that
  configuration, whatever the registry held before.
\<close>

theorem load_printed_config:
  assumes "nc_node_id cfg \<noteq> INVALID_NODE_ID" and "newline \<notin> set (nc_node_name cfg)"
    and "newline \<notin> set (nc_ip_address cfg)" and "path \<noteq> []" and "files path = Some (print_config cfg)"
  shows "load_local_config files path reg = (SUCCESS, \<lparr>local_config = cfg, has_local_config = True\<rparr>)"
proof -
  have lines: "getlines (print_config cfg) = config_lines cfg"
    unfolding print_config_def
    using assms(2,3) show_nat_parts(4) by (intro getlines_print) (auto simp: config_lines_def entry_line_def)
  have brace: "load_line ''{'' c = Some c" "load_line ''}'' c = Some c" for c
    by (simp_all add: load_line_def trim_def isspace_def Let_def)
  have manager: "load_line (entry_line ''is_lock_manager'' (if b then ''true'' else ''false'') []) c =
      Some (c\<lparr>nc_is_lock_manager := b\<rparr>)" for b c
    by (cases b) (simp_all add: load_entry isspace_def Let_def)
  have "load_lines (config_lines cfg) (zero_config\<lparr>nc_node_id := INVALID_NODE_ID\<rparr>) = (True, cfg)"
    by (simp add: config_lines_def brace load_number load_string manager zero_config_def)
  then show ?thesis
    using assms(1,4,5) lines by (simp add: load_local_config_def)
qed

definition demo_config :: NodeConfig where
  "demo_config = \<lparr>nc_node_id = 3, nc_node_name = ''node3'', nc_ip_address = ''10.0.0.3'',
     nc_num_compute_threads = 4, nc_is_lock_manager = True\<rparr>"

theorem load_printed_config_witness:
  "load_local_config (\<lambda>_. Some (print_config demo_config)) ''node.json'' new_registry =
     (SUCCESS, \<lparr>local_config = demo_config, has_local_config = True\<rparr>)"
proof -
  have "nc_node_id demo_config \<noteq> INVALID_NODE_ID" "newline \<notin> set (nc_node_name demo_config)"
    "newline \<notin> set (nc_ip_address demo_config)"
    by (simp_all add: demo_config_def INVALID_NODE_ID_def)
  from load_printed_config [OF this] show ?thesis by simp
qed

end
