(* ===== verification/Node_Registry.thy ===== *)
theory Node_Registry
  imports Node_Config Shared_Memory
begin

unbundle bit_operations_syntax

text \<open>
  The registry of nodes in shared memory (\<open>include/node_registry.h\<close>, \<open>src/node_registry.cpp\<close>):
  the layout of \<open>NodeGlobalInfo\<close> as bytes, registration, heartbeats, and the queries. The shared
  memory is a map from offsets to bytes here, because the entries are copied with \<open>memcpy\<close>. A
  read or write that leaves the mapping is a fault, \<open>None\<close>. Flushes and fences, which all
  operations issue after a write and before a read, do not change the state. \<open>now\<close> is what the
  monotonic clock shows.
\<close>

section \<open>Bytes\<close>

type_synonym byte = "8 word"
type_synonym bytes = "u64 \<Rightarrow> byte"

text \<open>The little-endian bytes of an integer, and the integer they stand for.\<close>

fun bytes_le :: "nat \<Rightarrow> 'a :: len word \<Rightarrow> byte list" where
  "bytes_le 0 w = []"
| "bytes_le (Suc k) w = ucast w # bytes_le k (drop_bit 8 w)"

fun word_le :: "byte list \<Rightarrow> 'a :: len word" where
  "word_le [] = 0"
| "word_le (b # bs) = ucast b OR push_bit 8 (word_le bs)"

definition write_bytes :: "u64 \<Rightarrow> byte list \<Rightarrow> bytes \<Rightarrow> bytes" where
  "write_bytes off bs m = (\<lambda>x. if unat (x - off) < length bs then bs ! unat (x - off) else m x)"

definition read_bytes :: "u64 \<Rightarrow> nat \<Rightarrow> bytes \<Rightarrow> byte list" where
  "read_bytes off n m = map (\<lambda>i. m (off + of_nat i)) [0..<n]"

lemma bytes_le_length [simp]: "length (bytes_le k w) = k"
  by (induction k arbitrary: w) simp_all

lemma word_le_bytes_le: "word_le (bytes_le k w) = take_bit (8 * k) w"
proof (induction k arbitrary: w)
  case 0
  then show ?case by simp
next
  case (Suc k)
  show ?case
    by (simp add: Suc.IH, rule bit_word_eqI)
       (auto simp: bit_simps le_add_diff_inverse not_less dest: bit_imp_le_length)
qed

lemma word_le_u32 [simp]: "word_le (bytes_le 4 (w :: u32)) = w"
  by (simp add: word_le_bytes_le take_bit_word_eq_self)

lemma word_le_u64 [simp]: "word_le (bytes_le 8 (w :: u64)) = w"
  by (simp add: word_le_bytes_le take_bit_word_eq_self)

lemma read_write_same:
  assumes "off' = off + of_nat i" and "i + n \<le> length bs" and "length bs \<le> 160"
  shows "read_bytes off' n (write_bytes off bs m) = take n (drop i bs)"
proof (rule nth_equalityI)
  show "length (read_bytes off' n (write_bytes off bs m)) = length (take n (drop i bs))"
    using assms(2) by (simp add: read_bytes_def)
  fix j assume "j < length (read_bytes off' n (write_bytes off bs m))"
  then have j: "j < n" by (simp add: read_bytes_def)
  have "unat (off' + of_nat j - off) = i + j"
    using assms j by (simp add: unat_of_nat take_bit_nat_eq_self flip: of_nat_add)
  then show "read_bytes off' n (write_bytes off bs m) ! j = take n (drop i bs) ! j"
    using assms(2) j by (simp add: read_bytes_def write_bytes_def)
qed


section \<open>Entries\<close>

record NodeGlobalInfo =
  info_node_id :: NodeId
  info_node_name :: "byte list"
  info_ip_address :: "byte list"
  info_num_compute_threads :: u32
  info_is_active :: bool
  info_registration_time :: u64
  info_last_heartbeat :: u64

text \<open>
  The layout on a 64-bit machine: \<open>node_id\<close> at 0, the two arrays at 4 and 68,
  \<open>num_compute_threads\<close> at 132, \<open>is_active\<close> at 136, seven bytes of padding, the times at 144 and
  152; 160 bytes.
\<close>

abbreviation (input) "info_size \<equiv> (160 :: nat)"
abbreviation (input) "active_offset \<equiv> (136 :: u64)"
abbreviation (input) "heartbeat_offset \<equiv> (152 :: u64)"

definition encode_info :: "NodeGlobalInfo \<Rightarrow> byte list" where
  "encode_info info =
     bytes_le 4 (info_node_id info) @ info_node_name info @ info_ip_address info @
     bytes_le 4 (info_num_compute_threads info) @
     [if info_is_active info then 1 else 0] @ replicate 7 0 @
     bytes_le 8 (info_registration_time info) @ bytes_le 8 (info_last_heartbeat info)"

definition decode_info :: "byte list \<Rightarrow> NodeGlobalInfo" where
  "decode_info bs =
     \<lparr>info_node_id = word_le (take 4 bs),
      info_node_name = take 64 (drop 4 bs),
      info_ip_address = take 64 (drop 68 bs),
      info_num_compute_threads = word_le (take 4 (drop 132 bs)),
      info_is_active = (bs ! 136 \<noteq> 0),
      info_registration_time = word_le (take 8 (drop 144 bs)),
      info_last_heartbeat = word_le (take 8 (drop 152 bs))\<rparr>"

definition info_ok :: "NodeGlobalInfo \<Rightarrow> bool" where
  "info_ok info \<longleftrightarrow> length (info_node_name info) = 64 \<and> length (info_ip_address info) = 64"

lemma encode_info_length: "info_ok info \<Longrightarrow> length (encode_info info) = 160"
  by (simp add: encode_info_def info_ok_def)

lemma decode_encode: "info_ok info \<Longrightarrow> decode_info (encode_info info) = info"
  by (simp add: decode_info_def encode_info_def info_ok_def nth_append)

text \<open>
  \<open>strncpy\<close> of a \<open>std::string\<close> into a 64-byte array, with the last byte set to 0: the string up
  to its first zero byte, at most 63 bytes, padded with zeros.
\<close>

definition copy_name :: "string \<Rightarrow> byte list" where
  "copy_name s =
     (let c = take 63 (map of_char (takeWhile (\<lambda>c. c \<noteq> CHR 0x00) s))
      in c @ replicate (64 - length c) 0)"

lemma copy_name_length [simp]: "length (copy_name s) = 64"
  by (simp add: copy_name_def Let_def)

definition slot_offset :: "ShmOffset \<Rightarrow> NodeId \<Rightarrow> ShmOffset" where
  "slot_offset registry_offset node_id = registry_offset + ucast node_id * 160"

text \<open>Whether \<open>n\<close> bytes at an offset lie in the mapping.\<close>

definition mapped :: "SharedMemoryRegion \<Rightarrow> u64 \<Rightarrow> nat \<Rightarrow> bool" where
  "mapped sh off n \<longleftrightarrow> unat off + n \<le> unat (shm_size sh)"

section \<open>Operations on the own entry\<close>

text \<open>The checks and the address that registration, unregistration and heartbeats begin with.\<close>

definition own_slot ::
  "SharedMemoryRegion option \<Rightarrow> ShmOffset \<Rightarrow> NodeRegistry \<Rightarrow> LockResult + ShmOffset"
where
  "own_slot shm registry_offset reg =
     (case shm of
        None \<Rightarrow> Inl ERROR_INVALID_PARAM
      | Some sh \<Rightarrow>
          if \<not> is_valid sh then Inl ERROR_INVALID_PARAM
          else if \<not> has_local_config reg then Inl ERROR_INVALID_PARAM
          else if nc_node_id (local_config reg) \<ge> MAX_NODE_COUNT then Inl ERROR_INVALID_PARAM
          else
            let node_offset = slot_offset registry_offset (nc_node_id (local_config reg))
            in case offset_to_ptr sh node_offset of
                 None \<Rightarrow> Inl ERROR_SHM_FAILURE
               | Some _ \<Rightarrow> Inr node_offset)"

definition store ::
  "SharedMemoryRegion option \<Rightarrow> u64 \<Rightarrow> byte list \<Rightarrow> bytes \<Rightarrow> (LockResult \<times> bytes) option"
where
  "store shm off bs m =
     (case shm of
        None \<Rightarrow> None
      | Some sh \<Rightarrow> if mapped sh off (length bs) then Some (SUCCESS, write_bytes off bs m) else None)"

definition new_info :: "u64 \<Rightarrow> NodeConfig \<Rightarrow> NodeGlobalInfo" where
  "new_info now cfg =
     \<lparr>info_node_id = nc_node_id cfg, info_node_name = copy_name (nc_node_name cfg),
      info_ip_address = copy_name (nc_ip_address cfg),
      info_num_compute_threads = nc_num_compute_threads cfg, info_is_active = True,
      info_registration_time = now, info_last_heartbeat = now\<rparr>"

definition register_in_shared_memory ::
  "u64 \<Rightarrow> SharedMemoryRegion option \<Rightarrow> ShmOffset \<Rightarrow> NodeRegistry \<Rightarrow> bytes \<Rightarrow> (LockResult \<times> bytes) option"
where
  "register_in_shared_memory now shm registry_offset reg m =
     (case own_slot shm registry_offset reg of
        Inl rc \<Rightarrow> Some (rc, m)
      | Inr off \<Rightarrow> store shm off (encode_info (new_info now (local_config reg))) m)"

definition unregister ::
  "SharedMemoryRegion option \<Rightarrow> ShmOffset \<Rightarrow> NodeRegistry \<Rightarrow> bytes \<Rightarrow> (LockResult \<times> bytes) option"
where
  "unregister shm registry_offset reg m =
     (case own_slot shm registry_offset reg of
        Inl rc \<Rightarrow> Some (rc, m)
      | Inr off \<Rightarrow> store shm (off + active_offset) [0] m)"

definition update_heartbeat ::
  "u64 \<Rightarrow> SharedMemoryRegion option \<Rightarrow> ShmOffset \<Rightarrow> NodeRegistry \<Rightarrow> bytes \<Rightarrow> (LockResult \<times> bytes) option"
where
  "update_heartbeat now shm registry_offset reg m =
     (case own_slot shm registry_offset reg of
        Inl rc \<Rightarrow> Some (rc, m)
      | Inr off \<Rightarrow> store shm (off + heartbeat_offset) (bytes_le 8 now) m)"

section \<open>Queries\<close>

text \<open>\<open>want_info\<close>: the output parameter is not null. The second component is what it receives.\<close>

definition get_node_info ::
  "SharedMemoryRegion option \<Rightarrow> ShmOffset \<Rightarrow> NodeId \<Rightarrow> bool \<Rightarrow> bytes \<Rightarrow>
   (LockResult \<times> NodeGlobalInfo option) option"
where
  "get_node_info shm registry_offset node_id want_info m =
     (case shm of
        None \<Rightarrow> Some (ERROR_INVALID_PARAM, None)
      | Some sh \<Rightarrow>
          if \<not> is_valid sh \<or> \<not> want_info then Some (ERROR_INVALID_PARAM, None)
          else if node_id \<ge> MAX_NODE_COUNT then Some (ERROR_INVALID_PARAM, None)
          else
            let node_offset = slot_offset registry_offset node_id
            in case offset_to_ptr sh node_offset of
                 None \<Rightarrow> Some (ERROR_SHM_FAILURE, None)
               | Some _ \<Rightarrow>
                   if mapped sh node_offset 160
                   then Some (SUCCESS, Some (decode_info (read_bytes node_offset 160 m)))
                   else None)"

fun count_active ::
  "SharedMemoryRegion \<Rightarrow> ShmOffset \<Rightarrow> bytes \<Rightarrow> NodeId list \<Rightarrow> u32 \<Rightarrow> u32 option"
where
  "count_active sh registry_offset m [] count = Some count"
| "count_active sh registry_offset m (i # is) count =
     (let node_offset = slot_offset registry_offset i
      in case offset_to_ptr sh node_offset of
           None \<Rightarrow> count_active sh registry_offset m is count
         | Some _ \<Rightarrow>
             if \<not> mapped sh (node_offset + active_offset) 1 then None
             else if m (node_offset + active_offset) \<noteq> 0
             then count_active sh registry_offset m is (count + 1)
             else count_active sh registry_offset m is count)"

definition get_active_node_count ::
  "SharedMemoryRegion option \<Rightarrow> ShmOffset \<Rightarrow> u32 \<Rightarrow> bytes \<Rightarrow> u32 option"
where
  "get_active_node_count shm registry_offset max_nodes m =
     (case shm of
        None \<Rightarrow> Some 0
      | Some sh \<Rightarrow>
          if \<not> is_valid sh then Some 0
          else
            let limit = (if max_nodes > MAX_NODE_COUNT then MAX_NODE_COUNT else max_nodes)
            in count_active sh registry_offset m (u32_upto limit) 0)"

fun collect_active ::
  "SharedMemoryRegion \<Rightarrow> ShmOffset \<Rightarrow> bytes \<Rightarrow> NodeId list \<Rightarrow> NodeGlobalInfo list \<Rightarrow>
   NodeGlobalInfo list option"
where
  "collect_active sh registry_offset m [] result = Some result"
| "collect_active sh registry_offset m (i # is) result =
     (let node_offset = slot_offset registry_offset i
      in case offset_to_ptr sh node_offset of
           None \<Rightarrow> collect_active sh registry_offset m is result
         | Some _ \<Rightarrow>
             if \<not> mapped sh node_offset 160 then None
             else
               let info = decode_info (read_bytes node_offset 160 m)
               in if info_is_active info then collect_active sh registry_offset m is (result @ [info])
                  else collect_active sh registry_offset m is result)"

definition discover_nodes ::
  "SharedMemoryRegion option \<Rightarrow> ShmOffset \<Rightarrow> u32 \<Rightarrow> bytes \<Rightarrow> NodeGlobalInfo list option"
where
  "discover_nodes shm registry_offset max_nodes m =
     (case shm of
        None \<Rightarrow> Some []
      | Some sh \<Rightarrow>
          if \<not> is_valid sh then Some []
          else
            let limit = (if max_nodes > MAX_NODE_COUNT then MAX_NODE_COUNT else max_nodes)
            in collect_active sh registry_offset m (u32_upto limit) [])"

definition is_node_alive ::
  "u64 \<Rightarrow> SharedMemoryRegion option \<Rightarrow> ShmOffset \<Rightarrow> NodeId \<Rightarrow> u64 \<Rightarrow> bytes \<Rightarrow> bool option"
where
  "is_node_alive now shm registry_offset node_id timeout_ms m =
     (if (case shm of None \<Rightarrow> True | Some sh \<Rightarrow> \<not> is_valid sh) then Some False
      else if node_id \<ge> MAX_NODE_COUNT then Some False
      else if timeout_ms = 0 then Some False
      else case get_node_info shm registry_offset node_id True m of
        None \<Rightarrow> None
      | Some (rc, info) \<Rightarrow>
          Some (case info of
              None \<Rightarrow> False
            | Some info \<Rightarrow>
                if rc \<noteq> SUCCESS then False
                else if \<not> info_is_active info then False
                else if info_last_heartbeat info = 0 then False
                else
                  let timeout_ns = timeout_ms * 1000000
                  in if now < info_last_heartbeat info then True
                     else now - info_last_heartbeat info < timeout_ns))"

section \<open>Reading what was written\<close>

lemma nth_read_bytes [simp]: "i < n \<Longrightarrow> read_bytes off n m ! i = m (off + of_nat i)"
  by (simp add: read_bytes_def)

lemma length_read_bytes [simp]: "length (read_bytes off n m) = n"
  by (simp add: read_bytes_def)

lemma read_write_all:
  "length bs = n \<Longrightarrow> n \<le> 160 \<Longrightarrow> read_bytes off n (write_bytes off bs m) = bs"
  using read_write_same [of off off 0 n bs m] by simp

text \<open>A write of \<open>bs\<close> at \<open>k\<close> inside a block replaces that part of the block.\<close>

lemma read_write_part:
  assumes "k + length bs \<le> n" and "n \<le> 160"
  shows "read_bytes off n (write_bytes (off + of_nat k) bs m) =
    take k (read_bytes off n m) @ bs @ drop (k + length bs) (read_bytes off n m)" (is "?l = ?r")
proof (rule nth_equalityI)
  show "length ?l = length ?r"
    using assms by simp
  fix i assume "i < length ?l"
  then have i: "i < n" by simp
  have u: "unat (of_nat i :: u64) = i" "unat (of_nat k :: u64) = k"
    using i assms by (simp_all add: unat_of_nat take_bit_nat_eq_self)
  have at: "unat (of_nat i - of_nat k :: u64) = i - k" if "k \<le> i"
    using that u by (simp add: unat_sub_if')
  have before: "160 \<le> unat (of_nat i - of_nat k :: u64)" if "i < k"
    using that u i assms by (simp add: unat_sub_if')
  show "?l ! i = ?r ! i"
  proof (cases "i < k")
    case True
    then show ?thesis
      using i before assms by (simp add: write_bytes_def nth_append)
  next
    case False
    then show ?thesis
      using i at assms by (simp add: write_bytes_def nth_append)
  qed
qed

text \<open>A write inside one entry leaves the other entries alone.\<close>

lemma slot_offset_nat: "slot_offset off i + of_nat k = off + of_nat (unat i * 160 + k)"
  by (simp add: slot_offset_def)

lemma read_write_other:
  assumes "a < MAX_NODE_COUNT" and "b < MAX_NODE_COUNT" and "a \<noteq> b" and "k + length bs \<le> 160"
  shows "read_bytes (slot_offset off b) 160 (write_bytes (slot_offset off a + of_nat k) bs m) =
    read_bytes (slot_offset off b) 160 m"
proof (rule nth_equalityI)
  fix i assume "i < length (read_bytes (slot_offset off b) 160 (write_bytes (slot_offset off a + of_nat k) bs m))"
  then have i: "i < 160" by simp
  have lt: "unat a < 64" "unat b < 64" "unat a \<noteq> unat b"
    using assms(1,2,3) by (simp_all add: u32_less_unat MAX_NODE_COUNT_def word_unat_eq_iff)
  define A B where "A = unat a * 160 + k" and "B = unat b * 160 + i"
  have AB: "A < 10400" "B < 10400" "A + length bs \<le> B \<or> B < A"
    using lt i assms(4) by (auto simp: A_def B_def)
  have u: "unat (of_nat A :: u64) = A" "unat (of_nat B :: u64) = B"
    using AB by (simp_all add: unat_of_nat take_bit_nat_eq_self)
  have "slot_offset off b + of_nat i - (slot_offset off a + of_nat k) = (of_nat B - of_nat A :: u64)"
    unfolding slot_offset_nat A_def B_def by simp
  moreover have "length bs \<le> unat (of_nat B - of_nat A :: u64)"
    using AB u assms(4) by (auto simp: unat_sub_if')
  ultimately show "read_bytes (slot_offset off b) 160 (write_bytes (slot_offset off a + of_nat k) bs m) ! i =
      read_bytes (slot_offset off b) 160 m ! i"
    using i by (simp add: write_bytes_def)
qed simp

text \<open>The cases in which an operation on the own entry succeeds.\<close>

lemma own_slot_InrD:
  "own_slot shm off reg = Inr p \<Longrightarrow>
   \<exists>sh. shm = Some sh \<and> is_valid sh \<and> has_local_config reg \<and>
     nc_node_id (local_config reg) < MAX_NODE_COUNT \<and> offset_to_ptr sh p \<noteq> None \<and>
     p = slot_offset off (nc_node_id (local_config reg))"
  by (auto simp: own_slot_def Let_def not_le split: option.splits if_splits)

lemma own_slot_Inl: "own_slot shm off reg = Inl rc \<Longrightarrow> rc \<noteq> SUCCESS"
  by (auto simp: own_slot_def Let_def split: option.splits if_splits)

lemma store_SuccessD:
  "store (Some sh) p bs m = Some (rc, m') \<Longrightarrow> mapped sh p (length bs) \<and> rc = SUCCESS \<and> m' = write_bytes p bs m"
  by (auto simp: store_def split: if_splits)

text \<open>A query of an entry that lies in the mapping.\<close>

lemma get_node_info_mapped:
  assumes "is_valid sh" and "nid < MAX_NODE_COUNT" and "offset_to_ptr sh (slot_offset off nid) \<noteq> None"
    and "mapped sh (slot_offset off nid) 160"
  shows "get_node_info (Some sh) off nid True m =
    Some (SUCCESS, Some (decode_info (read_bytes (slot_offset off nid) 160 m)))"
  using assms by (auto simp: get_node_info_def Let_def not_le)

lemma get_node_info_SuccessD:
  "get_node_info shm off nid want m = Some (SUCCESS, info) \<Longrightarrow>
   \<exists>sh. shm = Some sh \<and> is_valid sh \<and> want \<and> nid < MAX_NODE_COUNT \<and>
     offset_to_ptr sh (slot_offset off nid) \<noteq> None \<and> mapped sh (slot_offset off nid) 160 \<and>
     info = Some (decode_info (read_bytes (slot_offset off nid) 160 m))"
  by (auto simp: get_node_info_def Let_def not_le split: option.splits if_splits)

text \<open>What a query answers depends on its own entry only.\<close>

lemma get_node_info_cong:
  "read_bytes (slot_offset off nid) 160 m' = read_bytes (slot_offset off nid) 160 m \<Longrightarrow>
   get_node_info shm off nid want m' = get_node_info shm off nid want m"
  by (simp add: get_node_info_def Let_def split: option.split)

lemma get_node_info_other:
  assumes "a < MAX_NODE_COUNT" and "nid \<noteq> a" and "k + length bs \<le> 160"
  shows "get_node_info shm off nid want (write_bytes (slot_offset off a + of_nat k) bs m) =
    get_node_info shm off nid want m"
proof (cases "nid < MAX_NODE_COUNT")
  case True
  show ?thesis
    by (rule get_node_info_cong, rule read_write_other)
       (use assms True in simp_all)
next
  case False
  then show ?thesis by (auto simp: get_node_info_def Let_def not_le split: option.split)
qed

section \<open>Registration\<close>

lemma new_info_ok: "info_ok (new_info now cfg)"
  by (simp add: info_ok_def new_info_def)

text \<open>
  A store of \<open>bs\<close> at \<open>k\<close> inside the own entry: the query of the entry reads the block with that
  part replaced, and the queries of the other entries answer as before.
\<close>

lemma store_own:
  assumes "own_slot shm off reg = Inr p" and "store shm (p + of_nat k) bs m = Some (SUCCESS, m')"
    and "k + length bs \<le> 160"
  shows "(\<forall>sh. shm = Some sh \<longrightarrow> mapped sh p 160 \<longrightarrow>
      (\<exists>old. get_node_info shm off (nc_node_id (local_config reg)) True m = Some (SUCCESS, Some (decode_info old)) \<and>
        length old = 160 \<and>
        get_node_info shm off (nc_node_id (local_config reg)) True m' =
          Some (SUCCESS, Some (decode_info (take k old @ bs @ drop (k + length bs) old))))) \<and>
    (\<forall>nid want. nid \<noteq> nc_node_id (local_config reg) \<longrightarrow>
      get_node_info shm off nid want m' = get_node_info shm off nid want m)"
proof -
  obtain sh where sh: "shm = Some sh" "is_valid sh" "nc_node_id (local_config reg) < MAX_NODE_COUNT"
    "offset_to_ptr sh (slot_offset off (nc_node_id (local_config reg))) \<noteq> None"
    and p: "p = slot_offset off (nc_node_id (local_config reg))"
    using own_slot_InrD [OF assms(1)] by blast
  have m': "m' = write_bytes (p + of_nat k) bs m"
    using store_SuccessD assms(2) sh(1) by blast
  have "get_node_info shm off nid want m' = get_node_info shm off nid want m"
    if "nid \<noteq> nc_node_id (local_config reg)" for nid want
    unfolding m' p by (rule get_node_info_other [OF sh(3) that assms(3)])
  moreover have "get_node_info shm off (nc_node_id (local_config reg)) True m2 =
      Some (SUCCESS, Some (decode_info (read_bytes p 160 m2)))" if "mapped sh p 160" for m2
    using get_node_info_mapped sh that unfolding p by blast
  ultimately show ?thesis
    unfolding m' using read_write_part [OF assms(3), of p m] sh(1) by auto
qed

lemma decode_heartbeat:
  "length old = 160 \<Longrightarrow>
   decode_info (take 152 old @ bytes_le 8 t @ drop 160 old) = (decode_info old)\<lparr>info_last_heartbeat := t\<rparr>"
  by (simp add: decode_info_def nth_append drop_take min_def)

lemma decode_inactive:
  "length old = 160 \<Longrightarrow>
   decode_info (take 136 old @ [0] @ drop 137 old) = (decode_info old)\<lparr>info_is_active := False\<rparr>"
  by (simp add: decode_info_def nth_append drop_take min_def)

text \<open>The three operations, in terms of the query of the own entry and of the others.\<close>

lemma register_own:
  assumes "register_in_shared_memory now shm off reg m = Some (SUCCESS, m')"
  shows "get_node_info shm off (nc_node_id (local_config reg)) True m' =
      Some (SUCCESS, Some (new_info now (local_config reg))) \<and>
    (\<forall>nid want. nid \<noteq> nc_node_id (local_config reg) \<longrightarrow>
      get_node_info shm off nid want m' = get_node_info shm off nid want m)"
proof -
  let ?bs = "encode_info (new_info now (local_config reg))"
  have len: "length ?bs = 160" by (rule encode_info_length [OF new_info_ok])
  obtain p where p: "own_slot shm off reg = Inr p" "store shm p ?bs m = Some (SUCCESS, m')"
    using assms own_slot_Inl by (fastforce simp: register_in_shared_memory_def split: sum.splits)
  then have "store shm (p + of_nat 0) ?bs m = Some (SUCCESS, m')" by simp
  note own = store_own [OF p(1) this]
  obtain sh where "shm = Some sh" using own_slot_InrD [OF p(1)] by blast
  moreover have "mapped sh p 160" using store_SuccessD p(2) len calculation by metis
  ultimately show ?thesis
    using own len by (auto simp: decode_encode [OF new_info_ok])
qed

lemma store_field:
  assumes "own_slot shm off reg = Inr p" and "store shm (p + of_nat k) bs m = Some (SUCCESS, m')"
    and "k + length bs \<le> 160"
    and "get_node_info shm off (nc_node_id (local_config reg)) True m = Some (SUCCESS, Some info)"
    and "\<And>old. length old = 160 \<Longrightarrow> decode_info (take k old @ bs @ drop (k + length bs) old) = f (decode_info old)"
  shows "get_node_info shm off (nc_node_id (local_config reg)) True m' = Some (SUCCESS, Some (f info)) \<and>
    (\<forall>nid want. nid \<noteq> nc_node_id (local_config reg) \<longrightarrow>
      get_node_info shm off nid want m' = get_node_info shm off nid want m)"
proof -
  obtain sh where "shm = Some sh" "mapped sh (slot_offset off (nc_node_id (local_config reg))) 160"
    using get_node_info_SuccessD [OF assms(4)] by blast
  moreover have "p = slot_offset off (nc_node_id (local_config reg))"
    using own_slot_InrD [OF assms(1)] by blast
  ultimately show ?thesis
    using store_own [OF assms(1,2,3)] assms(4,5) by auto
qed

lemma heartbeat_own:
  assumes "update_heartbeat t shm off reg m = Some (SUCCESS, m')"
    and "get_node_info shm off (nc_node_id (local_config reg)) True m = Some (SUCCESS, Some info)"
  shows "get_node_info shm off (nc_node_id (local_config reg)) True m' =
      Some (SUCCESS, Some (info\<lparr>info_last_heartbeat := t\<rparr>)) \<and>
    (\<forall>nid want. nid \<noteq> nc_node_id (local_config reg) \<longrightarrow>
      get_node_info shm off nid want m' = get_node_info shm off nid want m)"
proof -
  obtain p where "own_slot shm off reg = Inr p" "store shm (p + of_nat 152) (bytes_le 8 t) m = Some (SUCCESS, m')"
    using assms(1) own_slot_Inl by (fastforce simp: update_heartbeat_def split: sum.splits)
  then show ?thesis
    by (rule store_field [OF _ _ _ assms(2)]) (use decode_heartbeat in simp_all)
qed

lemma unregister_own:
  assumes "unregister shm off reg m = Some (SUCCESS, m')"
    and "get_node_info shm off (nc_node_id (local_config reg)) True m = Some (SUCCESS, Some info)"
  shows "get_node_info shm off (nc_node_id (local_config reg)) True m' =
      Some (SUCCESS, Some (info\<lparr>info_is_active := False\<rparr>)) \<and>
    (\<forall>nid want. nid \<noteq> nc_node_id (local_config reg) \<longrightarrow>
      get_node_info shm off nid want m' = get_node_info shm off nid want m)"
proof -
  obtain p where "own_slot shm off reg = Inr p" "store shm (p + of_nat 136) [0] m = Some (SUCCESS, m')"
    using assms(1) own_slot_Inl by (fastforce simp: unregister_def split: sum.splits)
  then show ?thesis
    by (rule store_field [OF _ _ _ assms(2)]) (use decode_inactive in simp_all)
qed

text \<open>
  C22. After a node has registered, sent a heartbeat and unregistered, every node that queries its
  entry with \<open>get_node_info\<close> reads exactly what these operations say: the configuration with both times set, then the
  new heartbeat, then the inactive flag with the heartbeat kept. No operation changes what a query
  of another node's entry answers.
\<close>

theorem registry_lifecycle:
  assumes "register_in_shared_memory t0 shm off reg m = Some (SUCCESS, m1)"
    and "update_heartbeat t1 shm off reg m1 = Some (SUCCESS, m2)"
    and "unregister shm off reg m2 = Some (SUCCESS, m3)"
    and "other \<noteq> nc_node_id (local_config reg)"
  shows "get_node_info shm off (nc_node_id (local_config reg)) True m1 =
      Some (SUCCESS, Some (new_info t0 (local_config reg))) \<and>
    get_node_info shm off (nc_node_id (local_config reg)) True m2 =
      Some (SUCCESS, Some ((new_info t0 (local_config reg))\<lparr>info_last_heartbeat := t1\<rparr>)) \<and>
    get_node_info shm off (nc_node_id (local_config reg)) True m3 =
      Some (SUCCESS, Some ((new_info t0 (local_config reg))
        \<lparr>info_last_heartbeat := t1, info_is_active := False\<rparr>)) \<and>
    get_node_info shm off other True m3 = get_node_info shm off other True m"
proof -
  note r = register_own [OF assms(1)]
  note h = heartbeat_own [OF assms(2) conjunct1 [OF r]]
  note u = unregister_own [OF assms(3) conjunct1 [OF h]]
  show ?thesis
    using r h u assms(4) by simp
qed

definition registry_region :: SharedMemoryRegion where
  "registry_region = new_region\<lparr>shm_base := 0x10000, shm_size := 4096, shm_valid := True\<rparr>"

definition registry_node :: NodeRegistry where
  "registry_node = \<lparr>local_config = demo_config, has_local_config = True\<rparr>"

lemmas registry_demo_simps =
  own_slot_def store_def registry_region_def registry_node_def demo_config_def new_region_def
  is_valid_def offset_to_ptr_def mapped_def slot_offset_def MAX_NODE_COUNT_def Let_def MAP_FAILED_def

lemma registry_demo:
  "\<exists>m1 m2 m3. register_in_shared_memory 5 (Some registry_region) 64 registry_node m = Some (SUCCESS, m1) \<and>
     update_heartbeat 7 (Some registry_region) 64 registry_node m1 = Some (SUCCESS, m2) \<and>
     unregister (Some registry_region) 64 registry_node m2 = Some (SUCCESS, m3)"
  by (simp add: register_in_shared_memory_def update_heartbeat_def unregister_def
      encode_info_length [OF new_info_ok] registry_demo_simps)

theorem registry_lifecycle_witness:
  "\<exists>m1 m2 m3.
     get_node_info (Some registry_region) 64 3 True m1 =
       Some (SUCCESS, Some (new_info 5 demo_config)) \<and>
     get_node_info (Some registry_region) 64 3 True m2 =
       Some (SUCCESS, Some ((new_info 5 demo_config)\<lparr>info_last_heartbeat := 7\<rparr>)) \<and>
     get_node_info (Some registry_region) 64 3 True m3 =
       Some (SUCCESS, Some ((new_info 5 demo_config)
         \<lparr>info_last_heartbeat := 7, info_is_active := False\<rparr>)) \<and>
     get_node_info (Some registry_region) 64 1 True m3 = get_node_info (Some registry_region) 64 1 True (\<lambda>_. 0)"
proof -
  have own: "local_config registry_node = demo_config" "nc_node_id demo_config = 3"
    by (simp_all add: registry_node_def demo_config_def)
  obtain m1 m2 m3 where "register_in_shared_memory 5 (Some registry_region) 64 registry_node (\<lambda>_. 0) = Some (SUCCESS, m1)"
    "update_heartbeat 7 (Some registry_region) 64 registry_node m1 = Some (SUCCESS, m2)"
    "unregister (Some registry_region) 64 registry_node m2 = Some (SUCCESS, m3)"
    using registry_demo by blast
  from registry_lifecycle [OF this, of 1] show ?thesis
    unfolding own by simp blast
qed

section \<open>Queries\<close>

lemma mapped_active:
  "mapped sh p 160 \<Longrightarrow> mapped sh (p + active_offset) (Suc 0)"
proof -
  assume a: "mapped sh p 160"
  then have "unat p + 136 < 2 ^ LENGTH(64)"
    using unsigned_less [of "shm_size sh", where 'a = nat] by (simp add: mapped_def)
  then have "unat (p + active_offset) = unat p + 136"
    by (simp add: unat_add_lem [THEN iffD1])
  then show ?thesis using a by (simp add: mapped_def)
qed

text \<open>
  \<open>get_active_node_count\<close> and \<open>discover_nodes\<close> agree: when the discovery does not run off the
  mapping, the count does not either, and it is the length of the discovered list; each entry of
  the list is active.
\<close>

lemma collect_count:
  "collect_active sh off m is ns = Some ns' \<Longrightarrow>
   \<exists>new. ns' = ns @ new \<and> length new \<le> length is \<and> list_all info_is_active new \<and>
     count_active sh off m is c = Some (c + of_nat (length new))"
proof (induction "is" arbitrary: ns c)
  case Nil
  then show ?case by simp
next
  case (Cons i "is")
  let ?p = "slot_offset off i"
  let ?info = "decode_info (read_bytes ?p 160 m)"
  consider (none) "offset_to_ptr sh ?p = None" "collect_active sh off m is ns = Some ns'"
    | (inactive) x where "offset_to_ptr sh ?p = Some x" "mapped sh ?p 160" "\<not> info_is_active ?info"
        "collect_active sh off m is ns = Some ns'"
    | (active) x where "offset_to_ptr sh ?p = Some x" "mapped sh ?p 160" "info_is_active ?info"
        "collect_active sh off m is (ns @ [?info]) = Some ns'"
    using Cons.prems by (auto simp: Let_def split: option.splits if_splits)
  then show ?case
  proof cases
    case none
    then show ?thesis using Cons.IH [OF none(2), of c] by auto
  next
    case inactive
    have "mapped sh (?p + active_offset) 1" "m (?p + active_offset) = 0"
      using inactive by (simp_all add: mapped_active decode_info_def)
    then show ?thesis using Cons.IH [OF inactive(4), of c] inactive by (auto simp: Let_def)
  next
    case active
    have "mapped sh (?p + active_offset) 1" "m (?p + active_offset) \<noteq> 0"
      using active by (simp_all add: mapped_active decode_info_def)
    then show ?thesis
      using Cons.IH [OF active(4), of "c + 1"] active
      by (auto simp: Let_def algebra_simps intro: exI [where x = "?info # _"])
  qed
qed

text \<open>
  \<open>get_active_node_count\<close> and \<open>discover_nodes\<close> agree: when the discovery does not run off the
  mapping, the count does not either, and it is the number of discovered nodes. There are at most
  \<open>max_nodes\<close> and at most \<open>MAX_NODE_COUNT\<close> of them, and all are active.
\<close>

theorem discovery_agrees_with_count:
  assumes "discover_nodes shm off max_nodes m = Some ns"
  shows "get_active_node_count shm off max_nodes m = Some (of_nat (length ns)) \<and>
    length ns \<le> unat (min max_nodes MAX_NODE_COUNT) \<and> list_all info_is_active ns"
proof (cases "\<exists>sh. shm = Some sh \<and> is_valid sh")
  case False
  then show ?thesis
    using assms by (auto simp: discover_nodes_def get_active_node_count_def split: option.splits if_splits)
next
  case True
  then obtain sh where sh: "shm = Some sh" "is_valid sh" by blast
  define limit where "limit = min max_nodes MAX_NODE_COUNT"
  have limit: "(if max_nodes > MAX_NODE_COUNT then MAX_NODE_COUNT else max_nodes) = limit"
    by (simp add: limit_def min_def not_le antisym)
  have "collect_active sh off m (u32_upto limit) [] = Some ns"
    using assms sh limit by (simp add: discover_nodes_def Let_def)
  from collect_count [OF this, of 0] show ?thesis
    using sh limit by (auto simp: get_active_node_count_def Let_def limit_def [symmetric])
qed

theorem discovery_agrees_with_count_witness:
  "get_active_node_count (Some registry_region) 64 2 (\<lambda>_. 1) = Some 2"
proof -
  have two: "u32_upto 2 = [0, 1]" by (simp add: u32_upto_def upt_rec)
  have "discover_nodes (Some registry_region) 64 2 (\<lambda>_. 1) =
      Some (map (\<lambda>i. decode_info (read_bytes (64 + i * 160) 160 (\<lambda>_. 1))) [0, 1])"
    by (simp add: discover_nodes_def two registry_demo_simps decode_info_def)
  from discovery_agrees_with_count [OF this] show ?thesis by simp
qed

text \<open>
  C39. \<open>is_node_alive\<close>, exactly: the entry is active, has a heartbeat, and the heartbeat is either
  ahead of the caller's clock or younger than the timeout in nanoseconds - which is the product
  modulo \<open>2 ^ 64\<close>: from about \<open>1.8 * 10 ^ 13\<close> milliseconds on, the product wraps around.
\<close>

theorem is_node_alive_iff:
  assumes "get_node_info shm off nid True m = Some (SUCCESS, Some info)"
  shows "is_node_alive now shm off nid timeout_ms m =
    Some (info_is_active info \<and> info_last_heartbeat info \<noteq> 0 \<and> timeout_ms \<noteq> 0 \<and>
      (unat now < unat (info_last_heartbeat info) \<or>
       unat now - unat (info_last_heartbeat info) < (unat timeout_ms * 1000000) mod 2 ^ 64))"
proof -
  obtain sh where sh: "shm = Some sh" "is_valid sh" "nid < MAX_NODE_COUNT"
    using get_node_info_SuccessD [OF assms] by blast
  have to: "unat (timeout_ms * 1000000) = (unat timeout_ms * 1000000) mod 2 ^ 64"
    by (simp add: unat_word_ariths)
  have "now - info_last_heartbeat info < timeout_ms * 1000000 \<longleftrightarrow>
      unat now - unat (info_last_heartbeat info) < (unat timeout_ms * 1000000) mod 2 ^ 64"
    if "\<not> now < info_last_heartbeat info"
    using that unfolding word_less_nat_alt to by (simp add: unat_sub_if')
  then show ?thesis
    using assms sh by (auto simp: is_node_alive_def Let_def word_less_nat_alt word_le_nat_alt)
qed

text \<open>With a timeout of \<open>2 ^ 58\<close> ms, a node that sent a heartbeat this very moment is dead.\<close>

theorem is_node_alive_iff_witness:
  "\<exists>m. is_node_alive 5 (Some registry_region) 64 3 3000 m = Some True \<and>
    is_node_alive 5 (Some registry_region) 64 3 288230376151711744 m = Some False"
proof -
  obtain m1 where "register_in_shared_memory 5 (Some registry_region) 64 registry_node (\<lambda>_. 0) = Some (SUCCESS, m1)"
    using registry_demo by blast
  from register_own [OF this]
  have "get_node_info (Some registry_region) 64 3 True m1 = Some (SUCCESS, Some (new_info 5 demo_config))"
    by (simp add: registry_node_def demo_config_def)
  from is_node_alive_iff [OF this, of 5] show ?thesis
    by (intro exI [where x = m1]) (simp add: new_info_def)
qed

text \<open>
  An entry that begins inside the mapping and ends outside it passes all checks of the
  registration, and the copy of the entry faults.
\<close>

lemma register_faults_iff:
  "register_in_shared_memory now shm off reg m = None \<longleftrightarrow>
   (\<exists>sh p. shm = Some sh \<and> own_slot shm off reg = Inr p \<and> unat (shm_size sh) < unat p + 160)"
  by (auto simp: register_in_shared_memory_def store_def mapped_def encode_info_length [OF new_info_ok]
      not_le own_slot_def split: sum.splits option.splits if_splits)

lemma register_faults_inside:
  "offset_to_ptr registry_region (slot_offset 64 25) \<noteq> None \<and>
   register_in_shared_memory now (Some registry_region) 64
     (registry_node\<lparr>local_config := demo_config\<lparr>nc_node_id := 25\<rparr>\<rparr>) m = None"
  by (simp add: register_in_shared_memory_def encode_info_length [OF new_info_ok] registry_demo_simps)

text \<open>
  A configuration file that breaks off after the node id: the load fails, but a registry that had
  a configuration keeps \<open>has_local_config\<close> and registers the node of the broken file.
\<close>

lemma failed_reload_registers:
  "\<exists>files reg' m'. load_local_config files ''new'' registry_node = (ERROR_UNKNOWN, reg') \<and>
     register_in_shared_memory now (Some registry_region) 64 reg' m = Some (SUCCESS, m') \<and>
     get_node_info (Some registry_region) 64 5 True m' =
       Some (SUCCESS, Some (new_info now (zero_config\<lparr>nc_node_id := 5\<rparr>)))"
proof -
  define reg' where "reg' = \<lparr>local_config = zero_config\<lparr>nc_node_id := 5\<rparr>, has_local_config = True\<rparr>"
  have load: "load_local_config (\<lambda>_. Some (''\"node_id\": 5'' @ newline # ''\"num_compute_threads\": x'')) ''new''
      registry_node = (ERROR_UNKNOWN, reg')"
    by (simp add: load_local_config_def load_line_def Let_def trim_def extract_json_key_def
        extract_json_value_def isspace_def stoul_def is_digit_def digit_value_def digits_value_def
        reg'_def registry_node_def)
  obtain m' where reg: "register_in_shared_memory now (Some registry_region) 64 reg' m = Some (SUCCESS, m')"
    by (simp add: register_in_shared_memory_def encode_info_length [OF new_info_ok] reg'_def
        registry_demo_simps)
  have "get_node_info (Some registry_region) 64 5 True m' =
      Some (SUCCESS, Some (new_info now (zero_config\<lparr>nc_node_id := 5\<rparr>)))"
    using register_own [OF reg] by (simp add: reg'_def)
  then show ?thesis using load reg by blast
qed

end
