(* ===== verification/Algorithm_Registry.thy ===== *)
theory Algorithm_Registry
  imports Lock_Interface "HOL-Library.List_Lexorder" "HOL-Library.Char_ord"
begin

text \<open>
  \<open>LockAlgorithmRegistry\<close> (\<open>src/lock_interface.cpp\<close>): the names of the lock algorithms and their
  factories. \<open>std::map\<close> is an association list sorted by its keys, which strings of bytes compare
  lexicographically. A factory is a function without arguments: the object it creates, or \<open>None\<close>
  for null. Names are C strings: without a zero byte, and \<open>None\<close> for the null pointer. The mutex
  of the registry makes each operation one step.
\<close>

section \<open>The map\<close>

type_synonym factory = "GlobalLockAlgorithm option"
type_synonym LockRegistryData = "(string \<times> factory) list"

fun std_map_find :: "string \<Rightarrow> (string \<times> 'v) list \<Rightarrow> 'v option" where
  "std_map_find key [] = None"
| "std_map_find key ((k, v) # kvs) =
     (if key < k then None else if k < key then std_map_find key kvs else Some v)"

fun std_map_insert :: "string \<Rightarrow> 'v \<Rightarrow> (string \<times> 'v) list \<Rightarrow> (string \<times> 'v) list" where
  "std_map_insert key v [] = [(key, v)]"
| "std_map_insert key v ((k, w) # kvs) =
     (if key < k then (key, v) # (k, w) # kvs
      else if k < key then (k, w) # std_map_insert key v kvs
      else (key, v) # kvs)"

definition map_sorted :: "(string \<times> 'v) list \<Rightarrow> bool" where
  "map_sorted kvs = sorted_wrt (<) (map fst kvs)"

lemma map_sorted_simps [simp]:
  "map_sorted []" "map_sorted ((k, v) # kvs) \<longleftrightarrow> (\<forall>k' \<in> fst ` set kvs. k < k') \<and> map_sorted kvs"
  by (auto simp: map_sorted_def)

lemma std_map_find_map_of: "map_sorted kvs \<Longrightarrow> std_map_find key kvs = map_of kvs key"
proof (induction key kvs rule: std_map_find.induct)
  case (2 key k v kvs)
  have "map_of kvs key = None" if "key < k" "\<forall>k' \<in> fst ` set kvs. k < k'"
  proof -
    have "key \<notin> fst ` set kvs" using that order.asym by blast
    then show ?thesis by (simp add: map_of_eq_None_iff)
  qed
  then show ?case
    by (cases rule: linorder_cases [of key k]) (use 2 in auto)
qed simp

lemma set_std_map_insert:
  "fst ` set (std_map_insert key v kvs) = insert key (fst ` set kvs)"
proof (induction key v kvs rule: std_map_insert.induct)
  case (2 key v k w kvs)
  show ?case by (cases rule: linorder_cases [of key k]) (use 2 in auto)
qed simp

lemma std_map_insert_sorted: "map_sorted kvs \<Longrightarrow> map_sorted (std_map_insert key v kvs)"
proof (induction key v kvs rule: std_map_insert.induct)
  case (2 key v k w kvs)
  have "\<forall>k' \<in> fst ` set kvs. key < k'" if "key < k" "\<forall>k' \<in> fst ` set kvs. k < k'"
    using that order.strict_trans by blast
  then show ?case
    by (cases rule: linorder_cases [of key k]) (use 2 in \<open>simp_all add: set_std_map_insert del: image_insert\<close>)
qed simp

lemma map_of_std_map_insert: "map_of (std_map_insert key v kvs) x = (if x = key then Some v else map_of kvs x)"
proof (induction key v kvs rule: std_map_insert.induct)
  case (2 key v k w kvs)
  show ?case
  proof (cases rule: linorder_cases [of key k])
    case greater
    then have "\<not> key < k" "key \<noteq> k" by auto
    then show ?thesis using greater 2 by auto
  qed simp_all
qed simp

section \<open>Operations\<close>

definition register_algorithm ::
  "string option \<Rightarrow> factory option \<Rightarrow> LockRegistryData \<Rightarrow> bool \<times> LockRegistryData"
where
  "register_algorithm name factory factories =
     (case (name, factory) of
        (Some key, Some f) \<Rightarrow>
          if key = [] then (False, factories)
          else if std_map_find key factories \<noteq> None then (False, factories)
          else (True, std_map_insert key f factories)
      | _ \<Rightarrow> (False, factories))"

definition create :: "string option \<Rightarrow> LockRegistryData \<Rightarrow> GlobalLockAlgorithm option" where
  "create name factories =
     (case name of
        None \<Rightarrow> None
      | Some key \<Rightarrow>
          if key = [] then None
          else case std_map_find key factories of None \<Rightarrow> None | Some f \<Rightarrow> f)"

text \<open>The lines that \<open>list_algorithms\<close> prints.\<close>

definition list_algorithms :: "LockRegistryData \<Rightarrow> string list" where
  "list_algorithms factories =
     ''Registered lock algorithms:'' #
     (if factories = [] then [''  (none)'']
      else map (\<lambda>(name, factory).
             ''  - '' @ name @
             (case factory of
                Some algo \<Rightarrow> '' ('' @ alg_get_name algo @ '')''
              | None \<Rightarrow> '' (factory returned null)'')) factories)"

text \<open>The registrations that the program makes before \<open>main\<close>, in the two files that have one.\<close>

definition registrations :: "(string \<times> factory) list" where
  "registrations = [(''mcs'', Some new_mcs), (''qspinlock'', Some new_qspin)]"

definition register_all :: "(string \<times> factory) list \<Rightarrow> LockRegistryData" where
  "register_all rs = foldl (\<lambda>d (name, f). snd (register_algorithm (Some name) (Some f) d)) [] rs"

section \<open>Properties\<close>

lemma register_algorithm_cases:
  assumes "map_sorted d"
  shows "register_algorithm name factory d =
    (case (name, factory) of
       (Some key, Some f) \<Rightarrow>
         if key \<noteq> [] \<and> map_of d key = None then (True, std_map_insert key f d) else (False, d)
     | _ \<Rightarrow> (False, d))"
  using std_map_find_map_of [OF assms] by (auto simp: register_algorithm_def split: option.split)

lemma create_map_of:
  "map_sorted d \<Longrightarrow> create name d =
    (case name of None \<Rightarrow> None
     | Some key \<Rightarrow> if key = [] then None else (case map_of d key of None \<Rightarrow> None | Some f \<Rightarrow> f))"
  using std_map_find_map_of [of d] by (simp add: create_def split: option.split)

text \<open>
  C36. The registry refines a partial map from names to factories: a registration succeeds exactly
  for a new, non-empty name and a factory that is not null, it adds that entry and overwrites nothing,
  it keeps the order of the map, and afterwards \<open>create\<close> gives what the factory of the map for the name gives, and null for a null or
  empty name and for a name that the map does not have.
\<close>

theorem registry_refines_map:
  assumes "map_sorted d" and "register_algorithm name factory d = (ok, d')"
  shows "map_sorted d' \<and>
    ok = (\<exists>key f. name = Some key \<and> factory = Some f \<and> key \<noteq> [] \<and> map_of d key = None) \<and>
    map_of d' = (if ok then (map_of d)(the name := factory) else map_of d) \<and>
    create name' d' =
      (case name' of None \<Rightarrow> None
       | Some key \<Rightarrow> if key = [] then None
           else (case map_of d' key of None \<Rightarrow> None | Some f \<Rightarrow> f))"
proof (cases "\<exists>key f. name = Some key \<and> factory = Some f \<and> key \<noteq> [] \<and> map_of d key = None")
  case True
  then obtain key f where kf: "name = Some key" "factory = Some f" "key \<noteq> []" "map_of d key = None"
    by blast
  then have d': "ok" "d' = std_map_insert key f d"
    using assms by (auto simp: register_algorithm_cases)
  have s: "map_sorted d'" unfolding d'(2) by (rule std_map_insert_sorted [OF assms(1)])
  have m: "map_of d' = (map_of d)(key \<mapsto> f)"
    unfolding d'(2) by (rule ext) (simp add: map_of_std_map_insert)
  show ?thesis
    using True kf d'(1) s m
    by (simp add: create_map_of [OF s])
next
  case False
  then have "\<not> ok" "d' = d"
    using assms by (auto simp: register_algorithm_cases split: option.splits if_splits)
  then show ?thesis
    using False assms(1) by (simp add: create_map_of split: option.split)
qed

text \<open>Two registrations of one name: the second fails and the first factory stays; a name that nobody registered gives null.\<close>

theorem registry_refines_map_witness:
  "create (Some ''mcs'') (snd (register_algorithm (Some ''mcs'') (Some (Some new_cas)) [(''mcs'', Some new_mcs)])) =
     Some new_mcs \<and>
   create (Some ''cas'') (snd (register_algorithm (Some ''mcs'') (Some (Some new_cas)) [(''mcs'', Some new_mcs)])) = None"
proof -
  have s: "map_sorted [(''mcs'', Some new_mcs)]" by simp
  obtain ok d' where r: "register_algorithm (Some ''mcs'') (Some (Some new_cas)) [(''mcs'', Some new_mcs)] = (ok, d')"
    by (cases "register_algorithm (Some ''mcs'') (Some (Some new_cas)) [(''mcs'', Some new_mcs)]")
  show ?thesis
    using registry_refines_map [OF s r, of "Some ''mcs''"] registry_refines_map [OF s r, of "Some ''cas''"] r by simp
qed

text \<open>The algorithms that can be created by name: the registrations are those of two files only.\<close>

lemma registered_names:
  "create (Some ''mcs'') (register_all registrations) = Some new_mcs \<and>
   create (Some ''qspinlock'') (register_all registrations) = Some new_qspin \<and>
   create (Some ''cas'') (register_all registrations) = None \<and>
   create (Some ''faa'') (register_all registrations) = None"
  by (simp add: register_all_def registrations_def register_algorithm_def create_def)

end
