(* ===== verification/Memory_Pool.thy ===== *)
theory Memory_Pool
  imports Shm_Prog Region_Properties
begin

text \<open>
  \<open>CxlMemoryPool\<close> (\<open>include/cxl_memory_pool.h\<close>, \<open>src/cxl_memory_pool.cpp\<close>): opening and closing
  the shared memory region. An operation is an access tree that also delivers what it asked of
  the operating system. The unique pointer to the region is null in a pool that was moved from;
  opening such a pool crashes.
\<close>

section \<open>State and operations\<close>

record CxlMemoryPool =
  pool_shm :: "SharedMemoryRegion option"
  pool_consistency_mode :: ConsistencyMode
  pool_size :: u64
  pool_is_open :: bool

definition new_pool :: CxlMemoryPool where
  "new_pool = \<lparr>pool_shm = Some new_region, pool_consistency_mode = SOFTWARE_CONSISTENCY,
     pool_size = 0, pool_is_open = False\<rparr>"

definition pool_open ::
  "os \<Rightarrow> string \<Rightarrow> u64 \<Rightarrow> ConsistencyMode \<Rightarrow> CxlMemoryPool \<Rightarrow>
   (LockResult \<times> os_event list \<times> CxlMemoryPool) prog"
where
  "pool_open os device_path sz consistency pool =
     (if pool_is_open pool then Ret (ERROR_UNKNOWN, [], pool)
      else if sz = 0 then Ret (ERROR_INVALID_PARAM, [], pool)
      else
        let config = \<lparr>cfg_device_path = device_path, cfg_size = sz,
                      cfg_consistency = consistency, cfg_create = True\<rparr>
        in case pool_shm pool of
             None \<Rightarrow> Crash
           | Some shm0 \<Rightarrow>
               let (rc, evs, shm) = shm_init os config shm0; pool1 = pool\<lparr>pool_shm := Some shm\<rparr>
               in if rc \<noteq> SUCCESS then Ret (rc, evs, pool1)
                  else Ret (SUCCESS, evs, pool1\<lparr>pool_size := sz, pool_consistency_mode := consistency,
                                             pool_is_open := True\<rparr>))"

definition pool_open_file_backed ::
  "os \<Rightarrow> string \<Rightarrow> u64 \<Rightarrow> ConsistencyMode \<Rightarrow> CxlMemoryPool \<Rightarrow>
   (LockResult \<times> os_event list \<times> CxlMemoryPool) prog"
where
  "pool_open_file_backed os file_path sz consistency pool =
     (if pool_is_open pool then Ret (ERROR_UNKNOWN, [], pool)
      else if sz = 0 then Ret (ERROR_INVALID_PARAM, [], pool)
      else
        let config = \<lparr>cfg_device_path = file_path, cfg_size = sz,
                      cfg_consistency = consistency, cfg_create = True\<rparr>
        in case pool_shm pool of
             None \<Rightarrow> Crash
           | Some shm0 \<Rightarrow>
               let (rc, evs, shm) = shm_init os config shm0; pool1 = pool\<lparr>pool_shm := Some shm\<rparr>
               in if rc \<noteq> SUCCESS then Ret (rc, evs, pool1)
                  else
                    seq (case get_base_address shm of
                           None \<Rightarrow> Ret ()
                         | Some base \<Rightarrow>
                             seq (memset_zero base sz)
                               (seq (flush_cache shm base sz) memory_fence))
                      (Ret (SUCCESS, evs, pool1\<lparr>pool_size := sz, pool_consistency_mode := consistency,
                                             pool_is_open := True\<rparr>)))"

definition pool_close :: "CxlMemoryPool \<Rightarrow> (os_event list \<times> CxlMemoryPool) prog" where
  "pool_close pool =
     (if \<not> pool_is_open pool then Ret ([], pool)
      else case pool_shm pool of
        None \<Rightarrow> Ret ([], pool\<lparr>pool_size := 0, pool_is_open := False\<rparr>)
      | Some shm \<Rightarrow>
          seq (if pool_consistency_mode pool = SOFTWARE_CONSISTENCY then
                 (case get_base_address shm of
                    None \<Rightarrow> Ret ()
                  | Some base \<Rightarrow>
                      if 0 < pool_size pool then flush_cache shm base (pool_size pool) else Ret ())
               else Ret ())
            (let (evs, shm') = cleanup shm
             in Ret (evs, pool\<lparr>pool_shm := Some shm', pool_size := 0, pool_is_open := False\<rparr>)))"

text \<open>The destructor closes the pool and destroys the region it owns.\<close>

definition pool_destroy :: "CxlMemoryPool \<Rightarrow> os_event list prog" where
  "pool_destroy pool =
     bind (pool_close pool) (\<lambda>(evs, pool').
       Ret (evs @ (case pool_shm pool' of None \<Rightarrow> [] | Some shm \<Rightarrow> shm_destroy shm)))"

text \<open>Moving takes the region away from the source, which is closed without an unmapping.\<close>

definition pool_moved_from :: "CxlMemoryPool \<Rightarrow> CxlMemoryPool" where
  "pool_moved_from other = other\<lparr>pool_shm := None, pool_size := 0, pool_is_open := False\<rparr>"

definition pool_move_construct :: "CxlMemoryPool \<Rightarrow> CxlMemoryPool \<times> CxlMemoryPool" where
  "pool_move_construct other = (other, pool_moved_from other)"

definition pool_move_assign ::
  "CxlMemoryPool \<Rightarrow> CxlMemoryPool \<Rightarrow> (os_event list \<times> CxlMemoryPool \<times> CxlMemoryPool) prog"
where
  "pool_move_assign self other =
     bind (pool_close self) (\<lambda>(evs, self').
       Ret (evs @ (case pool_shm self' of None \<Rightarrow> [] | Some shm \<Rightarrow> shm_destroy shm),
            other, pool_moved_from other))"

definition pool_get_size :: "CxlMemoryPool \<Rightarrow> u64" where
  "pool_get_size pool = pool_size pool"

definition pool_get_consistency_mode :: "CxlMemoryPool \<Rightarrow> ConsistencyMode" where
  "pool_get_consistency_mode pool = pool_consistency_mode pool"

section \<open>Invariant\<close>

text \<open>
  A pool is open exactly when it owns a valid region, and its members say what the region is.
  \<open>pool_held\<close> is what it has of the operating system.
\<close>

definition pool_wf :: "CxlMemoryPool \<Rightarrow> bool" where
  "pool_wf pool \<longleftrightarrow>
     (case pool_shm pool of
        None \<Rightarrow> \<not> pool_is_open pool
      | Some sh \<Rightarrow> region_wf sh \<and> shm_valid sh = pool_is_open pool \<and>
          (pool_is_open pool \<longrightarrow> shm_size sh = pool_size pool \<and> shm_consistency sh = pool_consistency_mode pool)) \<and>
     (\<not> pool_is_open pool \<longrightarrow> pool_size pool = 0)"

definition pool_held :: "CxlMemoryPool \<Rightarrow> resource multiset" where
  "pool_held pool = (case pool_shm pool of None \<Rightarrow> {#} | Some sh \<Rightarrow> held sh)"

lemma pool_wf_moved_from: "pool_wf (pool_moved_from other)"
  and pool_wf_new: "pool_wf new_pool"
  by (simp_all add: pool_wf_def pool_moved_from_def new_pool_def region_wf_def new_region_def)

section \<open>Opening and closing\<close>

text \<open>
  What both opening functions ask for: a region for the pool, and the members set when there is one.
\<close>

lemma pool_init_shm:
  assumes "pool_wf pool" and "\<not> pool_is_open pool" and "pool_shm pool = Some shm0"
    and "os_documented os" and "sz \<noteq> 0"
    and "shm_init os \<lparr>cfg_device_path = path, cfg_size = sz, cfg_consistency = c, cfg_create = True\<rparr> shm0 =
      (rc, evs, shm)"
  shows "(rc = SUCCESS \<or> rc = ERROR_SHM_FAILURE) \<and> held shm0 = {#} \<and> account_all evs {#} = held shm \<and>
    pool_wf (if rc = SUCCESS then pool\<lparr>pool_shm := Some shm, pool_size := sz, pool_consistency_mode := c,
      pool_is_open := True\<rparr> else pool\<lparr>pool_shm := Some shm\<rparr>) \<and>
    (rc = SUCCESS \<longrightarrow> shm_valid shm \<and> shm_size shm = sz \<and> shm_base shm \<noteq> MAP_FAILED \<and> shm_base shm \<noteq> 0)"
proof -
  have wf: "region_wf shm0" and h: "held shm0 = {#}"
    using assms(1-3) by (simp_all add: pool_wf_def held_def)
  show ?thesis
    using shm_init_cases [OF wf assms(4), of "\<lparr>cfg_device_path = path, cfg_size = sz, cfg_consistency = c, cfg_create = True\<rparr>"]
      assms(1,2,5,6) h
    by (auto simp: pool_wf_def held_def region_wf_def split: if_splits)
qed

lemma run_pool_open:
  assumes "pool_wf pool" and "\<not> pool_is_open pool" and "pool_shm pool \<noteq> None"
    and "os_documented os" and "sz \<noteq> 0"
  shows "\<exists>rc evs pool'. pool_open os path sz c pool = Ret (rc, evs, pool') \<and>
    (rc = SUCCESS \<or> rc = ERROR_SHM_FAILURE) \<and> pool_wf pool' \<and> account_all evs {#} = pool_held pool' \<and>
    pool_held pool = {#} \<and> pool_shm pool' \<noteq> None \<and> (pool_is_open pool' = (rc = SUCCESS)) \<and>
    (rc = SUCCESS \<longrightarrow> pool_size pool' = sz \<and> pool_consistency_mode pool' = c)"
proof -
  obtain shm0 where s: "pool_shm pool = Some shm0" using assms(3) by blast
  obtain rc evs shm where i:
    "shm_init os \<lparr>cfg_device_path = path, cfg_size = sz, cfg_consistency = c, cfg_create = True\<rparr> shm0 = (rc, evs, shm)"
    by (metis prod_cases3)
  show ?thesis
    using pool_init_shm [OF assms(1,2) s assms(4,5) i] assms(2,5) s i
    by (auto simp: pool_open_def Let_def pool_held_def split: if_splits)
qed

text \<open>
  The file-backed variant does the same and then clears the memory: the content of the file is gone
  for every process that has it mapped.
\<close>

lemma zero_base_cells:
  "shm_valid sh \<Longrightarrow> in_bounds sh (shm_base sh) (unat (shm_size sh))"
  "zero_cells (cell_of sh (shm_base sh)) n m = (\<lambda>x. if unat x < n then 0 else m x)"
  by (simp_all add: in_bounds_def cell_of_def zero_cells_def)

lemma run_pool_open_file_backed:
  assumes "pool_wf pool" and "\<not> pool_is_open pool" and "pool_shm pool \<noteq> None"
    and "os_documented os" and "sz \<noteq> 0"
  obtains rc evs pool' sh where
    "pool_shm pool' = Some sh" and
    "run sh (pool_open_file_backed os path sz c pool) m = Result (rc, evs, pool')
       (if rc = SUCCESS then (\<lambda>x. if x < sz then 0 else m x) else m)" and
    "rc = SUCCESS \<or> rc = ERROR_SHM_FAILURE" and "pool_wf pool'" and "account_all evs {#} = pool_held pool'" and
    "pool_is_open pool' = (rc = SUCCESS)" and
    "rc = SUCCESS \<Longrightarrow> pool_size pool' = sz \<and> pool_consistency_mode pool' = c" and
    "pool_open os path sz c pool = Ret (rc, evs, pool')"
proof -
  obtain shm0 where s: "pool_shm pool = Some shm0" using assms(3) by blast
  obtain rc evs shm where i:
    "shm_init os \<lparr>cfg_device_path = path, cfg_size = sz, cfg_consistency = c, cfg_create = True\<rparr> shm0 = (rc, evs, shm)"
    by (metis prod_cases3)
  note init = pool_init_shm [OF assms(1,2) s assms(4,5) i]
  define pool' where "pool' = (if rc = SUCCESS
    then pool\<lparr>pool_shm := Some shm, pool_size := sz, pool_consistency_mode := c, pool_is_open := True\<rparr>
    else pool\<lparr>pool_shm := Some shm\<rparr>)"
  have o: "pool_open os path sz c pool = Ret (rc, evs, pool')"
    using init assms(2,5) s i by (auto simp: pool_open_def Let_def pool'_def)
  have r: "run shm (pool_open_file_backed os path sz c pool) m = Result (rc, evs, pool')
      (if rc = SUCCESS then (\<lambda>x. if x < sz then 0 else m x) else m)"
    using init assms(2,5) s i
    by (auto simp: pool_open_file_backed_def Let_def pool'_def get_base_address_def seq_seq prog_simps
        zero_base_cells word_less_nat_alt)
  show thesis
    by (rule that [OF _ r]) (use o init assms(2) in \<open>auto simp: pool'_def pool_held_def\<close>)
qed

lemma run_pool_close:
  assumes "pool_wf pool"
  shows "\<exists>evs pool'. run sh (pool_close pool) m = Result (evs, pool') m \<and> pool_wf pool' \<and>
    \<not> pool_is_open pool' \<and> account_all evs (pool_held pool) = {#} \<and> pool_held pool' = {#}"
proof (cases "pool_is_open pool")
  case False
  then show ?thesis
    using assms by (auto simp: pool_close_def pool_wf_def pool_held_def held_def split: option.splits)
next
  case True
  then obtain shm where s: "pool_shm pool = Some shm" "region_wf shm"
    using assms by (auto simp: pool_wf_def split: option.splits)
  obtain evs shm' where c: "cleanup shm = (evs, shm')" by (cases "cleanup shm")
  have v: "\<not> shm_valid shm'" using c by (auto simp: cleanup_def Let_def)
  show ?thesis
    using True s c v cleanup_balanced [OF s(2)]
    by (auto simp: pool_close_def Let_def prog_simps seq_Ret pool_wf_def pool_held_def split: option.split)
qed

text \<open>
  C34. Opening a pool on a file and closing it again: the pool stays well-formed, a failed opening
  leaves it closed, and all that was taken from the operating system is given back. A successful
  opening zeroes the whole region, whatever other processes keep there.
\<close>

theorem pool_lifecycle:
  assumes "pool_wf pool" and "\<not> pool_is_open pool" and "pool_shm pool \<noteq> None"
    and "os_documented os" and "sz \<noteq> 0"
  shows "\<exists>rc evs pool1 sh evs2 pool2 m1.
    pool_shm pool1 = Some sh \<and> pool_wf pool1 \<and> pool_is_open pool1 = (rc = SUCCESS) \<and>
    run sh (pool_open_file_backed os path sz c pool) m = Result (rc, evs, pool1) m1 \<and>
    (if rc = SUCCESS then shm_valid sh \<and> shm_size sh = sz \<and> m1 = (\<lambda>x. if x < sz then 0 else m x)
     else rc = ERROR_SHM_FAILURE \<and> m1 = m) \<and>
    run sh (pool_close pool1) m1 = Result (evs2, pool2) m1 \<and>
    pool_wf pool2 \<and> \<not> pool_is_open pool2 \<and> account_all (evs @ evs2) {#} = {#}"
proof (rule run_pool_open_file_backed [OF assms, of path c m])
  fix rc evs pool1 sh
  assume o: "pool_shm pool1 = Some sh"
    "run sh (pool_open_file_backed os path sz c pool) m = Result (rc, evs, pool1)
       (if rc = SUCCESS then (\<lambda>x. if x < sz then 0 else m x) else m)"
    "rc = SUCCESS \<or> rc = ERROR_SHM_FAILURE" "pool_wf pool1" "account_all evs {#} = pool_held pool1"
    "pool_is_open pool1 = (rc = SUCCESS)" "rc = SUCCESS \<Longrightarrow> pool_size pool1 = sz \<and> pool_consistency_mode pool1 = c"
  define m1 where "m1 = (if rc = SUCCESS then (\<lambda>x. if x < sz then 0 else m x) else m)"
  obtain evs2 pool2 where c: "run sh (pool_close pool1) m1 = Result (evs2, pool2) m1" "pool_wf pool2"
    "\<not> pool_is_open pool2" "account_all evs2 (pool_held pool1) = {#}"
    using run_pool_close [OF o(4)] by blast
  have "rc = SUCCESS \<Longrightarrow> shm_valid sh \<and> shm_size sh = sz"
    using o(1,4,6,7) by (auto simp: pool_wf_def)
  then have m1: "if rc = SUCCESS then shm_valid sh \<and> shm_size sh = sz \<and> m1 = (\<lambda>x. if x < sz then 0 else m x)
     else rc = ERROR_SHM_FAILURE \<and> m1 = m"
    using o(3) by (auto simp: m1_def)
  have bal: "account_all (evs @ evs2) {#} = {#}"
    using o(5) c(4) by simp
  show ?thesis
    by (intro exI conjI) (rule o(1) o(4) o(6) o(2) [folded m1_def] m1 c(1-3) bal)+
qed

definition one_mapping_os :: os where
  "one_mapping_os = \<lparr>os_is_directory = (\<lambda>_. False), os_open = (\<lambda>_ _. 5), os_ftruncate = (\<lambda>_ _. 0),
     os_mmap = (\<lambda>_ _ _. 65536)\<rparr>"

lemma one_mapping_os_documented: "os_documented one_mapping_os"
  by (simp add: os_documented_def one_mapping_os_def)

theorem pool_lifecycle_witness:
  "\<exists>evs pool1 sh. pool_is_open pool1 \<and>
     run sh (pool_open_file_backed one_mapping_os ''/dev/shm/x'' 4096 SOFTWARE_CONSISTENCY new_pool) (\<lambda>_. 1) =
       Result (SUCCESS, evs, pool1) (\<lambda>x. if x < 4096 then 0 else 1)"
proof -
  have new: "\<not> pool_is_open new_pool" "pool_shm new_pool \<noteq> None" "(4096 :: u64) \<noteq> 0"
    by (simp_all add: new_pool_def)
  obtain rc evs pool1 sh m1 where r: "pool_is_open pool1 = (rc = SUCCESS)"
    "run sh (pool_open_file_backed one_mapping_os ''/dev/shm/x'' 4096 SOFTWARE_CONSISTENCY new_pool) (\<lambda>_. 1) =
      Result (rc, evs, pool1) m1"
    "if rc = SUCCESS then shm_valid sh \<and> shm_size sh = 4096 \<and> m1 = (\<lambda>x. if x < 4096 then 0 else 1)
     else rc = ERROR_SHM_FAILURE \<and> m1 = (\<lambda>_. 1)"
    using pool_lifecycle [OF pool_wf_new new(1,2) one_mapping_os_documented new(3),
        of "''/dev/shm/x''" SOFTWARE_CONSISTENCY "\<lambda>_. 1"] by blast
  have "rc = SUCCESS"
  proof (rule ccontr)
    assume "rc \<noteq> SUCCESS"
    moreover have "fst (shm_init one_mapping_os \<lparr>cfg_device_path = ''/dev/shm/x'', cfg_size = 4096,
        cfg_consistency = SOFTWARE_CONSISTENCY, cfg_create = True\<rparr> new_region) = SUCCESS"
      by (simp add: shm_init_def Let_def one_mapping_os_def new_region_def map_backing_store_def
          MAP_FAILED_def split_beta)
    moreover have "rc = SUCCESS" if "fst (shm_init one_mapping_os \<lparr>cfg_device_path = ''/dev/shm/x'',
        cfg_size = 4096, cfg_consistency = SOFTWARE_CONSISTENCY, cfg_create = True\<rparr> new_region) = SUCCESS"
      using r(2) new(3) that
      by (auto simp: pool_open_file_backed_def new_pool_def Let_def split_beta seq_def run_bind
          split: outcome.splits)
    ultimately show False by blast
  qed
  then show ?thesis using r by auto
qed

end
