(* ===== verification/Distributed_Lock.thy ===== *)
theory Distributed_Lock
  imports Memory_Pool Two_Tier_Lock Lock_Manager
begin

text \<open>
  \<open>DistributedLockSystem\<close> (\<open>include/distributed_lock.h\<close>, \<open>src/distributed_lock.cpp\<close>): the facade
  that opens the pool, creates the algorithm, and starts the two-tier lock and, on one node, the
  lock manager. Owning pointers are options. The allocation of the local locks can fail as in
  \<open>Local_Lock\<close>. An operation delivers the requests to the operating system beside its result.
\<close>

section \<open>Configuration and state\<close>

record Config =
  dl_shm_device_path :: string
  dl_shm_size :: u64
  dl_max_nodes :: u32
  dl_max_locks :: u32
  dl_lock_algorithm :: string
  dl_node_id :: u32
  dl_consistency_mode :: ConsistencyMode
  dl_lock_manager_scan_interval_us :: u32
  dl_use_file_backed_shm :: bool
  dl_shm_backing_file :: string

definition default_config :: Config where
  "default_config =
     \<lparr>dl_shm_device_path = ''/dev/dax0.0'', dl_shm_size = 64 * 1024 * 1024, dl_max_nodes = 16,
      dl_max_locks = 256, dl_lock_algorithm = ''cas'', dl_node_id = 0,
      dl_consistency_mode = SOFTWARE_CONSISTENCY, dl_lock_manager_scan_interval_us = 100,
      dl_use_file_backed_shm = False, dl_shm_backing_file = ''/tmp/cxl_distributed_lock.shm''\<rparr>"

record DistributedLockSystem =
  sys_pool :: "CxlMemoryPool option"
  sys_local_locks :: "LocalLockArray option"
  sys_two_tier_lock :: "TwoTierLock option"
  sys_lock_manager :: "LockManager option"
  sys_algorithm :: "GlobalLockAlgorithm option"
  sys_config :: Config
  sys_node_id :: NodeId
  sys_is_lock_manager :: bool
  sys_initialized :: bool
  sys_lock_manager_started :: bool

definition new_system :: DistributedLockSystem where
  "new_system =
     \<lparr>sys_pool = None, sys_local_locks = None, sys_two_tier_lock = None, sys_lock_manager = None,
      sys_algorithm = None, sys_config = default_config, sys_node_id = INVALID_NODE_ID,
      sys_is_lock_manager = False, sys_initialized = False, sys_lock_manager_started = False\<rparr>"

section \<open>Initialisation\<close>

text \<open>Step 1. The device, or else the file.\<close>

definition open_pool ::
  "os \<Rightarrow> Config \<Rightarrow> CxlMemoryPool \<Rightarrow> (LockResult \<times> os_event list \<times> CxlMemoryPool) prog"
where
  "open_pool os config pool =
     (if dl_use_file_backed_shm config then
        pool_open_file_backed os (dl_shm_backing_file config) (dl_shm_size config)
          (dl_consistency_mode config) pool
      else
        bind (pool_open os (dl_shm_device_path config) (dl_shm_size config)
                (dl_consistency_mode config) pool) (\<lambda>(rc, evs, pool1).
          if rc \<noteq> SUCCESS then
            bind (pool_open_file_backed os (dl_shm_backing_file config) (dl_shm_size config)
                    (dl_consistency_mode config) pool1) (\<lambda>(rc, evs', pool2).
              Ret (rc, evs @ evs', pool2))
          else Ret (SUCCESS, evs, pool1)))"

text \<open>Step 2. \<open>None\<close> for an unknown name.\<close>

definition make_algorithm :: "string \<Rightarrow> GlobalLockAlgorithm option" where
  "make_algorithm name =
     (if name = ''cas'' \<or> name = ''CAS'' then Some new_cas
      else if name = ''faa'' \<or> name = ''FAA'' then Some new_faa
      else if name = ''mcs'' \<or> name = ''MCS'' then Some new_mcs
      else if name = ''qspinlock'' \<or> name = ''QSPINLOCK'' then Some new_qspin
      else None)"

text \<open>Giving up: what has been built is taken down, then the pool is closed.\<close>

definition sys_close_pool ::
  "LockResult \<Rightarrow> os_event list \<Rightarrow> DistributedLockSystem \<Rightarrow>
   (LockResult \<times> os_event list \<times> DistributedLockSystem) prog"
where
  "sys_close_pool rc evs sys =
     (case sys_pool sys of
        None \<Rightarrow> Crash
      | Some pool \<Rightarrow>
          bind (pool_close pool) (\<lambda>(evs', pool'). Ret (rc, evs @ evs', sys\<lparr>sys_pool := Some pool'\<rparr>)))"

text \<open>Step 5. A second object of the same class for the lock manager, which is then started.\<close>

definition sys_start_manager ::
  "Config \<Rightarrow> SharedMemoryRegion option \<Rightarrow> GlobalLockAlgorithm \<Rightarrow> (LockResult \<times> LockManager) prog"
where
  "sys_start_manager config shm mgr_algo =
     bind (lm_initialize new_lock_manager shm (Some mgr_algo) (dl_max_locks config)
             (dl_max_nodes config) (dl_lock_manager_scan_interval_us config)) (\<lambda>(rc, lm).
       if rc \<noteq> SUCCESS then Ret (rc, lm) else Ret (lm_start lm))"

definition sys_initialize_manager ::
  "os_event list \<Rightarrow> bool \<Rightarrow> SharedMemoryRegion option \<Rightarrow> TwoTierLock \<Rightarrow> LocalLockArray \<Rightarrow>
   DistributedLockSystem \<Rightarrow> (LockResult \<times> os_event list \<times> DistributedLockSystem) prog"
where
  "sys_initialize_manager evs as_lock_manager shm tt ll sys =
     (if \<not> as_lock_manager then Ret (SUCCESS, evs, sys\<lparr>sys_initialized := True\<rparr>)
      else case make_algorithm (dl_lock_algorithm (sys_config sys)) of
        None \<Rightarrow> Ret (ERROR_INVALID_PARAM, evs, sys\<lparr>sys_lock_manager := Some new_lock_manager\<rparr>)
      | Some mgr_algo \<Rightarrow>
          bind (sys_start_manager (sys_config sys) shm mgr_algo) (\<lambda>(rc, lm).
            let sys1 = sys\<lparr>sys_lock_manager := Some lm\<rparr>
            in if rc \<noteq> SUCCESS then
                 sys_close_pool rc evs (sys1\<lparr>sys_two_tier_lock := Some (tt_shutdown tt),
                                             sys_local_locks := Some (ll_destroy ll)\<rparr>)
               else Ret (SUCCESS, evs, sys1\<lparr>sys_lock_manager_started := True, sys_initialized := True\<rparr>)))"

text \<open>Steps 3 and 4. The two-tier lock and the facade share the algorithm object.\<close>

definition sys_initialize_locks ::
  "os_event list \<Rightarrow> bool \<Rightarrow> (nat \<Rightarrow> bool) \<Rightarrow> bool \<Rightarrow> SharedMemoryRegion option \<Rightarrow> GlobalLockAlgorithm \<Rightarrow>
   DistributedLockSystem \<Rightarrow> (LockResult \<times> os_event list \<times> DistributedLockSystem) prog"
where
  "sys_initialize_locks evs alloc mutex_init as_lock_manager shm algorithm sys =
     (let config = sys_config sys;
          (rc, ll) = ll_initialize alloc mutex_init (dl_max_locks config) new_local_locks;
          sys1 = sys\<lparr>sys_algorithm := Some algorithm, sys_local_locks := Some ll\<rparr>
      in if rc \<noteq> SUCCESS then sys_close_pool rc evs sys1
         else
           bind (tt_initialize new_two_tier_lock (sys_node_id sys) True shm (Some algorithm) 0
                   (dl_max_locks config) (dl_max_nodes config)) (\<lambda>(rc, tt).
             if rc \<noteq> SUCCESS then
               sys_close_pool rc evs (sys1\<lparr>sys_two_tier_lock := Some tt,
                                           sys_local_locks := Some (ll_destroy ll)\<rparr>)
             else
               sys_initialize_manager evs as_lock_manager shm tt ll
                 (sys1\<lparr>sys_two_tier_lock := Some tt, sys_algorithm := tt_algorithm tt\<rparr>)))"

definition replace_pool :: "DistributedLockSystem \<Rightarrow> os_event list prog" where
  "replace_pool sys = (case sys_pool sys of None \<Rightarrow> Ret [] | Some pool \<Rightarrow> pool_destroy pool)"

definition sys_initialize ::
  "os \<Rightarrow> bool \<Rightarrow> (nat \<Rightarrow> bool) \<Rightarrow> Config \<Rightarrow> bool \<Rightarrow> DistributedLockSystem \<Rightarrow>
   (LockResult \<times> os_event list \<times> DistributedLockSystem) prog"
where
  "sys_initialize os alloc mutex_init config as_lock_manager sys =
     (if sys_initialized sys then Ret (ERROR_UNKNOWN, [], sys)
      else
        bind (replace_pool sys) (\<lambda>evs0.
        bind (open_pool os config new_pool) (\<lambda>(rc, evs1, pool).
          let sys1 = sys\<lparr>sys_config := config, sys_node_id := dl_node_id config,
                         sys_is_lock_manager := as_lock_manager, sys_pool := Some pool\<rparr>
          in if rc \<noteq> SUCCESS then Ret (rc, evs0 @ evs1, sys1)
             else case make_algorithm (dl_lock_algorithm config) of
               None \<Rightarrow> Ret (ERROR_INVALID_PARAM, evs0 @ evs1, sys1)
             | Some algorithm \<Rightarrow>
                 sys_initialize_locks (evs0 @ evs1) alloc mutex_init as_lock_manager (pool_shm pool)
                   algorithm sys1)))"

section \<open>Shutdown\<close>

text \<open>
  The lock manager is stopped and deleted, the two-tier lock and the local locks are taken down
  and deleted, the pool is closed and deleted.
\<close>

definition sys_shutdown ::
  "DistributedLockSystem \<Rightarrow> (os_event list \<times> DistributedLockSystem) prog"
where
  "sys_shutdown sys =
     (if \<not> sys_initialized sys then Ret ([], sys)
      else
        let sys1 = (if sys_lock_manager_started sys \<and> sys_lock_manager sys \<noteq> None
                    then sys\<lparr>sys_lock_manager := map_option (\<lambda>lm. snd (lm_stop lm)) (sys_lock_manager sys),
                             sys_lock_manager_started := False\<rparr>
                    else sys);
            sys2 = sys1\<lparr>sys_two_tier_lock := None, sys_local_locks := None, sys_algorithm := None\<rparr>
        in bind (replace_pool sys2) (\<lambda>evs.
             Ret (evs, sys2\<lparr>sys_pool := None, sys_lock_manager := None, sys_initialized := False\<rparr>)))"

definition sys_destroy :: "DistributedLockSystem \<Rightarrow> os_event list prog" where
  "sys_destroy sys =
     bind (sys_shutdown sys) (\<lambda>(evs, sys').
     bind (replace_pool sys') (\<lambda>evs'. Ret (evs @ evs')))"

section \<open>Lock operations\<close>

text \<open>\<open>None\<close>: the calling thread is blocked in the local mutex, as in \<open>tt_acquire\<close>.\<close>

definition sys_acquire_lock ::
  "nat \<Rightarrow> thread \<Rightarrow> (nat \<Rightarrow> u64) \<Rightarrow> LockId \<Rightarrow> u64 \<Rightarrow> DistributedLockSystem \<Rightarrow>
   (LockResult \<times> DistributedLockSystem) prog option"
where
  "sys_acquire_lock fuel t clk lock_id timeout_ms sys =
     (if \<not> sys_initialized sys then Some (Ret (ERROR_LOCK_NOT_INITIALIZED, sys))
      else case (sys_two_tier_lock sys, sys_local_locks sys) of
        (Some tt, Some ll) \<Rightarrow>
          map_option (\<lambda>p. bind p (\<lambda>(rc, ll'). Ret (rc, sys\<lparr>sys_local_locks := Some ll'\<rparr>)))
            (tt_acquire fuel t clk lock_id timeout_ms tt ll)
      | _ \<Rightarrow> Some Crash)"

definition sys_release_lock ::
  "nat \<Rightarrow> thread \<Rightarrow> LockId \<Rightarrow> DistributedLockSystem \<Rightarrow> (LockResult \<times> DistributedLockSystem) prog"
where
  "sys_release_lock fuel t lock_id sys =
     (if \<not> sys_initialized sys then Ret (ERROR_LOCK_NOT_INITIALIZED, sys)
      else case (sys_two_tier_lock sys, sys_local_locks sys) of
        (Some tt, Some ll) \<Rightarrow>
          bind (tt_release fuel t lock_id tt ll) (\<lambda>(rc, ll'). Ret (rc, sys\<lparr>sys_local_locks := Some ll'\<rparr>))
      | _ \<Rightarrow> Crash)"

definition sys_try_lock ::
  "nat \<Rightarrow> thread \<Rightarrow> (nat \<Rightarrow> u64) \<Rightarrow> LockId \<Rightarrow> DistributedLockSystem \<Rightarrow>
   (LockResult \<times> DistributedLockSystem) prog"
where
  "sys_try_lock fuel t clk lock_id sys =
     (if \<not> sys_initialized sys then Ret (ERROR_LOCK_NOT_INITIALIZED, sys)
      else case (sys_two_tier_lock sys, sys_local_locks sys) of
        (Some tt, Some ll) \<Rightarrow>
          bind (tt_try_acquire fuel t clk lock_id tt ll)
            (\<lambda>(rc, ll'). Ret (rc, sys\<lparr>sys_local_locks := Some ll'\<rparr>))
      | _ \<Rightarrow> Crash)"

text \<open>A key is hashed modulo the configured number of locks; with none, the division traps.\<close>

definition sys_get_data_lock_id :: "8 word list \<Rightarrow> DistributedLockSystem \<Rightarrow> LockId option" where
  "sys_get_data_lock_id data_key sys = hash_bytes_to_lock_id data_key (dl_max_locks (sys_config sys))"

definition sys_acquire_data_lock ::
  "nat \<Rightarrow> thread \<Rightarrow> (nat \<Rightarrow> u64) \<Rightarrow> 8 word list \<Rightarrow> u64 \<Rightarrow> DistributedLockSystem \<Rightarrow>
   (LockResult \<times> DistributedLockSystem) prog option"
where
  "sys_acquire_data_lock fuel t clk data_key timeout_ms sys =
     (case sys_get_data_lock_id data_key sys of
        None \<Rightarrow> Some Crash
      | Some lid \<Rightarrow> sys_acquire_lock fuel t clk lid timeout_ms sys)"

definition sys_release_data_lock ::
  "nat \<Rightarrow> thread \<Rightarrow> 8 word list \<Rightarrow> DistributedLockSystem \<Rightarrow> (LockResult \<times> DistributedLockSystem) prog"
where
  "sys_release_data_lock fuel t data_key sys =
     (case sys_get_data_lock_id data_key sys of
        None \<Rightarrow> Crash
      | Some lid \<Rightarrow> sys_release_lock fuel t lid sys)"

section \<open>Queries\<close>

definition sys_get_algorithm_name :: "DistributedLockSystem \<Rightarrow> string" where
  "sys_get_algorithm_name sys =
     (case sys_algorithm sys of Some alg \<Rightarrow> alg_get_name alg | None \<Rightarrow> ''<none>'')"

definition sys_get_lock_manager_stats :: "DistributedLockSystem \<Rightarrow> Stats" where
  "sys_get_lock_manager_stats sys =
     (case sys_lock_manager sys of Some lm \<Rightarrow> lm_get_stats lm | None \<Rightarrow> new_stats)"

definition sys_initiate_fault_recovery :: "DistributedLockSystem \<Rightarrow> LockResult" where
  "sys_initiate_fault_recovery sys = SUCCESS"

definition sys_check_node_health :: "NodeId \<Rightarrow> DistributedLockSystem \<Rightarrow> LockResult" where
  "sys_check_node_health node_id sys = SUCCESS"

end
