(* ===== verification/System_Resources.thy ===== *)
theory System_Resources
  imports Distributed_Lock
begin

text \<open>
  What \<open>DistributedLockSystem\<close> takes from the operating system and gives back, and the invariant
  of its parts that initialisation, shutdown and the lock operations keep.
\<close>

section \<open>Resources\<close>

definition sys_held :: "DistributedLockSystem \<Rightarrow> resource multiset" where
  "sys_held sys = (case sys_pool sys of None \<Rightarrow> {#} | Some pool \<Rightarrow> pool_held pool)"

text \<open>
  An initialised system has an open pool, initialised locks and an algorithm; its lock manager, if it has started one,
  is running.
\<close>

definition sys_wf :: "DistributedLockSystem \<Rightarrow> bool" where
  "sys_wf sys \<longleftrightarrow>
     pred_option pool_wf (sys_pool sys) \<and>
     (sys_initialized sys \<longrightarrow>
       (\<exists>pool tt ll. sys_pool sys = Some pool \<and> pool_is_open pool \<and>
         sys_two_tier_lock sys = Some tt \<and> tt_initialized tt \<and> tt_algorithm tt \<noteq> None \<and>
         sys_local_locks sys = Some ll \<and> ll_initialized ll \<and> ll_lock_count ll = tt_max_locks tt) \<and>
       (sys_lock_manager_started sys \<longrightarrow> (\<exists>lm. sys_lock_manager sys = Some lm \<and> lm_running lm))) \<and>
     (\<not> sys_initialized sys \<longrightarrow> \<not> sys_lock_manager_started sys)"

lemma run_bind_ResultE:
  assumes "run sh (bind p f) m = Result r m'"
  obtains x m1 where "run sh p m = Result x m1" and "run sh (f x) m1 = Result r m'"
  using assms by (auto simp: run_bind split: outcome.splits)

lemma pool_open_file_backed_same:
  assumes "run sh (pool_open_file_backed os path sz c pool) m = Result r m'"
  shows "pool_open os path sz c pool = Ret r"
  using assms
  by (auto simp: pool_open_file_backed_def pool_open_def Let_def split_beta seq_def split: option.splits if_splits
      elim!: run_bind_ResultE)

definition closed_pool :: "CxlMemoryPool \<Rightarrow> bool" where
  "closed_pool pool \<longleftrightarrow> pool_wf pool \<and> \<not> pool_is_open pool \<and> pool_shm pool \<noteq> None"

lemma closed_pool_new: "closed_pool new_pool"
  using pool_wf_new by (simp add: closed_pool_def new_pool_def)

definition opened :: "LockResult \<times> os_event list \<times> CxlMemoryPool \<Rightarrow> bool" where
  "opened r = (case r of (rc, evs, pool) \<Rightarrow>
     pool_wf pool \<and> pool_shm pool \<noteq> None \<and> account_all evs {#} = pool_held pool \<and>
     pool_is_open pool = (rc = SUCCESS))"

lemma pool_held_closed: "pool_wf pool \<Longrightarrow> \<not> pool_is_open pool \<Longrightarrow> pool_held pool = {#}"
  by (auto simp: pool_held_def pool_wf_def held_def split: option.splits)

lemma pool_open_opened:
  assumes "closed_pool pool" and "os_documented os" and "pool_open os path sz c pool = Ret r"
  shows "opened r"
proof (cases "sz = 0")
  case True
  then show ?thesis
    using assms pool_held_closed by (auto simp: pool_open_def closed_pool_def opened_def)
next
  case False
  then show ?thesis
    using run_pool_open [of pool os sz path c] assms by (auto simp: closed_pool_def opened_def)
qed

lemma open_pool_opened:
  assumes "closed_pool pool" and "os_documented os" and "run sh (open_pool os config pool) m = Result r m'"
  shows "opened r"
proof (cases "dl_use_file_backed_shm config")
  case True
  then show ?thesis
    using assms pool_open_opened pool_open_file_backed_same by (simp add: open_pool_def) blast
next
  case False
  define rest where "rest = (\<lambda>(rc, evs, pool1).
      if rc \<noteq> SUCCESS then
        bind (pool_open_file_backed os (dl_shm_backing_file config) (dl_shm_size config)
                (dl_consistency_mode config) pool1) (\<lambda>(rc, evs', pool2).
          Ret (rc, evs @ evs', pool2))
      else Ret (SUCCESS, evs, pool1))"
  have "run sh (bind (pool_open os (dl_shm_device_path config) (dl_shm_size config)
      (dl_consistency_mode config) pool) rest) m = Result r m'"
    using assms(3) False by (simp add: open_pool_def rest_def)
  then obtain x m1 where x: "run sh (pool_open os (dl_shm_device_path config) (dl_shm_size config)
      (dl_consistency_mode config) pool) m = Result x m1" "run sh (rest x) m1 = Result r m'"
    by (rule run_bind_ResultE)
  obtain rc evs pool1 where xs: "x = (rc, evs, pool1)" by (metis prod_cases3)
  have "pool_open os (dl_shm_device_path config) (dl_shm_size config) (dl_consistency_mode config) pool = Ret x"
    using x(1) by (auto simp: pool_open_def Let_def split_beta split: option.splits if_splits)
  then have o: "opened (rc, evs, pool1)" using pool_open_opened [OF assms(1,2)] xs by blast
  show ?thesis
  proof (cases "rc = SUCCESS")
    case True
    then show ?thesis using x(2) xs o by (simp add: rest_def)
  next
    case False
    have "run sh (bind (pool_open_file_backed os (dl_shm_backing_file config) (dl_shm_size config)
        (dl_consistency_mode config) pool1) (\<lambda>(rc, evs', pool2). Ret (rc, evs @ evs', pool2))) m1 = Result r m'"
      using x(2) xs False by (simp add: rest_def)
    then obtain y m2 where y: "run sh (pool_open_file_backed os (dl_shm_backing_file config) (dl_shm_size config)
        (dl_consistency_mode config) pool1) m1 = Result y m2"
      "run sh ((\<lambda>(rc, evs', pool2). Ret (rc, evs @ evs', pool2)) y) m2 = Result r m'"
      by (rule run_bind_ResultE)
    have c: "closed_pool pool1" using o False by (auto simp: closed_pool_def opened_def)
    have "opened y" by (rule pool_open_opened [OF c assms(2) pool_open_file_backed_same [OF y(1)]])
    moreover have "account_all evs {#} = {#}"
      using o c pool_held_closed [of pool1] by (simp add: opened_def closed_pool_def)
    ultimately show ?thesis using y(2) by (auto simp: opened_def split: prod.splits)
  qed
qed

text \<open>Closing and deleting the pool that a system owns gives everything back.\<close>

lemma run_replace_pool:
  assumes "pred_option pool_wf (sys_pool sys)" and "run sh (replace_pool sys) m = Result evs m'"
  shows "account_all evs (sys_held sys) = {#}"
proof (cases "sys_pool sys")
  case None
  then show ?thesis using assms by (simp add: replace_pool_def sys_held_def)
next
  case (Some pool)
  then have wf: "pool_wf pool" using assms(1) by simp
  obtain evs1 pool' where c: "run sh (pool_close pool) m = Result (evs1, pool') m" "pool_wf pool'"
    "\<not> pool_is_open pool'" "account_all evs1 (pool_held pool) = {#}"
    using run_pool_close [OF wf] by blast
  have "account_all (case pool_shm pool' of None \<Rightarrow> [] | Some shm \<Rightarrow> shm_destroy shm) {#} = {#}"
  proof (cases "pool_shm pool'")
    case (Some shm)
    then have "region_wf shm" "held shm = {#}"
      using c(2,3) pool_held_closed [OF c(2,3)] by (simp_all add: pool_wf_def pool_held_def)
    then show ?thesis using Some cleanup_balanced [of shm] by (simp add: shm_destroy_def)
  qed simp
  then show ?thesis
    using assms(2) Some c by (auto simp: replace_pool_def pool_destroy_def run_bind sys_held_def)
qed

lemma sys_close_pool_result:
  assumes "sys_pool sys = Some pool" and "pool_wf pool"
    and "run sh (sys_close_pool rc evs sys) m = Result r m'"
  shows "\<exists>evs' pool'. r = (rc, evs @ evs', sys\<lparr>sys_pool := Some pool'\<rparr>) \<and> pool_wf pool' \<and>
    account_all evs' (pool_held pool) = {#} \<and> pool_held pool' = {#}"
proof -
  obtain evs' pool' where "run sh (pool_close pool) m = Result (evs', pool') m" "pool_wf pool'"
    "account_all evs' (pool_held pool) = {#}" "pool_held pool' = {#}"
    using run_pool_close [OF assms(2)] by blast
  moreover from this(1) have "r = (rc, evs @ evs', sys\<lparr>sys_pool := Some pool'\<rparr>)"
    using assms(1,3) by (simp add: sys_close_pool_def run_bind)
  ultimately show ?thesis by blast
qed

text \<open>What every path through the initialisation of the locks promises.\<close>

definition balanced :: "resource multiset \<Rightarrow> LockResult \<times> os_event list \<times> DistributedLockSystem \<Rightarrow> bool" where
  "balanced H r = (case r of (rc, evs, sys) \<Rightarrow>
     sys_wf sys \<and> account_all evs H = sys_held sys \<and> sys_initialized sys = (rc = SUCCESS) \<and>
     (rc \<noteq> SUCCESS \<longrightarrow> sys_held sys = {#}))"

lemma sys_close_pool_balanced:
  assumes "sys_pool sys = Some pool" and "pool_wf pool" and "\<not> sys_initialized sys"
    and "account_all evs H = pool_held pool" and "rc \<noteq> SUCCESS" and "\<not> sys_lock_manager_started sys"
    and "run sh (sys_close_pool rc evs sys) m = Result r m'"
  shows "balanced H r"
  using sys_close_pool_result [OF assms(1,2,7)] assms(3-6)
  by (auto simp: balanced_def sys_wf_def sys_held_def)

lemma tt_initialize_success:
  assumes "run sh (tt_initialize new_two_tier_lock n has shm alg off ml nc) m = Result (SUCCESS, tt) m'"
  shows "tt_initialized tt \<and> tt_algorithm tt \<noteq> None \<and> tt_max_locks tt = ml"
  using assms
  by (auto simp: tt_initialize_def Let_def new_two_tier_lock_def split: if_splits prod.splits elim!: run_bind_ResultE)

lemma sys_start_manager_success:
  assumes "run sh (sys_start_manager config shm alg) m = Result (SUCCESS, lm) m'"
  shows "lm_running lm"
  using assms
  by (auto simp: sys_start_manager_def lm_start_def split: if_splits prod.splits elim!: run_bind_ResultE)

lemma ll_initialize_success:
  "ll_initialize alloc mutex_init ml new_local_locks = (rc, ll) \<Longrightarrow> rc = SUCCESS \<Longrightarrow>
   ll_initialized ll \<and> ll_lock_count ll = ml"
  by (auto simp: ll_initialize_def split: if_splits)

lemma sys_initialize_manager_balanced:
  assumes "run sh (sys_initialize_manager evs as_manager shm tt ll sys) m = Result r m'"
    and "make_algorithm (dl_lock_algorithm (sys_config sys)) \<noteq> None"
    and "sys_pool sys = Some pool" and "pool_wf pool" and "pool_is_open pool" and "\<not> sys_initialized sys"
    and "\<not> sys_lock_manager_started sys"
    and "account_all evs H = pool_held pool"
    and "sys_two_tier_lock sys = Some tt" and "tt_initialized tt" and "tt_algorithm tt \<noteq> None"
    and "sys_local_locks sys = Some ll" and "ll_initialized ll" and "ll_lock_count ll = tt_max_locks tt"
  shows "balanced H r"
proof (cases as_manager)
  case False
  then show ?thesis
    using assms by (auto simp: sys_initialize_manager_def balanced_def sys_wf_def sys_held_def)
next
  case True
  obtain alg where alg: "make_algorithm (dl_lock_algorithm (sys_config sys)) = Some alg"
    using assms(2) by blast
  define rest where "rest = (\<lambda>(rc, lm).
    let sys1 = sys\<lparr>sys_lock_manager := Some lm\<rparr>
    in if rc \<noteq> SUCCESS then
         sys_close_pool rc evs (sys1\<lparr>sys_two_tier_lock := Some (tt_shutdown tt),
                                     sys_local_locks := Some (ll_destroy ll)\<rparr>)
       else Ret (SUCCESS, evs, sys1\<lparr>sys_lock_manager_started := True, sys_initialized := True\<rparr>))"
  have "run sh (bind (sys_start_manager (sys_config sys) shm alg) rest) m = Result r m'"
    using assms(1) True alg by (simp add: sys_initialize_manager_def rest_def)
  then obtain x m1 where x: "run sh (sys_start_manager (sys_config sys) shm alg) m = Result x m1"
    "run sh (rest x) m1 = Result r m'"
    by (rule run_bind_ResultE)
  obtain rc lm where xs: "x = (rc, lm)" by (cases x)
  show ?thesis
  proof (cases "rc = SUCCESS")
    case True
    then show ?thesis
      using x xs assms sys_start_manager_success
      by (auto simp: rest_def Let_def balanced_def sys_wf_def sys_held_def)
  next
    case False
    then have c: "run sh (sys_close_pool rc evs (sys\<lparr>sys_lock_manager := Some lm,
        sys_two_tier_lock := Some (tt_shutdown tt), sys_local_locks := Some (ll_destroy ll)\<rparr>)) m1 = Result r m'"
      using x(2) xs by (simp add: rest_def Let_def)
    show ?thesis
      by (rule sys_close_pool_balanced [OF _ assms(4) _ assms(8) False _ c]) (use assms in simp_all)
  qed
qed

lemma sys_initialize_locks_balanced:
  assumes "run sh (sys_initialize_locks evs alloc mutex_init as_manager shm alg sys) m = Result r m'"
    and "make_algorithm (dl_lock_algorithm (sys_config sys)) \<noteq> None"
    and "sys_pool sys = Some pool" and "pool_wf pool" and "pool_is_open pool" and "\<not> sys_initialized sys"
    and "\<not> sys_lock_manager_started sys" and "account_all evs H = pool_held pool"
  shows "balanced H r"
proof -
  obtain rc ll where ll: "ll_initialize alloc mutex_init (dl_max_locks (sys_config sys)) new_local_locks = (rc, ll)"
    by (cases "ll_initialize alloc mutex_init (dl_max_locks (sys_config sys)) new_local_locks")
  define sys1 where "sys1 = sys\<lparr>sys_algorithm := Some alg, sys_local_locks := Some ll\<rparr>"
  have f: "sys_pool sys1 = Some pool" "\<not> sys_initialized sys1" "sys_config sys1 = sys_config sys"
    "\<not> sys_lock_manager_started sys1"
    using assms by (simp_all add: sys1_def)
  show ?thesis
  proof (cases "rc = SUCCESS")
    case False
    then have "run sh (sys_close_pool rc evs sys1) m = Result r m'"
      using assms(1) ll by (simp add: sys_initialize_locks_def Let_def sys1_def)
    from sys_close_pool_balanced [OF f(1) assms(4) f(2) assms(8) False f(4) this] show ?thesis .
  next
    case True
    define rest where "rest = (\<lambda>(rc, tt).
        if rc \<noteq> SUCCESS then
          sys_close_pool rc evs (sys1\<lparr>sys_two_tier_lock := Some tt, sys_local_locks := Some (ll_destroy ll)\<rparr>)
        else
          sys_initialize_manager evs as_manager shm tt ll
            (sys1\<lparr>sys_two_tier_lock := Some tt, sys_algorithm := tt_algorithm tt\<rparr>))"
    let ?init = "tt_initialize new_two_tier_lock (sys_node_id sys) True shm (Some alg) 0
      (dl_max_locks (sys_config sys)) (dl_max_nodes (sys_config sys))"
    have "run sh (bind ?init rest) m = Result r m'"
      using assms(1) True unfolding sys_initialize_locks_def Let_def ll prod.case sys1_def rest_def by simp
    then obtain x m1 where x: "run sh ?init m = Result x m1" "run sh (rest x) m1 = Result r m'"
      by (rule run_bind_ResultE)
    obtain rc2 tt where xs: "x = (rc2, tt)" by (cases x)
    show ?thesis
    proof (cases "rc2 = SUCCESS")
      case False
      then have c: "run sh (sys_close_pool rc2 evs (sys1\<lparr>sys_two_tier_lock := Some tt,
          sys_local_locks := Some (ll_destroy ll)\<rparr>)) m1 = Result r m'"
        using x(2) xs by (simp add: rest_def)
      show ?thesis
        by (rule sys_close_pool_balanced [OF _ assms(4) _ assms(8) False _ c]) (use f in simp_all)
    next
      case True
      then have tt: "tt_initialized tt" "tt_algorithm tt \<noteq> None" "tt_max_locks tt = dl_max_locks (sys_config sys)"
        using x(1) xs tt_initialize_success by blast+
      have i: "run sh (sys_initialize_manager evs as_manager shm tt ll
          (sys1\<lparr>sys_two_tier_lock := Some tt, sys_algorithm := tt_algorithm tt\<rparr>)) m1 = Result r m'"
        using x(2) xs True by (simp add: rest_def)
      show ?thesis
        by (rule sys_initialize_manager_balanced [OF i _ _ assms(4,5) _ _ assms(8) _ tt(1,2)])
           (use f assms(2) tt(3) ll_initialize_success [OF ll \<open>rc = SUCCESS\<close>] in \<open>simp_all add: sys1_def\<close>)
    qed
  qed
qed

lemma sys_shutdown_result:
  assumes "sys_wf sys" and "run sh (sys_shutdown sys) m = Result (evs, sys') m'"
  shows "sys_wf sys' \<and> \<not> sys_initialized sys' \<and> account_all evs (sys_held sys) = sys_held sys' \<and>
    (sys_initialized sys \<longrightarrow> sys_held sys' = {#})"
proof (cases "sys_initialized sys")
  case False
  then show ?thesis using assms by (auto simp: sys_shutdown_def)
next
  case True
  define sys2 where "sys2 = (if sys_lock_manager_started sys \<and> sys_lock_manager sys \<noteq> None
                    then sys\<lparr>sys_lock_manager := map_option (\<lambda>lm. snd (lm_stop lm)) (sys_lock_manager sys),
                             sys_lock_manager_started := False\<rparr>
                    else sys)\<lparr>sys_two_tier_lock := None, sys_local_locks := None, sys_algorithm := None\<rparr>"
  have p: "sys_pool sys2 = sys_pool sys" "\<not> sys_lock_manager_started sys2"
    using assms(1) True by (auto simp: sys2_def sys_wf_def)
  have "run sh (bind (replace_pool sys2) (\<lambda>evs. Ret (evs, sys2\<lparr>sys_pool := None, sys_lock_manager := None,
      sys_initialized := False\<rparr>))) m = Result (evs, sys') m'"
    using assms(2) True unfolding sys_shutdown_def Let_def sys2_def by simp
  then obtain evs1 m1 where r: "run sh (replace_pool sys2) m = Result evs1 m1" "evs = evs1"
    "sys' = sys2\<lparr>sys_pool := None, sys_lock_manager := None, sys_initialized := False\<rparr>"
    by (auto elim!: run_bind_ResultE)
  have wf: "pred_option pool_wf (sys_pool sys2)" using assms(1) p by (simp add: sys_wf_def)
  have "account_all evs (sys_held sys) = {#}"
    using run_replace_pool [OF wf r(1)] p r(2) by (simp add: sys_held_def)
  then show ?thesis using p r(3) by (simp add: sys_wf_def sys_held_def)
qed

lemma pool_held_open: "pool_wf pool \<Longrightarrow> pool_held pool \<noteq> {#} \<longleftrightarrow> pool_is_open pool"
  by (auto simp: pool_held_def pool_wf_def held_def split: option.splits)

lemma sys_initialize_result:
  assumes "sys_wf sys" and "\<not> sys_initialized sys" and "os_documented os"
    and "run sh (sys_initialize os alloc mutex_init config as_manager sys) m = Result (rc, evs, sys1) m1"
  shows "sys_wf sys1 \<and> sys_initialized sys1 = (rc = SUCCESS) \<and>
    account_all evs (sys_held sys) = sys_held sys1 \<and>
    (rc \<noteq> SUCCESS \<longrightarrow> (sys_held sys1 \<noteq> {#}) =
      (make_algorithm (dl_lock_algorithm config) = None \<and> rc = ERROR_INVALID_PARAM \<and>
       pred_option pool_is_open (sys_pool sys1)))"
proof -
  define cont where "cont = (\<lambda>evs0 (rc, evs1, pool).
    let sys1 = sys\<lparr>sys_config := config, sys_node_id := dl_node_id config,
                   sys_is_lock_manager := as_manager, sys_pool := Some pool\<rparr>
    in if rc \<noteq> SUCCESS then Ret (rc, evs0 @ evs1, sys1)
       else case make_algorithm (dl_lock_algorithm config) of
         None \<Rightarrow> Ret (ERROR_INVALID_PARAM, evs0 @ evs1, sys1)
       | Some algorithm \<Rightarrow>
           sys_initialize_locks (evs0 @ evs1) alloc mutex_init as_manager (pool_shm pool) algorithm sys1)"
  have "run sh (bind (replace_pool sys) (\<lambda>evs0. bind (open_pool os config new_pool) (cont evs0))) m =
      Result (rc, evs, sys1) m1"
    using assms(2,4) unfolding sys_initialize_def cont_def by simp
  then obtain evs0 m2 x m3 where r: "run sh (replace_pool sys) m = Result evs0 m2"
    "run sh (open_pool os config new_pool) m2 = Result x m3" "run sh (cont evs0 x) m3 = Result (rc, evs, sys1) m1"
    by (auto elim!: run_bind_ResultE)
  obtain rc1 evs1 pool where x: "x = (rc1, evs1, pool)" by (metis prod_cases3)
  have h0: "account_all evs0 (sys_held sys) = {#}"
    by (rule run_replace_pool [OF _ r(1)]) (use assms(1) in \<open>simp add: sys_wf_def\<close>)
  have o: "opened (rc1, evs1, pool)"
    using open_pool_opened [OF closed_pool_new assms(3) r(2)] x by simp
  then have pool: "pool_wf pool" "account_all (evs0 @ evs1) (sys_held sys) = pool_held pool"
    "pool_is_open pool = (rc1 = SUCCESS)"
    using h0 by (simp_all add: opened_def)
  define sys0 where "sys0 = sys\<lparr>sys_config := config, sys_node_id := dl_node_id config,
      sys_is_lock_manager := as_manager, sys_pool := Some pool\<rparr>"
  have f: "sys_config sys0 = config" "sys_pool sys0 = Some pool" "\<not> sys_initialized sys0"
    "\<not> sys_lock_manager_started sys0" "sys_held sys0 = pool_held pool" "sys_wf sys0"
    using assms(1,2) pool(1) by (simp_all add: sys0_def sys_held_def sys_wf_def)
  consider (early) "rc = rc1" "rc1 \<noteq> SUCCESS" "sys1 = sys0" "evs = evs0 @ evs1"
    | (unknown) "rc1 = SUCCESS" "make_algorithm (dl_lock_algorithm config) = None"
        "rc = ERROR_INVALID_PARAM" "sys1 = sys0" "evs = evs0 @ evs1"
    | (locks) alg where "rc1 = SUCCESS" "make_algorithm (dl_lock_algorithm config) = Some alg"
        "run sh (sys_initialize_locks (evs0 @ evs1) alloc mutex_init as_manager (pool_shm pool) alg sys0) m3 =
          Result (rc, evs, sys1) m1"
    using r(3) unfolding x cont_def Let_def prod.case sys0_def [symmetric]
    by (auto split: if_splits option.splits)
  then show ?thesis
  proof cases
    case early
    then show ?thesis using f pool pool_held_open [OF pool(1)] by auto
  next
    case unknown
    then show ?thesis using f pool pool_held_open [OF pool(1)] by auto
  next
    case locks
    have "balanced (sys_held sys) (rc, evs, sys1)"
      by (rule sys_initialize_locks_balanced [OF locks(3) _ f(2) pool(1) _ f(3,4) pool(2)])
         (use locks pool(3) f in simp_all)
    then show ?thesis using locks(2) by (auto simp: balanced_def)
  qed
qed

text \<open>
  The resources of a system: whatever path initialisation takes, the events account exactly for the
  descriptor and the mapping that the system then holds, and the invariant of its parts is kept. If it
  fails, nothing is held any more - unless the name of the algorithm is unknown: that error return
  leaves the pool open. \<open>shutdown\<close> gives everything back.
\<close>

theorem system_resources:
  assumes "sys_wf sys" and "\<not> sys_initialized sys" and "os_documented os"
    and "run sh (sys_initialize os alloc mutex_init config as_manager sys) m = Result (rc, evs, sys1) m1"
    and "run sh1 (sys_shutdown sys1) m1 = Result (evs2, sys2) m2"
  shows "sys_wf sys1 \<and> sys_initialized sys1 = (rc = SUCCESS) \<and>
    account_all evs (sys_held sys) = sys_held sys1 \<and>
    (rc \<noteq> SUCCESS \<longrightarrow> (sys_held sys1 \<noteq> {#}) =
      (make_algorithm (dl_lock_algorithm config) = None \<and> rc = ERROR_INVALID_PARAM \<and>
       pred_option pool_is_open (sys_pool sys1))) \<and>
    sys_wf sys2 \<and> \<not> sys_initialized sys2 \<and>
    (rc = SUCCESS \<longrightarrow> account_all (evs @ evs2) (sys_held sys) = {#} \<and> sys_held sys2 = {#})"
proof -
  note i = sys_initialize_result [OF assms(1-4)]
  have s: "sys_wf sys2 \<and> \<not> sys_initialized sys2 \<and> account_all evs2 (sys_held sys1) = sys_held sys2 \<and>
      (sys_initialized sys1 \<longrightarrow> sys_held sys2 = {#})"
    by (rule sys_shutdown_result [OF _ assms(5)]) (use i in simp)
  show ?thesis using i s by auto
qed

text \<open>A concrete system: a page of file-backed memory.\<close>

definition page_region :: SharedMemoryRegion where
  "page_region = \<lparr>shm_fd = 5, shm_base = 65536, shm_size = 4096, shm_consistency = SOFTWARE_CONSISTENCY,
     shm_valid = True, shm_path = ''/dev/shm/x''\<rparr>"

definition page_config :: "string \<Rightarrow> Config" where
  "page_config name = default_config\<lparr>dl_shm_size := 4096, dl_lock_algorithm := name,
     dl_use_file_backed_shm := True, dl_shm_backing_file := ''/dev/shm/x''\<rparr>"

lemma page_config_fields [simp]:
  "dl_lock_algorithm (page_config name) = name" "dl_max_locks (page_config name) = 256"
  "dl_max_nodes (page_config name) = 16" "dl_node_id (page_config name) = 0"
  by (simp_all add: page_config_def default_config_def)

definition page_pool :: CxlMemoryPool where
  "page_pool = \<lparr>pool_shm = Some page_region, pool_consistency_mode = SOFTWARE_CONSISTENCY,
     pool_size = 4096, pool_is_open = True\<rparr>"

lemma page_shm_init:
  "shm_init one_mapping_os \<lparr>cfg_device_path = ''/dev/shm/x'', cfg_size = 4096,
     cfg_consistency = SOFTWARE_CONSISTENCY, cfg_create = True\<rparr> new_region =
   (SUCCESS, [Opened 5, Mapped 65536 4096], page_region)"
  by (simp add: shm_init_def Let_def one_mapping_os_def new_region_def map_backing_store_def
      MAP_FAILED_def is_dax_device_def sublist_Cons_right page_region_def)

lemma page_open:
  "run page_region (open_pool one_mapping_os (page_config name) new_pool) m =
   Result (SUCCESS, [Opened 5, Mapped 65536 4096], page_pool) (\<lambda>x. if unat x < 4096 then 0 else m x)"
  by (simp add: open_pool_def page_config_def default_config_def pool_open_file_backed_def new_pool_def
      Let_def page_shm_init page_pool_def get_base_address_def seq_seq prog_simps)
     (simp add: page_region_def in_bounds_def cell_of_def zero_cells_def)

theorem system_resources_witness:
  "\<exists>evs sys1 m1. run page_region (sys_initialize one_mapping_os True (\<lambda>_. True) (page_config ''ticket'') False
      new_system) (\<lambda>_. 7) = Result (ERROR_INVALID_PARAM, evs, sys1) m1 \<and>
     sys_held sys1 \<noteq> {#} \<and> account_all evs {#} = sys_held sys1"
proof -
  define sys1 where "sys1 = new_system\<lparr>sys_config := page_config ''ticket'', sys_node_id := 0,
    sys_pool := Some page_pool\<rparr>"
  have new: "sys_wf new_system" "\<not> sys_initialized new_system" "sys_held new_system = {#}"
    by (simp_all add: new_system_def sys_wf_def sys_held_def)
  have none: "make_algorithm (dl_lock_algorithm (page_config ''ticket'')) = None"
    by (simp add: make_algorithm_def)
  have i: "run page_region (sys_initialize one_mapping_os True (\<lambda>_. True) (page_config ''ticket'') False new_system)
      (\<lambda>_. 7) = Result (ERROR_INVALID_PARAM, [Opened 5, Mapped 65536 4096], sys1) (\<lambda>x. if unat x < 4096 then 0 else 7)"
    using none
    by (simp add: sys_initialize_def new_system_def replace_pool_def run_bind page_open Let_def sys1_def)
  have s: "run page_region (sys_shutdown sys1) (\<lambda>x. if unat x < 4096 then 0 else 7) =
      Result ([], sys1) (\<lambda>x. if unat x < 4096 then 0 else 7)"
    by (simp add: sys_shutdown_def sys1_def new_system_def)
  have "pred_option pool_is_open (sys_pool sys1)"
    by (simp add: sys1_def page_pool_def)
  then show ?thesis
    using system_resources [OF new(1,2) one_mapping_os_documented i s] none i new(3) by simp
qed

text \<open>
  Initialisation does not compare the size of the region with the state of the algorithm: the
  16 nodes and 1024 locks of the CAS table do not fit a page, and clearing the table runs off the mapping.
\<close>

lemma system_ignores_region_size:
  "run page_region (sys_initialize one_mapping_os True (\<lambda>_. True) (page_config ''cas'') False new_system) m = Fault"
proof -
  have "run page_region (cas_initialize \<lparr>cas_node_count = 0\<rparr> (Some page_region) 0 16) m' = Fault" for m'
    by (simp add: cas_initialize_def cas_get_state_size_def MAX_LOCK_COUNT_def MAX_NODE_COUNT_def Let_def
        offset_to_ptr_def page_region_def MAP_FAILED_def seq_def memset_zero_def in_bounds_def deref_def)
  then show ?thesis
    by (simp add: sys_initialize_def new_system_def replace_pool_def run_bind page_open Let_def
        make_algorithm_def sys_initialize_locks_def ll_initialize_def
        new_local_locks_def MAX_LOCK_COUNT_def tt_initialize_def new_two_tier_lock_def INVALID_NODE_ID_def
        alg_initialize_def new_cas_def page_pool_def list_all_iff)
qed

end
