(* ===== verification/System_Start.thy ===== *)
theory System_Start
  imports System_Resources Cas_Service Faa_Races Mcs_Service Qspin_Races
begin

text \<open>
  The state in which a successful \<open>initialize\<close> of \<open>DistributedLockSystem\<close> leaves its parts: it is
  the one that the theorems about the locks start from.
\<close>

section \<open>The state of the algorithms\<close>

definition state_fits :: "GlobalLockAlgorithm \<Rightarrow> SharedMemoryRegion \<Rightarrow> u32 \<Rightarrow> ShmOffset \<Rightarrow> bool" where
  "state_fits alg sh nc off \<longleftrightarrow>
     region_ok sh \<and> 0 < nc \<and> nc \<le> MAX_NODE_COUNT \<and>
     unat off + unat (alg_get_state_size alg nc) \<le> unat (shm_size sh)"

fun with_nodes :: "u32 \<Rightarrow> GlobalLockAlgorithm \<Rightarrow> GlobalLockAlgorithm" where
  "with_nodes nc (CasAlgorithm a) = CasAlgorithm (a\<lparr>cas_node_count := nc\<rparr>)"
| "with_nodes nc (FaaAlgorithm a) = FaaAlgorithm (a\<lparr>faa_node_count := nc\<rparr>)"
| "with_nodes nc (McsAlgorithm a) = McsAlgorithm (a\<lparr>mcs_node_count := nc\<rparr>)"
| "with_nodes nc (QspinAlgorithm a) = QspinAlgorithm (a\<lparr>qspin_node_count := nc\<rparr>)"

text \<open>The state in shared memory says that nobody holds or wants a lock.\<close>

fun fresh_state :: "GlobalLockAlgorithm \<Rightarrow> SharedMemoryRegion \<Rightarrow> u32 \<Rightarrow> ShmOffset \<Rightarrow> mem \<Rightarrow> bool" where
  "fresh_state (CasAlgorithm a) sh nc off m = cas_impl sh nc off m new_service"
| "fresh_state (FaaAlgorithm a) sh nc off m = faa_fresh nc off m"
| "fresh_state (McsAlgorithm a) sh nc off m =
     (\<forall>l < MAX_LOCK_COUNT. mcs_entry off m l =
        \<lparr>tail_node = INVALID_NODE_ID, head_node = INVALID_NODE_ID, mcs_owner = INVALID_NODE_ID\<rparr>)"
| "fresh_state (QspinAlgorithm a) sh nc off m = (\<forall>l < MAX_LOCK_COUNT. m (ecell off l 0) = 0)"

lemma run_alg_initialize:
  assumes "state_fits alg sh nc off"
  shows "\<exists>m'. run sh (alg_initialize alg (Some sh) off nc) m = Result (SUCCESS, with_nodes nc alg) m' \<and>
    fresh_state alg sh nc off m'"
proof -
  have lines: "lines_fit sh nc off" if "\<And>a. alg \<noteq> CasAlgorithm a"
    using assms that lines_state_size [of nc]
    by (cases alg) (auto simp: state_fits_def lines_fit_def alg_get_state_size_def faa_get_state_size_def
        mcs_get_state_size_def qspin_get_state_size_def)
  show ?thesis
  proof (cases alg)
    case (CasAlgorithm a)
    then have fits: "cas_fits sh nc off"
      using assms by (simp add: state_fits_def cas_fits_def alg_get_state_size_def)
    show ?thesis
      using run_cas_initialize [OF fits] cas_impl_new [OF fits] CasAlgorithm
      by (simp add: alg_initialize_def run_bind)
  next
    case (FaaAlgorithm a)
    then show ?thesis
      using run_faa_initialize [OF lines, of a m] by (auto simp: alg_initialize_def run_bind)
  next
    case (McsAlgorithm a)
    then show ?thesis
      using run_mcs_initialize [OF lines, of a m] by (fastforce simp: alg_initialize_def run_bind)
  next
    case (QspinAlgorithm a)
    then show ?thesis
      using run_qspin_initialize [OF lines, of a m] by (auto simp: alg_initialize_def run_bind)
  qed
qed

lemma with_nodes_idem: "with_nodes nc (with_nodes nc alg) = with_nodes nc alg"
  by (cases alg) simp_all

section \<open>Initialisation\<close>

lemma make_algorithm_nodes: "make_algorithm name = Some alg \<Longrightarrow> alg \<in> {new_cas, new_faa, new_mcs, new_qspin}"
  by (auto simp: make_algorithm_def split: if_splits)

lemma open_pool_file_backed:
  assumes "dl_use_file_backed_shm config" and "os_documented os"
    and "shm_init os \<lparr>cfg_device_path = dl_shm_backing_file config, cfg_size = dl_shm_size config,
      cfg_consistency = dl_consistency_mode config, cfg_create = True\<rparr> new_region = (SUCCESS, evs, sh)"
  shows "\<exists>pool m'. run sh (open_pool os config new_pool) m = Result (SUCCESS, evs, pool) m' \<and> pool_shm pool = Some sh"
proof -
  have sz: "dl_shm_size config \<noteq> 0" using assms(3) by (auto simp: shm_init_def)
  have "region_wf new_region" by (simp add: region_wf_def new_region_def)
  from shm_init_cases [OF this assms(2), of "\<lparr>cfg_device_path = dl_shm_backing_file config,
    cfg_size = dl_shm_size config, cfg_consistency = dl_consistency_mode config, cfg_create = True\<rparr>"]
  have sh: "shm_valid sh" "shm_size sh = dl_shm_size config"
    using assms(3) sz by simp_all
  have "in_bounds sh (shm_base sh) (unat (dl_shm_size config))"
    using zero_base_cells(1) [OF sh(1)] sh(2) by simp
  then show ?thesis
    using assms(1,3) sh sz
    by (simp add: open_pool_def pool_open_file_backed_def new_pool_def Let_def get_base_address_def seq_seq
        prog_simps)
qed

lemma run_tt_initialize:
  assumes "state_fits alg sh nc 0" and "n \<noteq> INVALID_NODE_ID" and "0 < ml" and "ml \<le> MAX_LOCK_COUNT"
  shows "\<exists>tt m'. run sh (tt_initialize new_two_tier_lock n True (Some sh) (Some alg) 0 ml nc) m =
      Result (SUCCESS, tt) m' \<and> fresh_state alg sh nc 0 m' \<and>
    client_lock (with_nodes nc alg) sh nc 0 n tt \<and> tt_initialized tt \<and> tt_max_locks tt = ml"
proof -
  obtain m' where "run sh (alg_initialize alg (Some sh) 0 nc) m = Result (SUCCESS, with_nodes nc alg) m'"
    "fresh_state alg sh nc 0 m'"
    using run_alg_initialize [OF assms(1)] by blast
  moreover have "0 < nc" using assms(1) by (simp add: state_fits_def)
  ultimately show ?thesis
    using assms(2-4)
    by (simp add: tt_initialize_def Let_def new_two_tier_lock_def run_bind client_lock_def not_less word_gt_0)
qed

lemma run_sys_start_manager:
  assumes "state_fits alg sh (dl_max_nodes config) 0" and "0 < dl_max_locks config"
    and "dl_max_locks config \<le> MAX_LOCK_COUNT"
  shows "\<exists>lm m'. run sh (sys_start_manager config (Some sh) alg) m = Result (SUCCESS, lm) m' \<and>
    fresh_state alg sh (dl_max_nodes config) 0 m' \<and> lm_running lm \<and>
    manager_ready (with_nodes (dl_max_nodes config) alg) sh (dl_max_nodes config) 0 lm \<and> lm_max_locks lm = dl_max_locks config"
proof -
  obtain m' where "run sh (alg_initialize alg (Some sh) 0 (dl_max_nodes config)) m =
      Result (SUCCESS, with_nodes (dl_max_nodes config) alg) m'" "fresh_state alg sh (dl_max_nodes config) 0 m'"
    using run_alg_initialize [OF assms(1)] by blast
  moreover have "0 < dl_max_nodes config" "dl_max_nodes config \<le> MAX_NODE_COUNT"
    using assms(1) by (simp_all add: state_fits_def)
  ultimately show ?thesis
    using assms(2,3)
    by (simp add: sys_start_manager_def lm_initialize_def Let_def new_lock_manager_def run_bind manager_ready_def
        not_less word_gt_0 lm_acquire_manager_role_def lm_start_def)
qed

lemma sys_initialize_ready:
  assumes "make_algorithm (dl_lock_algorithm config) = Some alg" and "dl_use_file_backed_shm config"
    and "shm_init os \<lparr>cfg_device_path = dl_shm_backing_file config, cfg_size = dl_shm_size config,
      cfg_consistency = dl_consistency_mode config, cfg_create = True\<rparr> new_region = (SUCCESS, evs, sh)"
    and "os_documented os" and "state_fits alg sh (dl_max_nodes config) 0"
    and "0 < dl_max_locks config" and "dl_max_locks config \<le> MAX_LOCK_COUNT"
    and "dl_node_id config \<noteq> INVALID_NODE_ID"
  shows "\<exists>sys tt ll m'.
    run sh (sys_initialize os True (\<lambda>_. True) config as_manager new_system) m = Result (SUCCESS, evs, sys) m' \<and>
    fresh_state alg sh (dl_max_nodes config) 0 m' \<and>
    sys_initialized sys \<and> sys_two_tier_lock sys = Some tt \<and> sys_local_locks sys = Some ll \<and>
    client_lock (with_nodes (dl_max_nodes config) alg) sh (dl_max_nodes config) 0 (dl_node_id config) tt \<and>
    tt_initialized tt \<and> tt_max_locks tt = dl_max_locks config \<and>
    fresh_locks ll \<and> ll_initialized ll \<and> ll_lock_count ll = dl_max_locks config \<and>
    (if as_manager then
       \<exists>lm. sys_lock_manager sys = Some lm \<and> lm_running lm \<and>
         manager_ready (with_nodes (dl_max_nodes config) alg) sh (dl_max_nodes config) 0 lm \<and>
         lm_max_locks lm = dl_max_locks config
     else sys_lock_manager sys = None)"
proof -
  let ?nc = "dl_max_nodes config" and ?ml = "dl_max_locks config"
  obtain pool m0 where pool: "run sh (open_pool os config new_pool) m = Result (SUCCESS, evs, pool) m0"
    "pool_shm pool = Some sh"
    using open_pool_file_backed [OF assms(2,4,3)] by blast
  obtain tt m1 where tt: "run sh (tt_initialize new_two_tier_lock (dl_node_id config) True (Some sh) (Some alg) 0 ?ml ?nc) m0 =
      Result (SUCCESS, tt) m1" "fresh_state alg sh ?nc 0 m1"
    "client_lock (with_nodes ?nc alg) sh ?nc 0 (dl_node_id config) tt" "tt_initialized tt" "tt_max_locks tt = ?ml"
    using run_tt_initialize [OF assms(5,8,6,7)] by blast
  obtain lm m2 where lm: "run sh (sys_start_manager config (Some sh) alg) m1 = Result (SUCCESS, lm) m2"
    "fresh_state alg sh ?nc 0 m2" "lm_running lm" "manager_ready (with_nodes ?nc alg) sh ?nc 0 lm" "lm_max_locks lm = ?ml"
    using run_sys_start_manager [OF assms(5,6,7)] by blast
  define ll where "ll = \<lparr>ll_mutexes = replicate (unat ?ml) None, ll_lock_count = ?ml, ll_initialized = True\<rparr>"
  have li: "ll_initialize True (\<lambda>_. True) ?ml new_local_locks = (SUCCESS, ll)"
    using assms(6,7) by (simp add: ll_initialize_def new_local_locks_def ll_def list_all_iff not_less word_gt_0)
  have ll: "fresh_locks ll" "ll_initialized ll" "ll_lock_count ll = ?ml"
    using assms(6,7) by (simp_all add: ll_def ll_wf_def fresh_locks_def list_all_iff)
  define sys1 where "sys1 = new_system\<lparr>sys_config := config, sys_node_id := dl_node_id config,
    sys_is_lock_manager := as_manager, sys_pool := Some pool, sys_algorithm := tt_algorithm tt,
    sys_local_locks := Some ll, sys_two_tier_lock := Some tt\<rparr>"
  have "run sh (sys_initialize os True (\<lambda>_. True) config as_manager new_system) m =
      run sh (sys_initialize_manager evs as_manager (Some sh) tt ll sys1) m1"
    using assms(1) pool tt(1) li
    by (simp add: sys_initialize_def replace_pool_def run_bind Let_def sys_initialize_locks_def sys1_def new_system_def)
  then show ?thesis
    using assms(1) tt lm ll
    by (cases as_manager)
       (auto simp: sys_initialize_manager_def run_bind Let_def sys1_def new_system_def)
qed

text \<open>
  C15. Initialisation of the system on a file-backed pool succeeds whenever the region is as large as the algorithm
  says it needs, the limits are in range, the file can be mapped and the allocations succeed; it leaves the two-tier lock, the
  local locks and, on the manager node, the running lock manager in the states that the theorems about them
  assume, with an algorithm state in which no lock is held or wanted.
\<close>

theorem system_initialize_ready:
  assumes "make_algorithm (dl_lock_algorithm config) = Some alg" and "dl_use_file_backed_shm config"
    and "shm_init os \<lparr>cfg_device_path = dl_shm_backing_file config, cfg_size = dl_shm_size config,
      cfg_consistency = dl_consistency_mode config, cfg_create = True\<rparr> new_region = (SUCCESS, evs, sh)"
    and "os_documented os" and "state_fits alg sh (dl_max_nodes config) 0"
    and "0 < dl_max_locks config" and "dl_max_locks config \<le> MAX_LOCK_COUNT"
    and "dl_node_id config \<noteq> INVALID_NODE_ID"
  shows "\<exists>sys tt ll m'.
    run sh (sys_initialize os True (\<lambda>_. True) config as_manager new_system) m = Result (SUCCESS, evs, sys) m' \<and>
    fresh_state alg sh (dl_max_nodes config) 0 m' \<and>
    sys_initialized sys \<and> sys_two_tier_lock sys = Some tt \<and> sys_local_locks sys = Some ll \<and>
    client_lock (with_nodes (dl_max_nodes config) alg) sh (dl_max_nodes config) 0 (dl_node_id config) tt \<and>
    tt_initialized tt \<and> tt_max_locks tt = dl_max_locks config \<and>
    ll_wf ll \<and> ll_initialized ll \<and> ll_lock_count ll = dl_max_locks config \<and>
    (if as_manager then
       \<exists>lm. sys_lock_manager sys = Some lm \<and> lm_running lm \<and>
         manager_ready (with_nodes (dl_max_nodes config) alg) sh (dl_max_nodes config) 0 lm \<and>
         lm_max_locks lm = dl_max_locks config
     else sys_lock_manager sys = None)"
  using sys_initialize_ready [OF assms] unfolding fresh_locks_def by blast

definition megabyte_os :: os where
  "megabyte_os = one_mapping_os\<lparr>os_open := (\<lambda>_ _. 3)\<rparr>"

definition megabyte_config :: Config where
  "megabyte_config = default_config\<lparr>dl_shm_size := 1048576, dl_lock_algorithm := ''qspinlock'',
     dl_consistency_mode := HARDWARE_CONSISTENCY, dl_use_file_backed_shm := True,
     dl_shm_backing_file := ''/dev/shm/cxl''\<rparr>"

theorem system_initialize_ready_witness:
  "\<exists>sys tt ll lm m'.
    run demo_region (sys_initialize megabyte_os True (\<lambda>_. True) megabyte_config True new_system) (\<lambda>_. 9) =
      Result (SUCCESS, [Opened 3, Mapped 65536 1048576], sys) m' \<and>
    sys_two_tier_lock sys = Some tt \<and> sys_local_locks sys = Some ll \<and> sys_lock_manager sys = Some lm \<and>
    client_lock (QspinAlgorithm \<lparr>qspin_node_count = 16\<rparr>) demo_region 16 0 0 tt \<and>
    manager_ready (QspinAlgorithm \<lparr>qspin_node_count = 16\<rparr>) demo_region 16 0 lm"
proof -
  have f: "make_algorithm (dl_lock_algorithm megabyte_config) = Some new_qspin"
    "dl_use_file_backed_shm megabyte_config" "dl_max_nodes megabyte_config = 16"
    "dl_max_locks megabyte_config = 256" "dl_node_id megabyte_config = 0"
    by (simp_all add: megabyte_config_def default_config_def make_algorithm_def)
  have i: "shm_init megabyte_os \<lparr>cfg_device_path = dl_shm_backing_file megabyte_config,
      cfg_size = dl_shm_size megabyte_config, cfg_consistency = dl_consistency_mode megabyte_config,
      cfg_create = True\<rparr> new_region = (SUCCESS, [Opened 3, Mapped 65536 1048576], demo_region)"
    by (simp add: shm_init_def Let_def megabyte_os_def one_mapping_os_def new_region_def map_backing_store_def
        MAP_FAILED_def is_dax_device_def sublist_Cons_right megabyte_config_def demo_region_def)
  have os: "os_documented megabyte_os"
    by (simp add: os_documented_def megabyte_os_def one_mapping_os_def)
  have fits: "state_fits new_qspin demo_region 16 0"
    by (simp add: state_fits_def new_qspin_def alg_get_state_size_def qspin_get_state_size_def
        MAX_LOCK_COUNT_def MAX_NODE_COUNT_def)
  show ?thesis
    using system_initialize_ready [OF f(1,2) i os, of True "\<lambda>_. 9"] fits
    by (auto simp: f MAX_LOCK_COUNT_def INVALID_NODE_ID_def new_qspin_def)
qed

end
