(* ===== verification/Manager_Session.thy ===== *)
theory Manager_Session
  imports Wait_Freedom System_Start
begin

text \<open>
  \<open>LockManager\<close> (\<open>src/lock_manager.cpp\<close>) as an object that answers its public calls, in any order: the invariant of its
  members, of its worker thread and of its statistics, and that its main loop ends once it is told to stop.
\<close>

section \<open>The statistics\<close>

text \<open>
  The worker counts a grant, and a scan, in one critical section each (\<open>stats_mutex_\<close>); other threads reset the counters or
  copy them in a critical section of theirs. So what \<open>get_stats\<close> returns is the result of some sequence of these sections.
\<close>

datatype stats_section = CountGrant LockId | EndScan bool | ResetStats

fun apply_section :: "stats_section \<Rightarrow> Stats \<Rightarrow> Stats" where
  "apply_section (CountGrant lid) st = count_grant lid st"
| "apply_section (EndScan any_work) st =
     (let st1 = st\<lparr>scan_cycles := scan_cycles st + 1\<rparr>
      in if \<not> any_work then st1\<lparr>idle_cycles := idle_cycles st1 + 1\<rparr> else st1)"
| "apply_section ResetStats st = new_stats"

definition stats_ok :: "Stats \<Rightarrow> bool" where
  "stats_ok st \<longleftrightarrow> length (grants_by_lock st) = unat MAX_LOCK_COUNT \<and> grants_total st = sum_list (grants_by_lock st)"

lemma stats_ok_new: "stats_ok new_stats"
  by (simp add: stats_ok_def new_stats_def sum_list_replicate)

lemma sum_list_increment:
  "i < length xs \<Longrightarrow> sum_list (xs[i := xs ! i + 1]) = sum_list xs + (1 :: u64)"
proof (induction xs arbitrary: i)
  case (Cons x xs)
  then show ?case by (cases i) (simp_all add: ac_simps)
qed simp

lemma stats_ok_count:
  assumes "stats_ok st" and "l < MAX_LOCK_COUNT"
  shows "stats_ok (count_grant l st)"
  using assms by (simp add: stats_ok_def count_grant_def sum_list_increment word_less_nat_alt)

lemma stats_ok_section: "stats_ok st \<Longrightarrow> (\<And>l. e = CountGrant l \<Longrightarrow> l < MAX_LOCK_COUNT) \<Longrightarrow> stats_ok (apply_section e st)"
proof (cases e)
  case (EndScan w)
  then show "stats_ok st \<Longrightarrow> ?thesis" by (simp add: stats_ok_def Let_def)
qed (auto simp: stats_ok_new stats_ok_count)

text \<open>What a scan does to the statistics: it counts a grant for some of the locks, in order, then the scan.\<close>

lemma scan_locks_counts:
  assumes "run sh (scan_locks alg shm off nc ls w st) m = Result (w', st') m'"
  shows "\<exists>gs. set gs \<subseteq> set ls \<and> w' = (w \<or> gs \<noteq> []) \<and> st' = fold count_grant gs st"
  using assms
proof (induction ls arbitrary: w st m)
  case Nil
  then show ?case by simp
next
  case (Cons l ls)
  have skip: ?case if "run sh (scan_locks alg shm off nc ls w st) m1 = Result (w', st') m'" for m1
    using Cons.IH [OF that] by auto
  have grant: ?case if g: "run sh (scan_locks alg shm off nc ls True (count_grant l st)) m1 = Result (w', st') m'" for m1
  proof -
    from Cons.IH [OF g] obtain gs where "set gs \<subseteq> set ls" "w'" "st' = fold count_grant gs (count_grant l st)" by auto
    then show ?thesis by (intro exI [of _ "l # gs"]) auto
  qed
  from Cons.prems have "(\<exists>m1. run sh (scan_locks alg shm off nc ls True (count_grant l st)) m1 = Result (w', st') m') \<or>
      (\<exists>m1. run sh (scan_locks alg shm off nc ls w st) m1 = Result (w', st') m')"
    by (fastforce elim!: run_bind_ResultE split: if_splits)
  with skip grant show ?case by blast
qed

lemma single_scan_counts:
  assumes "run sh (run_single_scan lm) m = Result lm' m'"
  shows "\<exists>gs. (\<forall>l \<in> set gs. l < lm_max_locks lm) \<and>
    lm' = lm\<lparr>lm_stats := fold apply_section (map CountGrant gs @ [EndScan (gs \<noteq> [])]) (lm_stats lm)\<rparr>"
proof (cases "lm_algorithm lm")
  case None
  then show ?thesis using assms by (intro exI [of _ "[]"]) (auto simp: run_single_scan_def Let_def split: if_splits)
next
  case (Some alg)
  then obtain w st where scan: "run sh (scan_locks alg (lm_shm lm) (lm_state_offset lm) (lm_node_count lm)
        (u32_upto (lm_max_locks lm)) False (lm_stats lm)) m = Result (w, st) m'"
      and lm': "lm' = lm\<lparr>lm_stats := apply_section (EndScan w) st\<rparr>"
    using assms by (auto simp: run_single_scan_def Let_def elim!: run_bind_ResultE)
  obtain gs where gs: "set gs \<subseteq> set (u32_upto (lm_max_locks lm))" "w = (gs \<noteq> [])" "st = fold count_grant gs (lm_stats lm)"
    using scan_locks_counts [OF scan] by auto
  have "fold apply_section (map CountGrant gs) st0 = fold count_grant gs st0" for st0
    by (induction gs arbitrary: st0) simp_all
  then show ?thesis using gs lm' by (intro exI [of _ gs]) auto
qed

section \<open>The public interface\<close>

datatype manager_call =
    InitializeManager "SharedMemoryRegion option" "GlobalLockAlgorithm option" u32 u32 u32
  | StartManager
  | StopManager
  | RunLoop nat "nat \<Rightarrow> bool"
  | RunSingleScan
  | IsRunning
  | ReadStats
  | ClearStats
  | ReadAlgorithmName

datatype manager_reply = Done | Returned LockResult | Answer bool | Counters Stats | Text string

fun manager_answers :: "manager_call \<Rightarrow> LockManager \<Rightarrow> (manager_reply \<times> LockManager) prog" where
  "manager_answers (InitializeManager shm algorithm max_locks node_count scan_interval_us) lm =
     bind (lm_initialize lm shm algorithm max_locks node_count scan_interval_us) (\<lambda>(rc, lm'). Ret (Returned rc, lm'))"
| "manager_answers StartManager lm = (case lm_start lm of (rc, lm') \<Rightarrow> Ret (Returned rc, lm'))"
| "manager_answers StopManager lm = (case lm_stop lm of (rc, lm') \<Rightarrow> Ret (Returned rc, lm'))"
| "manager_answers (RunLoop fuel stop) lm = bind (lm_run fuel stop 0 lm) (\<lambda>lm'. Ret (Done, lm'))"
| "manager_answers RunSingleScan lm = bind (run_single_scan lm) (\<lambda>lm'. Ret (Done, lm'))"
| "manager_answers IsRunning lm = Ret (Answer (lm_is_running lm), lm)"
| "manager_answers ReadStats lm = Ret (Counters (lm_get_stats lm), lm)"
| "manager_answers ClearStats lm = Ret (Done, lm_reset_stats lm)"
| "manager_answers ReadAlgorithmName lm = Ret (Text (lm_get_algorithm_name lm), lm)"

fun run_manager_calls ::
  "SharedMemoryRegion \<Rightarrow> manager_call list \<Rightarrow> LockManager \<Rightarrow> mem \<Rightarrow> (manager_reply list \<times> LockManager) outcome"
where
  "run_manager_calls sh [] lm m = Result ([], lm) m"
| "run_manager_calls sh (c # cs) lm m =
     (case run sh (manager_answers c lm) m of
        Result (r, lm1) m1 \<Rightarrow>
          (case run_manager_calls sh cs lm1 m1 of Result (rs, lm2) m2 \<Rightarrow> Result (r # rs, lm2) m2 | Fault \<Rightarrow> Fault | NoFuel \<Rightarrow> NoFuel)
      | Fault \<Rightarrow> Fault
      | NoFuel \<Rightarrow> NoFuel)"

text \<open>
  The invariant. An initialised manager has its region, its algorithm and limits in range; only an initialised manager runs;
  the worker thread exists exactly while it runs, so neither \<open>start\<close> nor the destructor ever destroys a \<open>std::thread\<close> that is joinable.
\<close>

definition manager_wf :: "LockManager \<Rightarrow> bool" where
  "manager_wf lm \<longleftrightarrow>
     (lm_algorithm lm = None \<longrightarrow> lm_max_locks lm = 0) \<and> lm_max_locks lm \<le> MAX_LOCK_COUNT \<and> lm_node_count lm \<le> MAX_NODE_COUNT \<and>
     (lm_initialized lm \<longrightarrow> lm_algorithm lm \<noteq> None \<and> lm_shm lm \<noteq> None \<and> 0 < lm_max_locks lm \<and> 0 < lm_node_count lm) \<and>
     (lm_is_manager lm \<longleftrightarrow> lm_initialized lm) \<and> (lm_running lm \<longrightarrow> lm_initialized lm) \<and>
     (lm_worker_joinable lm \<longleftrightarrow> lm_running lm) \<and> stats_ok (lm_stats lm)"

lemma manager_wf_new: "manager_wf new_lock_manager"
  by (simp add: manager_wf_def new_lock_manager_def stats_ok_new)

lemma manager_wf_initialize:
  assumes "manager_wf lm" and "run sh (lm_initialize lm shm alg ml nc iv) m = Result (rc, lm') m'"
  shows "manager_wf lm'"
  using assms
  by (auto simp: lm_initialize_def manager_wf_def Let_def lm_acquire_manager_role_def not_less word_gt_0
      split: if_splits elim!: run_bind_ResultE)

lemma manager_wf_scan:
  assumes "manager_wf lm" and "run sh (run_single_scan lm) m = Result lm' m'"
  shows "manager_wf lm'"
proof -
  obtain gs where gs: "\<forall>l \<in> set gs. l < lm_max_locks lm"
      "lm' = lm\<lparr>lm_stats := fold apply_section (map CountGrant gs @ [EndScan (gs \<noteq> [])]) (lm_stats lm)\<rparr>"
    using single_scan_counts [OF assms(2)] by blast
  have ok: "stats_ok (fold apply_section es st)" if "stats_ok st" "\<forall>e \<in> set es. \<forall>l. e = CountGrant l \<longrightarrow> l < MAX_LOCK_COUNT" for es st
    using that by (induction es arbitrary: st) (auto intro: stats_ok_section)
  have "lm_max_locks lm \<le> MAX_LOCK_COUNT" "stats_ok (lm_stats lm)" using assms(1) by (simp_all add: manager_wf_def)
  then have "stats_ok (fold apply_section (map CountGrant gs @ [EndScan (gs \<noteq> [])]) (lm_stats lm))"
    using gs(1) by (intro ok) (auto intro: order.strict_trans2)
  then have "stats_ok (lm_stats lm')" using gs(2) by simp
  then show ?thesis using assms(1) gs(2) by (simp add: manager_wf_def)
qed

lemma manager_wf_run:
  "manager_wf lm \<Longrightarrow> run sh (lm_run fuel stop i lm) m = Result lm' m' \<Longrightarrow> manager_wf lm'"
  by (induction fuel arbitrary: i lm m) (auto elim!: run_bind_ResultE split: if_splits dest: manager_wf_scan)

lemma manager_wf_start:
  "manager_wf lm \<Longrightarrow> lm_start lm = (rc, lm') \<Longrightarrow> manager_wf lm'"
  "manager_wf lm \<Longrightarrow> lm_stop lm = (rc, lm') \<Longrightarrow> manager_wf lm'"
  "manager_wf lm \<Longrightarrow> manager_wf (lm_reset_stats lm)"
  by (auto simp: lm_start_def lm_stop_def lm_reset_stats_def manager_wf_def stats_ok_new split: if_splits)

lemma manager_wf_call:
  assumes "manager_wf lm" and "run sh (manager_answers c lm) m = Result (r, lm') m'"
  shows "manager_wf lm'"
  using assms manager_wf_initialize [OF assms(1)] manager_wf_start [OF assms(1)] manager_wf_run [OF assms(1)]
    manager_wf_scan [OF assms(1)]
  by (cases c) (auto elim!: run_bind_ResultE split: prod.splits)

lemma manager_wf_calls:
  assumes "manager_wf lm" and "run_manager_calls sh cs lm m = Result (rs, lm') m'"
  shows "manager_wf lm'"
  using assms
proof (induction cs arbitrary: lm m rs)
  case (Cons c cs)
  then obtain r lm1 m1 rs1 where "run sh (manager_answers c lm) m = Result (r, lm1) m1"
      "run_manager_calls sh cs lm1 m1 = Result (rs1, lm') m'"
    by (auto split: outcome.splits)
  then show ?case using Cons.IH manager_wf_call [OF Cons.prems(1)] by blast
qed simp

text \<open>
  C31. The lock manager as an object: after any sequence of its public calls on a new manager, with any arguments and any memory, it
  runs only if it has been initialised, it has a worker thread exactly while it runs (and none after its destructor), an initialised
  manager has between 1 and \<open>MAX_LOCK_COUNT\<close> locks and between 1 and \<open>MAX_NODE_COUNT\<close> nodes, a scan stays inside
  \<open>grants_by_lock\<close>, and the total number of grants is the sum of the numbers per lock.
\<close>

theorem lock_manager_invariant:
  assumes "run_manager_calls sh cs new_lock_manager m = Result (rs, lm) m'"
  shows "(lm_running lm \<longrightarrow> lm_initialized lm \<and> lm_algorithm lm \<noteq> None \<and> lm_shm lm \<noteq> None) \<and>
    (lm_worker_joinable lm \<longleftrightarrow> lm_running lm) \<and> \<not> lm_worker_joinable (lm_destroy lm) \<and>
    (lm_initialized lm \<longrightarrow> 0 < lm_max_locks lm \<and> lm_max_locks lm \<le> MAX_LOCK_COUNT \<and>
       0 < lm_node_count lm \<and> lm_node_count lm \<le> MAX_NODE_COUNT) \<and>
    unat (lm_max_locks lm) \<le> length (grants_by_lock (lm_stats lm)) \<and>
    grants_total (lm_stats lm) = sum_list (grants_by_lock (lm_stats lm))"
proof -
  have "manager_wf lm" by (rule manager_wf_calls [OF manager_wf_new assms])
  then show ?thesis
    by (auto simp: manager_wf_def stats_ok_def lm_destroy_def lm_stop_def word_le_nat_alt)
qed

theorem lock_manager_invariant_witness:
  "\<exists>lm m'. run_manager_calls demo_region
      [InitializeManager (Some demo_region) (Some new_cas) 1 2 100, StartManager, StartManager, StopManager, StopManager] new_lock_manager
      (\<lambda>_. 9) = Result ([Returned SUCCESS, Returned SUCCESS, Returned ERROR_UNKNOWN, Returned SUCCESS,
        Returned ERROR_LOCK_NOT_INITIALIZED], lm) m' \<and> lm_initialized lm \<and> \<not> lm_worker_joinable (lm_destroy lm)"
proof -
  have fits: "cas_fits demo_region 2 0" by (simp add: demo_cas_fits MAX_NODE_COUNT_def)
  obtain lm m' where r: "run_manager_calls demo_region
      [InitializeManager (Some demo_region) (Some new_cas) 1 2 100, StartManager, StartManager, StopManager, StopManager] new_lock_manager
      (\<lambda>_. 9) = Result ([Returned SUCCESS, Returned SUCCESS, Returned ERROR_UNKNOWN, Returned SUCCESS,
        Returned ERROR_LOCK_NOT_INITIALIZED], lm) m'" "lm_initialized lm"
    using run_cas_initialize [OF fits]
    by (simp add: lm_initialize_def new_lock_manager_def alg_initialize_def new_cas_def run_bind Let_def
        lm_acquire_manager_role_def lm_start_def lm_stop_def MAX_LOCK_COUNT_def MAX_NODE_COUNT_def)
  with lock_manager_invariant [OF r(1)] show ?thesis by blast
qed

section \<open>The main loop\<close>

text \<open>
  C30. The worker ends: once \<open>stop\<close> has set the flag, which the loop reads before each scan, \<open>run\<close> returns after finitely many
  accesses of its own, whatever the nodes write meanwhile, under all four algorithms; so \<open>stop\<close>, which joins the worker, returns.
\<close>

theorem manager_loop_ends:
  assumes "stop (i + k)" and "k < fuel"
  shows "wait_free (lm_run fuel stop i lm)"
  using assms
proof (induction fuel arbitrary: i k lm)
  case (Suc fuel)
  show ?case
  proof (cases k)
    case 0
    then show ?thesis using Suc.prems by simp
  next
    case (Suc k')
    then have "wait_free (lm_run fuel stop (Suc i) lm')" for lm'
      using Suc.prems by (intro Suc.IH [of "Suc i" k']) simp_all
    then show ?thesis by (auto intro!: wait_free_bind run_single_scan_wait_free)
  qed
qed simp

theorem manager_loop_ends_witness: "wait_free (lm_run 4 (\<lambda>i. i = 3) 0 (demo_manager new_qspin))"
  using manager_loop_ends [of "\<lambda>i. i = 3" 0 3 4] by simp

end
