(* ===== verification/Thread_System.thy ===== *)
theory Thread_System
  imports Interleave
begin

text \<open>
  The threads of all nodes. In \<open>Interleave\<close> a client is a node and a lock; here the threads themselves call
  \<open>TwoTierLock::acquire\<close>, \<open>try_acquire\<close> and \<open>release\<close> (\<open>src/two_tier_lock.cpp\<close>): they take and give back the local
  mutexes of their node's \<open>LocalLockArray\<close> and between the two work on shared memory, access by access, interleaved with the
  threads of their own node, those of the other nodes and the lock manager. The theory proves that the clients are an exact
  abstraction of the threads, that a call that runs alone is what the functions of \<open>Two_Tier_Lock\<close> compute, and from it
  the mutual exclusion of threads.
\<close>

section \<open>States and steps\<close>

text \<open>
  A thread is outside the lock functions, with the result of its last call; or in the global part of an acquisition; or in the
  global part of a release. \<open>owned\<close> are the locks whose acquisition has returned \<open>SUCCESS\<close> and that the thread has not
  released since. A thread that is blocked in a local mutex does not move.
\<close>

datatype activity =
    Ready "LockResult option"
  | Asking LockId "LockResult prog"
  | Giving LockId "LockResult prog"

record thread_view =
  activity :: activity
  owned :: "LockId set"

record 'm threads =
  memory :: mem
  locals :: "NodeId \<Rightarrow> LocalLockArray"
  threads :: "NodeId \<Rightarrow> thread \<Rightarrow> thread_view"
  scanner :: "'m prog"

text \<open>
  The steps of one thread: its own view, the local locks of its node and the memory before and after. A thread may ask for any lock at
  any time, also for one that it owns. It releases only locks that it owns: that is a discipline of the callers, not a check of the
  code, whose \<open>release\<close> works on shared memory before it asks the mutex. Without it exclusion fails
  (\<open>Two_Tier_Properties\<close>); the system with such releases is \<open>loose_step\<close> in \<open>Thread_Calls\<close>.
\<close>

inductive thread_move ::
  "(NodeId \<times> LockId, 'm) protocol \<Rightarrow> NodeId \<Rightarrow> thread \<Rightarrow> thread_view \<Rightarrow> LocalLockArray \<Rightarrow> mem \<Rightarrow>
   thread_view \<Rightarrow> LocalLockArray \<Rightarrow> mem \<Rightarrow> bool"
  for P :: "(NodeId \<times> LockId, 'm) protocol" and n :: NodeId and t :: thread
where
  refused: "activity v = Ready r \<Longrightarrow> ll_acquire t l ll = Returns rc ll' \<or> ll_try_acquire t l ll = Some (rc, ll') \<Longrightarrow> rc \<noteq> SUCCESS \<Longrightarrow>
     thread_move P n t v ll m (v\<lparr>activity := Ready (Some rc)\<rparr>) ll' m"
| locked: "activity v = Ready r \<Longrightarrow> ll_acquire t l ll = Returns SUCCESS ll' \<or> ll_try_acquire t l ll = Some (SUCCESS, ll') \<Longrightarrow>
     acquisition P (n, l) p \<Longrightarrow> thread_move P n t v ll m (v\<lparr>activity := Asking l p\<rparr>) ll' m"
| ask_access: "activity v = Asking l p \<Longrightarrow> pstep (region_of P (n, l)) p m = (p', m') \<Longrightarrow>
     thread_move P n t v ll m (v\<lparr>activity := Asking l p'\<rparr>) ll m'"
| granted: "activity v = Asking l (Ret SUCCESS) \<Longrightarrow>
     thread_move P n t v ll m \<lparr>activity = Ready (Some SUCCESS), owned = insert l (owned v)\<rparr> ll m"
| failed: "activity v = Asking l (Ret rc) \<Longrightarrow> rc \<noteq> SUCCESS \<Longrightarrow> ll_release t l ll = Some (rc2, ll') \<Longrightarrow>
     thread_move P n t v ll m (v\<lparr>activity := Ready (Some rc)\<rparr>) ll' m"
| giving: "activity v = Ready r \<Longrightarrow> l \<in> owned v \<Longrightarrow> release P (n, l) p \<Longrightarrow>
     thread_move P n t v ll m (v\<lparr>activity := Giving l p\<rparr>) ll m"
| give_access: "activity v = Giving l p \<Longrightarrow> pstep (region_of P (n, l)) p m = (p', m') \<Longrightarrow>
     thread_move P n t v ll m (v\<lparr>activity := Giving l p'\<rparr>) ll m'"
| given: "activity v = Giving l (Ret rc) \<Longrightarrow> ll_release t l ll = Some (rc2, ll') \<Longrightarrow>
     thread_move P n t v ll m
       \<lparr>activity = Ready (Some (if rc \<noteq> SUCCESS then rc else rc2)), owned = owned v - {l}\<rparr> ll' m"

definition put_thread ::
  "'m threads \<Rightarrow> NodeId \<Rightarrow> thread \<Rightarrow> thread_view \<Rightarrow> LocalLockArray \<Rightarrow> mem \<Rightarrow> 'm threads"
where
  "put_thread s n t v ll m =
     s\<lparr>memory := m, locals := (locals s)(n := ll), threads := (threads s)(n := (threads s n)(t := v))\<rparr>"

inductive threads_step :: "(NodeId \<times> LockId, 'm) protocol \<Rightarrow> 'm threads \<Rightarrow> 'm threads \<Rightarrow> bool"
  for P :: "(NodeId \<times> LockId, 'm) protocol"
where
  thread_step: "thread_move P n t (threads s n t) (locals s n) (memory s) v ll m \<Longrightarrow>
     threads_step P s (put_thread s n t v ll m)"
| scanner_step: "manager_move P (scanner s) (memory s) q m \<Longrightarrow> threads_step P s (s\<lparr>memory := m, scanner := q\<rparr>)"

inductive threads_reachable :: "(NodeId \<times> LockId, 'm) protocol \<Rightarrow> 'm threads \<Rightarrow> 'm threads \<Rightarrow> bool"
  for P :: "(NodeId \<times> LockId, 'm) protocol" and s0 :: "'m threads"
where
  threads_start: "threads_reachable P s0 s0"
| threads_more: "threads_reachable P s0 s \<Longrightarrow> threads_step P s s' \<Longrightarrow> threads_reachable P s0 s'"

definition initial_threads :: "(NodeId \<Rightarrow> LocalLockArray) \<Rightarrow> mem \<Rightarrow> 'm \<Rightarrow> 'm threads" where
  "initial_threads lls m x =
     \<lparr>memory = m, locals = lls, threads = (\<lambda>_ _. \<lparr>activity = Ready None, owned = {}\<rparr>), scanner = Ret x\<rparr>"

text \<open>A thread is inside a lock from the return of its acquisition to its call of \<open>release\<close>.\<close>

definition inside :: "'m threads \<Rightarrow> NodeId \<Rightarrow> thread \<Rightarrow> LockId \<Rightarrow> bool" where
  "inside s n t l \<longleftrightarrow> l \<in> owned (threads s n t) \<and> (\<forall>p. activity (threads s n t) \<noteq> Giving l p)"

section \<open>The mutex of a lock\<close>

definition mutex_at :: "LocalLockArray \<Rightarrow> LockId \<Rightarrow> mutex" where
  "mutex_at ll l = (if l < ll_lock_count ll then ll_mutexes ll ! unat l else None)"

definition set_mutex :: "LocalLockArray \<Rightarrow> LockId \<Rightarrow> mutex \<Rightarrow> LocalLockArray" where
  "set_mutex ll l x = ll\<lparr>ll_mutexes := (ll_mutexes ll)[unat l := x]\<rparr>"

lemma set_mutex_fields [simp]:
  "ll_lock_count (set_mutex ll l x) = ll_lock_count ll" "ll_initialized (set_mutex ll l x) = ll_initialized ll"
  by (simp_all add: set_mutex_def)

lemma set_mutex_wf [simp]: "ll_wf (set_mutex ll l x) = ll_wf ll"
  by (auto simp: ll_wf_def set_mutex_def)

lemma mutex_at_set:
  assumes "ll_wf ll" and "l < ll_lock_count ll"
  shows "mutex_at (set_mutex ll l x) l' = (if l' = l then x else mutex_at ll l')"
proof (cases "unat l' = unat l")
  case True
  then have "l' = l" by (rule word_unat_eq_iff [THEN iffD2])
  then show ?thesis
    using ll_wf_index [OF assms(1) ll_wf_initialized [OF assms] assms(2)] assms(2) by (simp add: mutex_at_def set_mutex_def)
next
  case False
  then show ?thesis by (auto simp: mutex_at_def set_mutex_def)
qed

lemma set_mutex_at: "mutex_at ll l = x \<Longrightarrow> l < ll_lock_count ll \<Longrightarrow> set_mutex ll l x = ll"
  by (auto simp: mutex_at_def set_mutex_def)

text \<open>What the functions of the array do, in these terms.\<close>

lemma lock_taken:
  assumes "ll_wf ll" and "ll_acquire t l ll = Returns SUCCESS ll' \<or> ll_try_acquire t l ll = Some (SUCCESS, ll')"
  shows "l < ll_lock_count ll \<and> mutex_at ll l = None \<and> ll' = set_mutex ll l (Some t)"
  using assms
  by (auto simp: ll_acquire_def ll_try_acquire_def pthread_mutex_lock_def pthread_mutex_trylock_def mutex_at_def set_mutex_def
      split: if_splits option.splits)

lemma lock_refused:
  assumes "ll_acquire t l ll = Returns rc ll' \<or> ll_try_acquire t l ll = Some (rc, ll')" and "rc \<noteq> SUCCESS"
  shows "ll' = ll"
  using assms ll_acquire_error [of t l ll rc ll']
  by (auto simp: ll_try_acquire_def pthread_mutex_trylock_def ll_same_mutex split: if_splits option.splits)

lemma lock_given_back:
  assumes "ll_wf ll" and "mutex_at ll l = Some t"
  shows "l < ll_lock_count ll" and "ll_release t l ll = Some (SUCCESS, set_mutex ll l None)"
proof -
  show l: "l < ll_lock_count ll" using assms(2) by (simp add: mutex_at_def split: if_splits)
  show "ll_release t l ll = Some (SUCCESS, set_mutex ll l None)"
    using ll_release_cases [OF assms(1) l] assms(2) l by (simp add: mutex_at_def set_mutex_def)
qed

lemma lock_free_to_take:
  assumes "ll_wf ll" and "l < ll_lock_count ll" and "mutex_at ll l = None"
  shows "ll_acquire t l ll = Returns SUCCESS (set_mutex ll l (Some t))"
  using ll_acquire_cases [OF assms(1,2), of t] assms by (simp add: mutex_at_def set_mutex_def)

section \<open>The local mutexes and the threads\<close>

text \<open>
  The invariant: the arrays are well-formed and keep their length; the mutex of a lock is held by the thread that owns the
  lock or asks for it, and by nobody else; who asks for a lock does not own it, who gives it back does.
\<close>

definition works_on :: "thread_view \<Rightarrow> LockId \<Rightarrow> bool" where
  "works_on v l \<longleftrightarrow> l \<in> owned v \<or> (\<exists>p. activity v = Asking l p)"

definition node_inv :: "u32 \<Rightarrow> LocalLockArray \<Rightarrow> (thread \<Rightarrow> thread_view) \<Rightarrow> bool" where
  "node_inv k ll vs \<longleftrightarrow> ll_wf ll \<and> ll_lock_count ll = k \<and>
     (\<forall>l t. mutex_at ll l = Some t \<longleftrightarrow> works_on (vs t) l) \<and>
     (\<forall>l t p. activity (vs t) = Asking l p \<longrightarrow> l \<notin> owned (vs t)) \<and>
     (\<forall>l t p. activity (vs t) = Giving l p \<longrightarrow> l \<in> owned (vs t))"

lemma node_invD:
  assumes "node_inv k ll vs"
  shows "ll_wf ll" and "ll_lock_count ll = k" and "mutex_at ll l = Some t \<longleftrightarrow> works_on (vs t) l"
    and "activity (vs t) = Asking l p \<Longrightarrow> l \<notin> owned (vs t)" and "activity (vs t) = Giving l p \<Longrightarrow> l \<in> owned (vs t)"
  using assms by (auto simp: node_inv_def)

lemma node_invI:
  assumes "ll_wf ll" and "ll_lock_count ll = k" and "\<And>l t. mutex_at ll l = Some t \<longleftrightarrow> works_on (vs t) l"
    and "\<And>l t p. activity (vs t) = Asking l p \<Longrightarrow> l \<notin> owned (vs t)" and "\<And>l t p. activity (vs t) = Giving l p \<Longrightarrow> l \<in> owned (vs t)"
  shows "node_inv k ll vs"
  using assms unfolding node_inv_def by blast

text \<open>Changing one view and at most the mutex of one lock.\<close>

lemma node_inv_update:
  assumes inv: "node_inv k ll vs" and "ll_wf ll'" and "ll_lock_count ll' = k"
    and "\<And>l'. l' \<noteq> l \<Longrightarrow> mutex_at ll' l' = mutex_at ll l' \<and> (works_on v l' \<longleftrightarrow> works_on (vs t) l')"
    and "\<And>t'. mutex_at ll' l = Some t' \<longleftrightarrow> works_on (if t' = t then v else vs t') l"
    and "\<And>l p. activity v = Asking l p \<Longrightarrow> l \<notin> owned v" and "\<And>l p. activity v = Giving l p \<Longrightarrow> l \<in> owned v"
  shows "node_inv k ll' (vs(t := v))"
proof (rule node_invI [OF assms(2,3)])
  show "mutex_at ll' l' = Some t' \<longleftrightarrow> works_on ((vs(t := v)) t') l'" for l' t'
    using assms(4) [of l'] assms(5) [of t'] node_invD(3) [OF inv, of l' t'] by (cases "l' = l") auto
  show "l \<notin> owned ((vs(t := v)) t')" if "activity ((vs(t := v)) t') = Asking l p" for l t' p
    using that assms(6) node_invD(4) [OF inv, of t' l p] by (auto split: if_splits)
  show "l \<in> owned ((vs(t := v)) t')" if "activity ((vs(t := v)) t') = Giving l p" for l t' p
    using that assms(7) node_invD(5) [OF inv, of t' l p] by (auto split: if_splits)
qed

lemma node_inv_same_locks:
  assumes inv: "node_inv k ll vs" and "\<And>l. works_on v l \<longleftrightarrow> works_on (vs t) l"
    and "\<And>l p. activity v = Asking l p \<Longrightarrow> l \<notin> owned v" and "\<And>l p. activity v = Giving l p \<Longrightarrow> l \<in> owned v"
  shows "node_inv k ll (vs(t := v))"
  by (rule node_inv_update [OF inv node_invD(1,2) [OF inv]]) (use assms node_invD(3) [OF inv] in auto)

lemma thread_move_inv:
  assumes "thread_move P n t v ll m v' ll' m'" and "node_inv k ll vs" and "vs t = v"
  shows "node_inv k ll' (vs(t := v'))"
  using assms
proof (induction rule: thread_move.induct)
  case (refused v r l ll rc ll' m)
  then have "ll' = ll" using lock_refused by blast
  then show ?case using refused by (intro node_inv_same_locks) (auto simp: works_on_def)
next
  case (locked v r l ll ll' p m)
  note inv = node_invD [OF locked.prems(1)]
  from lock_taken [OF inv(1) locked.hyps(2)]
  have l: "l < ll_lock_count ll" "mutex_at ll l = None" "ll' = set_mutex ll l (Some t)" by simp_all
  have free: "\<not> works_on (vs t') l" for t' using inv(3) [of l t'] l(2) by simp
  show ?case
    by (rule node_inv_update [OF locked.prems(1), where l = l])
       (use locked inv(1,2) free free [of t] l in \<open>auto simp: mutex_at_set works_on_def\<close>)
next
  case (ask_access v l p m p' m' ll)
  then show ?case
    using node_invD(4) [OF ask_access.prems(1), of t l p] by (intro node_inv_same_locks) (auto simp: works_on_def)
next
  case (granted v l ll m)
  then show ?case by (intro node_inv_same_locks) (auto simp: works_on_def)
next
  case (failed v l rc ll rc2 ll' m)
  note inv = node_invD [OF failed.prems(1)]
  have "mutex_at ll l = Some t" using inv(3) [of l t] failed by (auto simp: works_on_def)
  note l = this lock_given_back [OF inv(1) this]
  have other: "\<not> works_on (vs t') l" if "t' \<noteq> t" for t' using inv(3) [of l t'] that l(1) by auto
  show ?case
    by (rule node_inv_update [OF failed.prems(1), where l = l])
       (use failed inv(1,2) inv(4) [of t l] l other in \<open>auto simp: mutex_at_set works_on_def\<close>)
next
  case (giving v r l p ll m)
  then show ?case by (intro node_inv_same_locks) (auto simp: works_on_def)
next
  case (give_access v l p m p' m' ll)
  then show ?case
    using node_invD(5) [OF give_access.prems(1), of t l p] by (intro node_inv_same_locks) (auto simp: works_on_def)
next
  case (given v l rc ll rc2 ll' m)
  note inv = node_invD [OF given.prems(1)]
  have "mutex_at ll l = Some t" using inv(3) [of l t] inv(5) [of t l] given by (auto simp: works_on_def)
  note l = this lock_given_back [OF inv(1) this]
  have other: "\<not> works_on (vs t') l" if "t' \<noteq> t" for t' using inv(3) [of l t'] that l(1) by auto
  show ?case
    by (rule node_inv_update [OF given.prems(1), where l = l])
       (use given inv(1,2) l other in \<open>auto simp: mutex_at_set works_on_def\<close>)
qed

definition threads_inv :: "(NodeId \<Rightarrow> u32) \<Rightarrow> 'm threads \<Rightarrow> bool" where
  "threads_inv k s \<longleftrightarrow> (\<forall>n. node_inv (k n) (locals s n) (threads s n))"

lemma threads_step_inv: "threads_step P s s' \<Longrightarrow> threads_inv k s \<Longrightarrow> threads_inv k s'"
proof (induction rule: threads_step.induct)
  case (thread_step n t s v ll m)
  then have "node_inv (k n) (locals s n) (threads s n)" by (simp add: threads_inv_def)
  from thread_move_inv [OF thread_step.hyps this refl] thread_step.prems show ?case
    by (simp add: threads_inv_def put_thread_def)
next
  case (scanner_step s q m)
  then show ?case by (simp add: threads_inv_def)
qed

lemma fresh_mutex: "fresh_locks ll \<Longrightarrow> mutex_at ll l = None"
  using ll_wf_index [of ll l] ll_wf_initialized [of ll l]
  by (auto simp: fresh_locks_def mutex_at_def list_all_length)

lemma initial_threads_inv:
  "\<forall>n. fresh_locks (lls n) \<Longrightarrow> threads_inv (\<lambda>n. ll_lock_count (lls n)) (initial_threads lls m x)"
  using fresh_mutex
  by (fastforce simp: threads_inv_def initial_threads_def works_on_def fresh_locks_def intro!: node_invI)

lemma threads_reachable_inv:
  "threads_reachable P s0 s \<Longrightarrow> threads_inv k s0 \<Longrightarrow> threads_inv k s"
  by (induction rule: threads_reachable.induct) (auto intro: threads_step_inv)

section \<open>Clients as an abstraction\<close>

text \<open>
  The client of a node and a lock is what the thread that holds the mutex of the lock does about it.
\<close>

fun client_view :: "LockId \<Rightarrow> activity \<Rightarrow> client" where
  "client_view l (Asking l' p) = (if l' = l then Acquiring p else Critical)"
| "client_view l (Giving l' p) = (if l' = l then Releasing p else Critical)"
| "client_view l (Ready r) = Critical"

definition client_of :: "LocalLockArray \<Rightarrow> (thread \<Rightarrow> thread_view) \<Rightarrow> LockId \<Rightarrow> client" where
  "client_of ll vs l = (case mutex_at ll l of None \<Rightarrow> Idle | Some t \<Rightarrow> client_view l (activity (vs t)))"

definition clients_of :: "'m threads \<Rightarrow> (NodeId \<times> LockId, 'm) system" where
  "clients_of s = \<lparr>shared = memory s, clients = (\<lambda>(n, l). client_of (locals s n) (threads s n) l), manager = scanner s\<rparr>"

lemma client_view_iff [simp]:
  "client_view l a = Acquiring p \<longleftrightarrow> a = Asking l p" "client_view l a = Releasing p \<longleftrightarrow> a = Giving l p"
  "client_view l a \<noteq> Idle"
  by (cases a; auto)+

lemma client_of_other:
  assumes "mutex_at ll' l = mutex_at ll l" and "mutex_at ll l = Some t \<Longrightarrow> client_view l (activity v) = client_view l (activity (vs t))"
  shows "client_of ll' (vs(t := v)) l = client_of ll vs l"
  using assms by (auto simp: client_of_def split: option.splits)

lemma client_of_held: "mutex_at ll l = Some t \<Longrightarrow> client_of ll vs l = client_view l (activity (vs t))"
  by (simp add: client_of_def)

lemma client_of_free: "mutex_at ll l = None \<Longrightarrow> client_of ll vs l = Idle"
  by (simp add: client_of_def)

text \<open>
  The clients see a limit: a lock that the array of the node does not have is never asked for.
\<close>

definition limited :: "(NodeId \<Rightarrow> u32) \<Rightarrow> (NodeId \<times> LockId, 'm) protocol \<Rightarrow> (NodeId \<times> LockId, 'm) protocol" where
  "limited k P = P\<lparr>acquisition := (\<lambda>(n, l) p. l < k n \<and> acquisition P (n, l) p)\<rparr>"

lemma limited_fields [simp]:
  "region_of (limited k P) = region_of P" "manager_region (limited k P) = manager_region P" "release (limited k P) = release P"
  "next_scan (limited k P) = next_scan P" "acquisition (limited k P) (n, l) p \<longleftrightarrow> l < k n \<and> acquisition P (n, l) p"
  by (simp_all add: limited_def)

text \<open>One move of a thread is one move of the client of its lock, or none.\<close>

definition client_moves ::
  "(NodeId \<times> LockId, 'm) protocol \<Rightarrow> NodeId \<Rightarrow> (LockId \<Rightarrow> client) \<Rightarrow> mem \<Rightarrow> (LockId \<Rightarrow> client) \<Rightarrow> mem \<Rightarrow> bool"
where
  "client_moves P n cs m cs' m' \<longleftrightarrow>
     cs' = cs \<and> m' = m \<or> (\<exists>l c'. client_move P (n, l) (cs l) m c' m' \<and> cs' = cs(l := c'))"

lemma client_moves_at:
  assumes "client_move P (n, l) c m c' m'" and "client_of ll vs l = c" and "client_of ll' (vs(t := v)) l = c'"
    and "\<And>l'. l' \<noteq> l \<Longrightarrow> mutex_at ll' l' = mutex_at ll l' \<and> client_view l' (activity v) = client_view l' (activity (vs t))"
  shows "client_moves P n (client_of ll vs) m (client_of ll' (vs(t := v))) m'"
proof -
  have "client_of ll' (vs(t := v)) = (client_of ll vs)(l := c')"
    using assms(3) client_of_other [of ll' _ ll t v vs] assms(4) by auto
  with assms(1,2) show ?thesis unfolding client_moves_def by blast
qed

text \<open>The thread holds the mutex and keeps it, or gives it back.\<close>

lemma client_moves_held:
  assumes "mutex_at ll l = Some t" and "client_move P (n, l) (client_view l (activity (vs t))) m (client_view l (activity v)) m'"
    and "\<And>l'. l' \<noteq> l \<Longrightarrow> client_view l' (activity v) = client_view l' (activity (vs t))"
  shows "client_moves P n (client_of ll vs) m (client_of ll (vs(t := v))) m'"
  by (rule client_moves_at [OF assms(2)]) (use assms(1,3) in \<open>simp_all add: client_of_held\<close>)

lemma client_moves_free:
  assumes "ll_wf ll" and "mutex_at ll l = Some t" and "ll_release t l ll = Some (rc, ll')"
    and "client_move P (n, l) (client_view l (activity (vs t))) m Idle m'"
    and "\<And>l'. l' \<noteq> l \<Longrightarrow> client_view l' (activity v) = client_view l' (activity (vs t))"
  shows "client_moves P n (client_of ll vs) m (client_of ll' (vs(t := v))) m'"
proof -
  note b = lock_given_back [OF assms(1,2)]
  have "ll' = set_mutex ll l None" using assms(3) b(2) by simp
  then show ?thesis
    by (intro client_moves_at [OF assms(4)])
       (use assms(2,5) b mutex_at_set [OF assms(1) b(1)] in \<open>simp_all add: client_of_held client_of_free\<close>)
qed

lemma thread_move_client:
  assumes "thread_move P n t v ll m v' ll' m'" and "node_inv (k n) ll vs" and "vs t = v"
  shows "client_moves (limited k P) n (client_of ll vs) m (client_of ll' (vs(t := v'))) m'"
  using assms
proof (induction rule: thread_move.induct)
  case (refused v r l ll rc ll' m)
  then have "ll' = ll" using lock_refused by blast
  moreover have "client_of ll (vs(t := v\<lparr>activity := Ready (Some rc)\<rparr>)) = client_of ll vs"
    by (rule ext, rule client_of_other) (use refused in simp_all)
  ultimately show ?case unfolding client_moves_def by (simp only: simp_thms)
next
  case (locked v r l ll ll' p m)
  note inv = node_invD [OF locked.prems(1)]
  from lock_taken [OF inv(1) locked.hyps(2)]
  have l: "l < ll_lock_count ll" "mutex_at ll l = None" "ll' = set_mutex ll l (Some t)" by simp_all
  have "client_move (limited k P) (n, l) Idle m (Acquiring p) m"
    using locked.hyps(3) l(1) inv(2) by (intro start_acquire) simp
  then show ?case
    by (rule client_moves_at)
       (use locked l mutex_at_set [OF inv(1) l(1)] in \<open>simp_all add: client_of_free client_of_held\<close>)
next
  case (ask_access v l p m p' m' ll)
  have "mutex_at ll l = Some t"
    using node_invD(3) [OF ask_access.prems(1), of l t] ask_access by (auto simp: works_on_def)
  then show ?case
    by (rule client_moves_held) (use ask_access in \<open>auto intro: client_move.intros\<close>)
next
  case (granted v l ll m)
  have "mutex_at ll l = Some t"
    using node_invD(3) [OF granted.prems(1), of l t] granted by (auto simp: works_on_def)
  then show ?case
    by (rule client_moves_held) (use granted in \<open>auto intro: client_move.intros\<close>)
next
  case (failed v l rc ll rc2 ll' m)
  note inv = node_invD [OF failed.prems(1)]
  have "mutex_at ll l = Some t" using inv(3) [of l t] failed by (auto simp: works_on_def)
  then show ?case
    by (rule client_moves_free [OF inv(1) _ failed.hyps(3)]) (use failed in \<open>auto intro: client_move.intros\<close>)
next
  case (giving v r l p ll m)
  have "mutex_at ll l = Some t"
    using node_invD(3) [OF giving.prems(1), of l t] giving by (auto simp: works_on_def)
  then show ?case
    by (rule client_moves_held) (use giving in \<open>auto intro: client_move.intros\<close>)
next
  case (give_access v l p m p' m' ll)
  have "mutex_at ll l = Some t"
    using node_invD(3) [OF give_access.prems(1), of l t] node_invD(5) [OF give_access.prems(1), of t l] give_access
    by (auto simp: works_on_def)
  then show ?case
    by (rule client_moves_held) (use give_access in \<open>auto intro: client_move.intros\<close>)
next
  case (given v l rc ll rc2 ll' m)
  note inv = node_invD [OF given.prems(1)]
  have "mutex_at ll l = Some t" using inv(3) [of l t] inv(5) [of t l] given by (auto simp: works_on_def)
  then show ?case
    by (rule client_moves_free [OF inv(1) _ given.hyps(2)]) (use given in \<open>auto intro: client_move.intros\<close>)
qed

text \<open>
  A step of the threads is a step of the clients or leaves them as they are, so the clients of a reachable state are reachable.
\<close>

lemma threads_step_clients:
  assumes "threads_step P s s'" and "threads_inv k s"
  shows "clients_of s' = clients_of s \<or> sys_step (limited k P) (clients_of s) (clients_of s')"
  using assms
proof (induction rule: threads_step.induct)
  case (thread_step n t s v ll m)
  let ?s' = "put_thread s n t v ll m"
  let ?cs = "client_of (locals s n) (threads s n)" and ?cs' = "client_of ll ((threads s n)(t := v))"
  have "node_inv (k n) (locals s n) (threads s n)" using thread_step.prems by (simp add: threads_inv_def)
  from thread_move_client [where k = k and vs = "threads s n", OF thread_step.hyps this refl]
  have moves: "client_moves (limited k P) n ?cs (memory s) ?cs' m" .
  show ?case
  proof (cases "?cs' = ?cs \<and> m = memory s")
    case True
    then have "clients_of ?s' = clients_of s" by (auto simp: clients_of_def put_thread_def fun_eq_iff)
    then show ?thesis ..
  next
    case False
    then obtain l c' where l: "client_move (limited k P) (n, l) (?cs l) (memory s) c' m" "?cs' = ?cs(l := c')"
      using moves unfolding client_moves_def by blast
    then have "clients_of ?s' =
        (clients_of s)\<lparr>shared := m, clients := (clients (clients_of s))((n, l) := c')\<rparr>"
      by (auto simp: clients_of_def put_thread_def fun_eq_iff)
    moreover have "client_move (limited k P) (n, l) (clients (clients_of s) (n, l)) (shared (clients_of s)) c' m"
      using l(1) by (simp add: clients_of_def)
    ultimately have "sys_step (limited k P) (clients_of s) (clients_of ?s')" by (simp only: client_step)
    then show ?thesis ..
  qed
next
  case (scanner_step s q m)
  then have "manager_move (limited k P) (manager (clients_of s)) (shared (clients_of s)) q m"
    by (auto simp: clients_of_def manager_move.simps)
  from manager_step [OF this] show ?case by (simp add: clients_of_def)
qed

lemma threads_reachable_clients:
  assumes "threads_reachable P s0 s" and "threads_inv k s0"
  shows "reachable (limited k P) (clients_of s0) (clients_of s)"
  using assms
proof (induction rule: threads_reachable.induct)
  case threads_start
  show ?case by (rule reachable_start)
next
  case (threads_more s s')
  have "threads_inv k s" using threads_reachable_inv threads_more.hyps(1) threads_more.prems .
  from threads_step_clients [OF threads_more.hyps(2) this] threads_more show ?case
    by (auto intro: reachable_step)
qed

lemma clients_of_initial:
  assumes "\<forall>n. fresh_locks (lls n)"
  shows "clients_of (initial_threads lls m x) = initial_system m x"
  using assms fresh_mutex
  by (auto simp: clients_of_def initial_threads_def initial_system_def fun_eq_iff client_of_def)

text \<open>The limit is a restriction of the requests only.\<close>

lemma limited_client_move: "client_move (limited k P) t c m c' m' \<Longrightarrow> client_move P t c m c' m'"
  by (induction rule: client_move.induct) (cases t, auto intro: client_move.intros)+

lemma limited_reachable: "reachable (limited k P) s0 s \<Longrightarrow> reachable P s0 s"
proof (induction rule: reachable.induct)
  case (reachable_step s s')
  from reachable_step.hyps(2) have "sys_step P s s'"
  proof (cases rule: sys_step.cases)
    case (client_step t c' m')
    then show ?thesis using sys_step.client_step [OF limited_client_move] by blast
  next
    case (manager_step q' m')
    then have "manager_move P (manager s) (shared s) q' m'" by (auto simp: manager_move.simps)
    then show ?thesis unfolding manager_step(1) by (rule sys_step.manager_step)
  qed
  with reachable_step.IH show ?case by (rule reachable.reachable_step)
qed (rule reachable_start)

text \<open>A thread that is inside a lock holds its mutex, and the client of the lock is in its critical section.\<close>

lemma inside_critical:
  assumes "threads_inv k s" and "inside s n t l"
  shows "mutex_at (locals s n) l = Some t" and "clients (clients_of s) (n, l) = Critical"
proof -
  have inv: "node_inv (k n) (locals s n) (threads s n)" using assms(1) by (simp add: threads_inv_def)
  have o: "l \<in> owned (threads s n t)" using assms(2) by (simp add: inside_def)
  show m: "mutex_at (locals s n) l = Some t"
    using node_invD(3) [OF inv, of l t] o by (simp add: works_on_def)
  show "clients (clients_of s) (n, l) = Critical"
    using m o assms(2) node_invD(4) [OF inv, of t l]
    by (cases "activity (threads s n t)") (auto simp: clients_of_def client_of_held inside_def)
qed

text \<open>So what excludes clients excludes threads.\<close>

lemma threads_exclude:
  assumes "\<forall>n. fresh_locks (lls n)" and "threads_reachable P (initial_threads lls m x) s"
    and "\<And>S n n'. reachable P (initial_system m x) S \<Longrightarrow> clients S (n, l) = Critical \<Longrightarrow> clients S (n', l) = Critical \<Longrightarrow> n = n'"
    and "inside s n t l" and "inside s n' t' l"
  shows "n = n' \<and> t = t'"
proof -
  note inv0 = initial_threads_inv [OF assms(1), of m x]
  have inv: "threads_inv (\<lambda>n. ll_lock_count (lls n)) s" by (rule threads_reachable_inv [OF assms(2) inv0])
  have "reachable P (initial_system m x) (clients_of s)"
    using limited_reachable [OF threads_reachable_clients [OF assms(2) inv0]] clients_of_initial [OF assms(1), of m x] by simp
  then have "n = n'"
    using inside_critical(2) [OF inv assms(4)] inside_critical(2) [OF inv assms(5)] by (rule assms(3))
  moreover have "t = t'"
    using inside_critical(1) [OF inv assms(4)] inside_critical(1) [OF inv assms(5)] \<open>n = n'\<close> by simp
  ultimately show ?thesis ..
qed

section \<open>Every behaviour of the clients is one of threads\<close>

text \<open>
  Conversely the clients do nothing that threads cannot do: let thread number \<open>l\<close> of each node be the one that uses lock \<open>l\<close>.
\<close>

definition dedicated :: "'m threads \<Rightarrow> bool" where
  "dedicated s \<longleftrightarrow> (\<forall>n t l. works_on (threads s n t) l \<longrightarrow> t = unat l)"

lemma dedicated_put:
  assumes "dedicated s" and "\<And>l'. works_on v l' \<Longrightarrow> l' = l"
  shows "dedicated (put_thread s n (unat l) v ll m)"
  using assms by (auto simp: dedicated_def put_thread_def)

lemma dedicated_idle:
  assumes "threads_inv k s" and "dedicated s" and "clients (clients_of s) (n, l) = Idle"
  shows "mutex_at (locals s n) l = None" and "owned (threads s n (unat l)) = {}"
    and "\<exists>r. activity (threads s n (unat l)) = Ready r"
proof -
  have inv: "node_inv (k n) (locals s n) (threads s n)" using assms(1) by (simp add: threads_inv_def)
  have nobody: "\<not> works_on (threads s n (unat l)) l'" for l'
  proof
    assume w: "works_on (threads s n (unat l)) l'"
    then have "unat l = unat l'" using assms(2) by (auto simp: dedicated_def)
    then have "l' = l" by (simp add: word_unat_eq_iff)
    with w have m: "mutex_at (locals s n) l = Some (unat l)" using node_invD(3) [OF inv] by simp
    with assms(3) show False
      by (cases "activity (threads s n (unat l))") (auto simp: clients_of_def client_of_held split: if_splits)
  qed
  then show none: "owned (threads s n (unat l)) = {}" by (auto simp: works_on_def)
  show "\<exists>r. activity (threads s n (unat l)) = Ready r"
    using nobody node_invD(5) [OF inv, of "unat l"] none
    by (cases "activity (threads s n (unat l))") (auto simp: works_on_def)
  show "mutex_at (locals s n) l = None"
  proof (cases "mutex_at (locals s n) l")
    case (Some t)
    then have "works_on (threads s n t) l" using node_invD(3) [OF inv] by simp
    with assms(2) nobody show ?thesis by (auto simp: dedicated_def)
  qed
qed

lemma dedicated_busy:
  assumes "threads_inv k s" and "dedicated s" and "clients (clients_of s) (n, l) = c" and "c \<noteq> Idle"
  shows "mutex_at (locals s n) l = Some (unat l)" and "client_view l (activity (threads s n (unat l))) = c"
    and "works_on (threads s n (unat l)) l" and "\<And>l'. works_on (threads s n (unat l)) l' \<Longrightarrow> l' = l"
proof -
  have inv: "node_inv (k n) (locals s n) (threads s n)" using assms(1) by (simp add: threads_inv_def)
  obtain t where t: "mutex_at (locals s n) l = Some t"
    using assms(3,4) by (cases "mutex_at (locals s n) l") (auto simp: clients_of_def client_of_free)
  then have w: "works_on (threads s n t) l" using node_invD(3) [OF inv] by simp
  then have "t = unat l" using assms(2) by (simp add: dedicated_def)
  with t w show m: "mutex_at (locals s n) l = Some (unat l)" and "works_on (threads s n (unat l)) l" by simp_all
  show "client_view l (activity (threads s n (unat l))) = c"
    using assms(3) m by (simp add: clients_of_def client_of_held)
  show "l' = l" if "works_on (threads s n (unat l)) l'" for l'
    using that assms(2) by (auto simp: dedicated_def word_unat_eq_iff)
qed

lemma dedicated_inside:
  assumes "threads_inv k s" and "dedicated s" and "clients (clients_of s) (n, l) = Critical"
  shows "\<exists>r. activity (threads s n (unat l)) = Ready r" and "l \<in> owned (threads s n (unat l))"
proof -
  have inv: "node_inv (k n) (locals s n) (threads s n)" using assms(1) by (simp add: threads_inv_def)
  note busy = dedicated_busy [OF assms client.distinct(3) [symmetric]]
  show "\<exists>r. activity (threads s n (unat l)) = Ready r" and "l \<in> owned (threads s n (unat l))"
    using busy(2,3) busy(4) node_invD(5) [OF inv, of "unat l"]
    by (cases "activity (threads s n (unat l))"; fastforce simp: works_on_def)+
qed

text \<open>What a thread has to do for the client of its lock to move.\<close>

lemma dedicated_step:
  assumes "threads_inv k s" and "dedicated s"
    and move: "thread_move P n (unat l) (threads s n (unat l)) (locals s n) (memory s) v ll m"
    and client: "client_of ll ((threads s n)(unat l := v)) l = c" and others: "\<And>l'. works_on v l' \<Longrightarrow> l' = l"
    and mutexes: "\<And>l'. l' \<noteq> l \<Longrightarrow> mutex_at ll l' = mutex_at (locals s n) l'"
  shows "\<exists>s'. threads_step P s s' \<and> dedicated s' \<and>
    clients_of s' = (clients_of s)\<lparr>shared := m, clients := (clients (clients_of s))((n, l) := c)\<rparr>"
proof (intro exI conjI)
  let ?s' = "put_thread s n (unat l) v ll m"
  have inv: "node_inv (k n) (locals s n) (threads s n)" using assms(1) by (simp add: threads_inv_def)
  show "threads_step P s ?s'" by (rule thread_step [OF move])
  show "dedicated ?s'" using dedicated_put [OF assms(2)] others by blast
  have "client_of ll ((threads s n)(unat l := v)) l' = client_of (locals s n) (threads s n) l'" if "l' \<noteq> l" for l'
  proof (rule client_of_other [OF mutexes [OF that]])
    assume "mutex_at (locals s n) l' = Some (unat l)"
    then have "unat l = unat l'" using node_invD(3) [OF inv] assms(2) by (auto simp: dedicated_def)
    with that show "client_view l' (activity v) = client_view l' (activity (threads s n (unat l)))"
      by (simp add: word_unat_eq_iff)
  qed
  with client show "clients_of ?s' = (clients_of s)\<lparr>shared := m, clients := (clients (clients_of s))((n, l) := c)\<rparr>"
    by (auto simp: clients_of_def put_thread_def fun_eq_iff)
qed

lemma free_again:
  assumes "threads_inv k s" and "mutex_at (locals s n) l = Some t"
  obtains ll where "ll_release t l (locals s n) = Some (SUCCESS, ll)" and "\<And>vs. client_of ll vs l = Idle"
    and "\<And>l'. l' \<noteq> l \<Longrightarrow> mutex_at ll l' = mutex_at (locals s n) l'"
proof -
  have wf: "ll_wf (locals s n)" using assms(1) by (simp add: threads_inv_def node_inv_def)
  note b = lock_given_back [OF wf assms(2)]
  show thesis
    by (rule that [OF b(2)]) (use mutex_at_set [OF wf b(1)] in \<open>simp_all add: client_of_free\<close>)
qed

lemma client_starts_thread:
  assumes inv: "threads_inv k s" and ded: "dedicated s" and "clients (clients_of s) (n, l) = Idle"
    and "l < k n" and "acquisition P (n, l) p"
  shows "\<exists>s'. threads_step P s s' \<and> dedicated s' \<and>
    clients_of s' = (clients_of s)\<lparr>shared := memory s, clients := (clients (clients_of s))((n, l) := Acquiring p)\<rparr>"
proof -
  have ninv: "node_inv (k n) (locals s n) (threads s n)" using inv by (simp add: threads_inv_def)
  note wf = node_invD(1,2) [OF ninv]
  from dedicated_idle [OF inv ded assms(3)] obtain r where
      idle: "mutex_at (locals s n) l = None" "owned (threads s n (unat l)) = {}" "activity (threads s n (unat l)) = Ready r"
    by auto
  have l: "l < ll_lock_count (locals s n)" using assms(4) wf(2) by simp
  note take = lock_free_to_take [OF wf(1) l idle(1), of "unat l"]
  show ?thesis
    by (rule dedicated_step [OF inv ded locked [OF idle(3) disjI1 [OF take] assms(5)]])
       (use idle mutex_at_set [OF wf(1) l] in \<open>auto simp: client_of_held works_on_def\<close>)
qed

lemma client_move_thread:
  assumes inv: "threads_inv k s" and ded: "dedicated s"
    and "client_move (limited k P) (n, l) c (memory s) c' m'" and "clients (clients_of s) (n, l) = c"
  shows "\<exists>s'. threads_step P s s' \<and> dedicated s' \<and>
    clients_of s' = (clients_of s)\<lparr>shared := m', clients := (clients (clients_of s))((n, l) := c')\<rparr>"
  using assms(3)
proof (cases rule: client_move.cases)
  case (start_acquire p)
  then show ?thesis using client_starts_thread [OF inv ded] assms(4) by auto
next
  case (acquire_access p p')
  note busy = dedicated_busy [OF inv ded assms(4)]
  have a: "activity (threads s n (unat l)) = Asking l p" using busy(2) acquire_access by simp
  have step: "pstep (region_of P (n, l)) p (memory s) = (p', m')" using acquire_access by simp
  show ?thesis unfolding acquire_access
    by (rule dedicated_step [OF inv ded ask_access [OF a step]])
       (use busy acquire_access in \<open>auto simp: client_of_held works_on_def\<close>)
next
  case acquire_success
  note busy = dedicated_busy [OF inv ded assms(4)]
  have a: "activity (threads s n (unat l)) = Asking l (Ret SUCCESS)" using busy(2) acquire_success by simp
  show ?thesis unfolding acquire_success
    by (rule dedicated_step [OF inv ded granted [OF a]])
       (use busy acquire_success in \<open>auto simp: client_of_held works_on_def\<close>)
next
  case (acquire_failure rc)
  note busy = dedicated_busy [OF inv ded assms(4)]
  have a: "activity (threads s n (unat l)) = Asking l (Ret rc)" using busy(2) acquire_failure by simp
  obtain ll where ll: "ll_release (unat l) l (locals s n) = Some (SUCCESS, ll)" "\<And>vs. client_of ll vs l = Idle"
      "\<And>l'. l' \<noteq> l \<Longrightarrow> mutex_at ll l' = mutex_at (locals s n) l'"
    using free_again [OF inv busy(1)] acquire_failure by blast
  show ?thesis unfolding acquire_failure
    by (rule dedicated_step [OF inv ded failed [OF a acquire_failure(4) ll(1)]])
       (use busy acquire_failure ll in \<open>auto simp: works_on_def\<close>)
next
  case (start_release p)
  note busy = dedicated_busy [OF inv ded assms(4)]
  obtain r where a: "activity (threads s n (unat l)) = Ready r" "l \<in> owned (threads s n (unat l))"
    using dedicated_inside [OF inv ded, of n l] assms(4) start_release by blast
  have rel: "release P (n, l) p" using start_release by simp
  show ?thesis unfolding start_release
    by (rule dedicated_step [OF inv ded giving [OF a rel]])
       (use busy start_release in \<open>auto simp: client_of_held works_on_def\<close>)
next
  case (release_access p p')
  note busy = dedicated_busy [OF inv ded assms(4)]
  have a: "activity (threads s n (unat l)) = Giving l p" using busy(2) release_access by simp
  have step: "pstep (region_of P (n, l)) p (memory s) = (p', m')" using release_access by simp
  show ?thesis unfolding release_access
    by (rule dedicated_step [OF inv ded give_access [OF a step]])
       (use busy release_access in \<open>auto simp: client_of_held works_on_def\<close>)
next
  case (release_done rc)
  note busy = dedicated_busy [OF inv ded assms(4)]
  have a: "activity (threads s n (unat l)) = Giving l (Ret rc)" using busy(2) release_done by simp
  obtain ll where ll: "ll_release (unat l) l (locals s n) = Some (SUCCESS, ll)" "\<And>vs. client_of ll vs l = Idle"
      "\<And>l'. l' \<noteq> l \<Longrightarrow> mutex_at ll l' = mutex_at (locals s n) l'"
    using free_again [OF inv busy(1)] release_done by blast
  show ?thesis unfolding release_done
    by (rule dedicated_step [OF inv ded given [OF a ll(1)]])
       (use busy release_done ll in \<open>auto simp: works_on_def\<close>)
qed

lemma dedicated_reaches:
  assumes "reachable (limited k P) (clients_of s0) S" and "threads_inv k s0" and "dedicated s0"
  shows "\<exists>s. threads_reachable P s0 s \<and> dedicated s \<and> clients_of s = S"
  using assms
proof (induction rule: reachable.induct)
  case reachable_start
  then show ?case by (auto intro: threads_start)
next
  case (reachable_step S S')
  then obtain s where s: "threads_reachable P s0 s" "dedicated s" "clients_of s = S" by blast
  have inv: "threads_inv k s" by (rule threads_reachable_inv [OF s(1) reachable_step.prems(1)])
  have m: "shared S = memory s" "manager S = scanner s" using s(3) by (auto simp: clients_of_def)
  from reachable_step.hyps(2) obtain s' where "threads_step P s s'" "dedicated s'" "clients_of s' = S'"
  proof (cases rule: sys_step.cases)
    case (client_step t c' m')
    obtain n l where t: "t = (n, l)" by (cases t)
    from client_step(2) have "client_move (limited k P) (n, l) (clients S (n, l)) (memory s) c' m'"
      by (simp add: t m)
    from client_move_thread [OF inv s(2) this] s(3) client_step(1) t that show ?thesis by auto
  next
    case (manager_step q' m')
    then have move: "manager_move P (scanner s) (memory s) q' m'" by (auto simp: manager_move.simps m)
    have "clients_of (s\<lparr>memory := m', scanner := q'\<rparr>) = S'" using manager_step(1) s(3) by (auto simp: clients_of_def)
    moreover have "dedicated (s\<lparr>memory := m', scanner := q'\<rparr>)" using s(2) by (simp add: dedicated_def)
    ultimately show ?thesis using that scanner_step [OF move] by blast
  qed
  with s(1) show ?case by (blast intro: threads_more)
qed

lemma dedicated_initial: "dedicated (initial_threads lls m x)"
  by (simp add: dedicated_def initial_threads_def works_on_def)

text \<open>
  C4. Threads and clients are the same system: from fresh local locks, the states of memory, manager and critical sections
  that the threads of all nodes reach, whichever thread asks for which lock through the local mutexes and releases what it owns, are exactly those that
  the clients, one for each node and lock of the node's array, reach.
\<close>

theorem threads_are_clients:
  assumes "\<forall>n. fresh_locks (lls n)"
  shows "(\<exists>s. threads_reachable P (initial_threads lls m x) s \<and> clients_of s = S) \<longleftrightarrow>
    reachable (limited (\<lambda>n. ll_lock_count (lls n)) P) (initial_system m x) S"
proof -
  note inv0 = initial_threads_inv [OF assms, of m x]
  show ?thesis
    using threads_reachable_clients [OF _ inv0] dedicated_reaches [OF _ inv0 dedicated_initial]
    unfolding clients_of_initial [OF assms] by blast
qed

theorem threads_are_clients_witness:
  "\<exists>s. threads_reachable (open_protocol (\<lambda>_. demo_region) demo_region)
      (initial_threads (\<lambda>_. set_mutex two_local_locks 0 None) (\<lambda>_. 0) (demo_manager new_cas)) s \<and>
    clients_of s = \<lparr>shared = (\<lambda>_. 0), clients = (\<lambda>_. Idle)((1, 1) := Acquiring Crash), manager = Ret (demo_manager new_cas)\<rparr>"
proof -
  have fresh: "\<forall>n :: NodeId. fresh_locks (set_mutex two_local_locks 0 None)"
    by (simp add: fresh_locks_def) (simp add: set_mutex_def two_local_locks_def)
  let ?P = "limited (\<lambda>_. 2) (open_protocol (\<lambda>_. demo_region) demo_region)"
  let ?s0 = "initial_system (\<lambda>_. 0) (demo_manager new_cas) :: (NodeId \<times> LockId, LockManager) system"
  have "acquisition ?P (1, 1) Crash" by (simp add: open_protocol_def)
  from start_acquire [OF this, of "\<lambda>_. 0"]
  have "client_move ?P (1, 1) (clients ?s0 (1, 1)) (shared ?s0) (Acquiring Crash) (\<lambda>_. 0)" by (simp add: initial_system_def)
  from reachable_one [OF client_step [OF this]]
  have "reachable ?P ?s0 \<lparr>shared = (\<lambda>_. 0), clients = (\<lambda>_. Idle)((1, 1) := Acquiring Crash), manager = Ret (demo_manager new_cas)\<rparr>"
    by (simp add: initial_system_def)
  moreover have "ll_lock_count (set_mutex two_local_locks 0 None) = 2" by (simp add: two_local_locks_def)
  ultimately show ?thesis unfolding threads_are_clients [OF fresh] by (simp only:)
qed

end
