(* ===== verification/Cas_Mutex.thy ===== *)
theory Cas_Mutex
  imports Interleave Cas_Scan
begin

text \<open>
  Mutual exclusion of the two-tier lock over the CAS algorithm, at the granularity of single
  memory accesses. \<open>slot_safe\<close> says of a client's access tree that it writes only the
  client's own slot, never \<open>LOCKED\<close>, and returns \<open>SUCCESS\<close> only after reading \<open>LOCKED\<close>
  there; \<open>manager_safe\<close> says of the manager's that it sets a slot to \<open>LOCKED\<close> only by a
  compare-and-swap from \<open>WAITING\<close> and only after it has seen that no slot of the lock is
  \<open>LOCKED\<close>. The code is shown to satisfy both, and both are shown to be kept by
  interference.
\<close>

section \<open>Clients\<close>

text \<open>
  \<open>c\<close> is the cell of the client's slot; \<open>b\<close> is what the thread knows: its slot is \<open>LOCKED\<close>.
\<close>

primrec slot_safe :: "bool \<Rightarrow> SharedMemoryRegion \<Rightarrow> u64 \<Rightarrow> LockResult prog \<Rightarrow> bool \<Rightarrow> bool" where
  "slot_safe need sh c (Ret r) b = (need \<and> r = SUCCESS \<longrightarrow> b)"
| "slot_safe need sh c (Load p k) b =
     (\<forall>v. slot_safe need sh c (k v) (if cell_of sh p = c then v = 2 else b))"
| "slot_safe need sh c (Store p v k) b =
     (cell_of sh p = c \<and> v \<noteq> 2 \<and> slot_safe need sh c k False)"
| "slot_safe need sh c (CompareExchange p e d k) b = False"
| "slot_safe need sh c (FetchAdd p v k) b = False"
| "slot_safe need sh c (MemsetZero p n k) b = False"
| "slot_safe need sh c (Flush p n k) b = slot_safe need sh c k b"
| "slot_safe need sh c (Fence k) b = slot_safe need sh c k b"
| "slot_safe need sh c Crash b = True"
| "slot_safe need sh c OutOfFuel b = True"

lemma slot_safe_basic:
  "slot_safe need sh c (bind (atomic_load p) f) b \<longleftrightarrow>
     (\<forall>v. slot_safe need sh c (f v) (if cell_of sh p = c then v = 2 else b))"
  "slot_safe need sh c (seq (atomic_store p v) q) b \<longleftrightarrow>
     cell_of sh p = c \<and> v \<noteq> 2 \<and> slot_safe need sh c q False"
  "slot_safe need sh c (seq (flush_cache sh' p n) q) b = slot_safe need sh c q b"
  "slot_safe need sh c (seq memory_fence q) b = slot_safe need sh c q b"
  by (simp_all add: atomic_load_def atomic_store_def flush_cache_def memory_fence_def seq_def)

lemma slot_safe_bind:
  assumes "slot_safe True sh c p b"
    and "slot_safe need sh c (f SUCCESS) True"
    and "\<And>rc b. rc \<noteq> SUCCESS \<Longrightarrow> slot_safe need sh c (f rc) b"
  shows "slot_safe need sh c (bind p f) b"
  using assms(1)
proof (induction p arbitrary: b)
  case (Ret r)
  then show ?case using assms(2,3) by (cases "r = SUCCESS") auto
qed (simp_all split: if_splits)

text \<open>The code of the client is safe.\<close>

lemma cas_acquire_slot_safe:
  assumes "cas_fits sh nc off" and "l < MAX_LOCK_COUNT" and "n < nc"
  shows "slot_safe need sh (cas_slot nc off l n)
           (bind (cas_acquire_lock \<lparr>cas_node_count = nc\<rparr> n l (Some sh) off) f) b \<longleftrightarrow>
         slot_safe need sh (cas_slot nc off l n) (f SUCCESS) False"
  using cas_slot_addr [OF assms] cas_fits_node [OF assms(1,3)]
  by (simp add: cas_acquire_lock_def cas_write_slot_state_def deref_def prog_assoc slot_safe_basic
      cell_of_base)

lemma cas_release_slot_safe:
  assumes "cas_fits sh nc off" and "l < MAX_LOCK_COUNT" and "n < nc"
  shows "slot_safe need sh (cas_slot nc off l n)
           (bind (cas_release_lock \<lparr>cas_node_count = nc\<rparr> n l (Some sh) off) f) b \<longleftrightarrow>
         slot_safe need sh (cas_slot nc off l n) (f SUCCESS) False"
  using cas_slot_addr [OF assms] cas_fits_node [OF assms(1,3)]
  by (simp add: cas_release_lock_def cas_write_slot_state_def deref_def prog_assoc slot_safe_basic
      cell_of_base)

lemma tt_granted_cas:
  assumes "client_lock (CasAlgorithm a) sh nc off n tt"
  shows "tt_granted tt l =
     deref (cas_get_slot_addr l n nc sh off) (\<lambda>slot_addr.
       bind (atomic_load slot_addr) (\<lambda>val. Ret (val = u32_of_slot LOCKED)))"
  using assms
  by (simp add: tt_granted_def client_lock_def cas_get_slot_addr_def cas_get_slot_offset_def)

lemma tt_poll_slot_safe:
  assumes "cas_fits sh nc off" and "l < MAX_LOCK_COUNT" and "n < nc"
    and "client_lock (CasAlgorithm a) sh nc off n tt"
  shows "slot_safe True sh (cas_slot nc off l n) (tt_poll fuel tt l timeout clk i spin) b"
proof (induction fuel arbitrary: i spin b)
  case 0
  then show ?case by simp
next
  case (Suc fuel)
  then show ?case
    using cas_slot_addr [OF assms(1-3)]
    by (simp add: tt_granted_cas [OF assms(4)] deref_def prog_assoc slot_safe_basic cell_of_base)
qed

lemma tt_global_acquire_slot_safe:
  assumes "cas_fits sh nc off" and "l < MAX_LOCK_COUNT" and "n < nc"
    and "client_lock (CasAlgorithm \<lparr>cas_node_count = nc\<rparr>) sh nc off n tt"
  shows "slot_safe True sh (cas_slot nc off l n)
           (tt_global_acquire fuel tt (CasAlgorithm \<lparr>cas_node_count = nc\<rparr>) clk l timeout) b"
proof -
  have "tt_node_id tt = n" "tt_shm tt = Some sh" "tt_state_offset tt = off"
    using assms(4) by (simp_all add: client_lock_def)
  then show ?thesis
    using assms
    by (auto simp: tt_global_acquire_def alg_acquire_lock_def alg_release_lock_def poll_for_grant_def
        cas_acquire_slot_safe cas_release_slot_safe
        intro!: slot_safe_bind tt_poll_slot_safe)
qed

lemma tt_global_release_slot_safe:
  assumes "cas_fits sh nc off" and "l < MAX_LOCK_COUNT" and "n < nc"
    and "client_lock (CasAlgorithm \<lparr>cas_node_count = nc\<rparr>) sh nc off n tt"
  shows "slot_safe False sh (cas_slot nc off l n)
           (tt_global_release fuel tt (CasAlgorithm \<lparr>cas_node_count = nc\<rparr>) l) b"
proof -
  have "tt_node_id tt = n" "tt_shm tt = Some sh" "tt_state_offset tt = off"
    using assms(4) by (simp_all add: client_lock_def)
  then show ?thesis
    using cas_release_slot_safe [OF assms(1-3), of False Ret]
    by (simp add: tt_global_release_def alg_release_lock_def)
qed

text \<open>
  A step of a safe client changes no cell but its own, and there only to a value other than
  \<open>LOCKED\<close>.
\<close>

lemma slot_safe_step:
  assumes "pstep sh p m = (p', m')" and "slot_safe need sh c p b" and "b \<longrightarrow> m c = 2"
  shows "(\<exists>b'. slot_safe need sh c p' b' \<and> (b' \<longrightarrow> m' c = 2)) \<and>
         (\<forall>x. m' x \<noteq> m x \<longrightarrow> x = c \<and> m' x \<noteq> 2)"
  using assms by (cases p) (auto split: if_splits)

section \<open>The manager\<close>

text \<open>
  \<open>K\<close> are the slots that the manager knows not to be \<open>LOCKED\<close>; clients never make that
  knowledge false. \<open>Q\<close> is what the result of the tree satisfies.
\<close>

primrec manager_safe ::
  "u32 \<Rightarrow> ShmOffset \<Rightarrow> SharedMemoryRegion \<Rightarrow> ('a \<Rightarrow> bool) \<Rightarrow> 'a prog \<Rightarrow> (LockId \<times> NodeId) set \<Rightarrow> bool"
where
  "manager_safe nc off sh Q (Ret r) K = Q r"
| "manager_safe nc off sh Q (Load p k) K =
     (\<forall>v. manager_safe nc off sh Q (k v)
        (if v = 2 then K
         else K \<union> {(l, n). l < MAX_LOCK_COUNT \<and> n < nc \<and> cas_slot nc off l n = cell_of sh p}))"
| "manager_safe nc off sh Q (Store p v k) K = False"
| "manager_safe nc off sh Q (CompareExchange p e d k) K =
     (e = 1 \<and> d = 2 \<and>
      (\<exists>l n. l < MAX_LOCK_COUNT \<and> n < nc \<and> cell_of sh p = cas_slot nc off l n \<and>
             (\<forall>n' < nc. (l, n') \<in> K)) \<and>
      manager_safe nc off sh Q (k True) {} \<and> manager_safe nc off sh Q (k False) K)"
| "manager_safe nc off sh Q (FetchAdd p v k) K = False"
| "manager_safe nc off sh Q (MemsetZero p n k) K = False"
| "manager_safe nc off sh Q (Flush p n k) K = manager_safe nc off sh Q k K"
| "manager_safe nc off sh Q (Fence k) K = manager_safe nc off sh Q k K"
| "manager_safe nc off sh Q Crash K = True"
| "manager_safe nc off sh Q OutOfFuel K = True"

lemma manager_safe_basic:
  "manager_safe nc off sh Q (bind (atomic_load p) f) K \<longleftrightarrow>
     (\<forall>v. manager_safe nc off sh Q (f v)
        (if v = 2 then K
         else K \<union> {(l, n). l < MAX_LOCK_COUNT \<and> n < nc \<and> cas_slot nc off l n = cell_of sh p}))"
  "manager_safe nc off sh Q (bind (compare_exchange p e d) g) K \<longleftrightarrow>
     e = 1 \<and> d = 2 \<and>
     (\<exists>l n. l < MAX_LOCK_COUNT \<and> n < nc \<and> cell_of sh p = cas_slot nc off l n \<and>
            (\<forall>n' < nc. (l, n') \<in> K)) \<and>
     manager_safe nc off sh Q (g True) {} \<and> manager_safe nc off sh Q (g False) K"
  "manager_safe nc off sh Q (seq (flush_cache sh' p n) q) K = manager_safe nc off sh Q q K"
  "manager_safe nc off sh Q (seq memory_fence q) K = manager_safe nc off sh Q q K"
  by (simp_all add: atomic_load_def compare_exchange_def flush_cache_def memory_fence_def seq_def)

lemma cas_read_manager_safe:
  assumes "cas_fits sh nc off" and "l < MAX_LOCK_COUNT" and "n < nc"
    and "\<And>K'. K \<subseteq> K' \<Longrightarrow> manager_safe nc off sh Q (f LOCKED) K'"
    and "\<And>st K'. st \<noteq> LOCKED \<Longrightarrow> K \<subseteq> K' \<Longrightarrow> (l, n) \<in> K' \<Longrightarrow> manager_safe nc off sh Q (f st) K'"
  shows "manager_safe nc off sh Q (bind (cas_read_slot_state l n nc sh off) f) K"
  using cas_slot_addr [OF assms(1-3)] assms(2-5)
  by (auto simp: cas_read_slot_state_def deref_def prog_assoc manager_safe_basic cell_of_base
      slot_of_u32_def)

lemma cas_scan_locked_manager_safe:
  assumes "cas_fits sh nc off" and "l < MAX_LOCK_COUNT" and "\<forall>n \<in> set ns. n < nc"
    and "\<And>K'. manager_safe nc off sh Q (f True) K'"
    and "\<And>K'. K \<union> {l} \<times> set ns \<subseteq> K' \<Longrightarrow> manager_safe nc off sh Q (f False) K'"
  shows "manager_safe nc off sh Q (bind (cas_scan_locked l nc sh off ns) f) K"
  using assms(3,5)
proof (induction ns arbitrary: K)
  case Nil
  then show ?case by simp
next
  case (Cons n ns)
  have "manager_safe nc off sh Q (bind (cas_scan_locked l nc sh off ns) f) K'"
    if "K \<subseteq> K'" "(l, n) \<in> K'" for K'
    using Cons.prems that by (intro Cons.IH) auto
  then show ?case
    using Cons.prems(1) assms(4)
    by (auto simp: bind_assoc intro!: cas_read_manager_safe [OF assms(1,2)])
qed

lemma cas_scan_waiting_manager_safe:
  assumes "cas_fits sh nc off" and "l < MAX_LOCK_COUNT" and "\<forall>n \<in> set ns. n < nc"
    and "\<And>n K'. K \<subseteq> K' \<Longrightarrow> n < nc \<or> n = INVALID_NODE_ID \<Longrightarrow> manager_safe nc off sh Q (f n) K'"
  shows "manager_safe nc off sh Q (bind (cas_scan_waiting l nc sh off ns) f) K"
  using assms(3,4)
proof (induction ns arbitrary: K)
  case Nil
  then show ?case by simp
next
  case (Cons n ns)
  have "manager_safe nc off sh Q (bind (cas_scan_waiting l nc sh off ns) f) K'"
    if "K \<subseteq> K'" for K'
    using Cons.prems that by (intro Cons.IH) auto
  then show ?case
    using Cons.prems
    by (auto simp: bind_assoc intro!: cas_read_manager_safe [OF assms(1,2)])
qed

lemma cas_check_manager_safe:
  assumes "cas_fits sh nc off" and "l < MAX_LOCK_COUNT"
    and "\<And>K'. manager_safe nc off sh Q (f INVALID_NODE_ID) K'"
    and "\<And>n K'. n < nc \<Longrightarrow> \<forall>n' < nc. (l, n') \<in> K' \<Longrightarrow> manager_safe nc off sh Q (f n) K'"
  shows "manager_safe nc off sh Q (bind (cas_check_grant l (Some sh) off nc) f) K"
proof -
  have "0 < nc" using assms(1) by (simp add: cas_fits_def)
  moreover have "manager_safe nc off sh Q
      (bind (cas_scan_waiting l nc sh off (u32_upto nc)) f) K'"
    if K': "K \<union> {l} \<times> set (u32_upto nc) \<subseteq> K'" for K'
  proof (rule cas_scan_waiting_manager_safe [OF assms(1,2)])
    fix n K''
    assume "K' \<subseteq> K''" and n: "n < nc \<or> n = INVALID_NODE_ID"
    with K' have "\<forall>n' < nc. (l, n') \<in> K''" by (auto simp: subset_iff)
    with n show "manager_safe nc off sh Q (f n) K''" using assms(3,4) by blast
  qed simp
  ultimately show ?thesis
    using assms(1-3)
    by (auto simp: cas_check_grant_def bind_assoc intro!: cas_scan_locked_manager_safe)
qed

lemma cas_grant_manager_safe:
  assumes "cas_fits sh nc off" and "l < MAX_LOCK_COUNT" and "n < nc" and "\<forall>n' < nc. (l, n') \<in> K"
    and "\<And>rc K'. manager_safe nc off sh Q (f rc) K'"
  shows "manager_safe nc off sh Q
           (bind (cas_grant_lock \<lparr>cas_node_count = nc\<rparr> n l (Some sh) off) f) K"
  using cas_slot_addr [OF assms(1-3)] cas_fits_node [OF assms(1,3)] assms(2-5)
  by (auto simp: cas_grant_lock_def deref_def prog_assoc manager_safe_basic cell_of_base)

lemma scan_locks_manager_safe:
  assumes "cas_fits sh nc off" and "\<forall>l \<in> set ls. l < MAX_LOCK_COUNT"
    and "\<And>r K'. manager_safe nc off sh Q (f r) K'"
  shows "manager_safe nc off sh Q
           (bind (scan_locks (CasAlgorithm \<lparr>cas_node_count = nc\<rparr>) (Some sh) off nc ls w st) f) K"
  using assms(2)
proof (induction ls arbitrary: w st K)
  case Nil
  then show ?case using assms(3) by simp
next
  case (Cons l ls)
  have IH: "manager_safe nc off sh Q
      (bind (scan_locks (CasAlgorithm \<lparr>cas_node_count = nc\<rparr>) (Some sh) off nc ls w st) f) K" for w st K
    using Cons by simp
  have "l < MAX_LOCK_COUNT" using Cons.prems by simp
  then show ?case
    using IH
    by (auto simp: alg_check_grant_def alg_grant_lock_def bind_assoc
        intro!: cas_check_manager_safe [OF assms(1)] cas_grant_manager_safe [OF assms(1)])
qed

lemma run_single_scan_manager_safe:
  assumes "cas_fits sh nc off" and "manager_ready (CasAlgorithm \<lparr>cas_node_count = nc\<rparr>) sh nc off lm"
  shows "manager_safe nc off sh (manager_ready (CasAlgorithm \<lparr>cas_node_count = nc\<rparr>) sh nc off)
           (run_single_scan lm) K"
proof -
  have "\<forall>l \<in> set (u32_upto (lm_max_locks lm)). l < MAX_LOCK_COUNT"
    using assms(2) by (auto simp: manager_ready_def)
  then show ?thesis
    using assms
    by (auto simp: run_single_scan_def manager_ready_def Let_def
        intro!: scan_locks_manager_safe split: prod.splits)
qed

section \<open>Non-interference\<close>

definition cas_global_inv ::
  "u32 \<Rightarrow> ShmOffset \<Rightarrow> (NodeId \<times> LockId \<Rightarrow> SharedMemoryRegion) \<Rightarrow> SharedMemoryRegion \<Rightarrow> mem \<Rightarrow> bool"
where
  "cas_global_inv nc off reg mreg m \<longleftrightarrow>
     (\<forall>t. cas_fits (reg t) nc off) \<and> cas_fits mreg nc off \<and>
     (\<forall>l n n'. l < MAX_LOCK_COUNT \<longrightarrow> n < nc \<longrightarrow> n' < nc \<longrightarrow>
        m (cas_slot nc off l n) = 2 \<longrightarrow> m (cas_slot nc off l n') = 2 \<longrightarrow> n = n')"

fun cas_client_inv ::
  "u32 \<Rightarrow> ShmOffset \<Rightarrow> (NodeId \<times> LockId \<Rightarrow> SharedMemoryRegion) \<Rightarrow> NodeId \<times> LockId \<Rightarrow> client \<Rightarrow> mem \<Rightarrow> bool"
where
  "cas_client_inv nc off reg (n, l) Idle m = True"
| "cas_client_inv nc off reg (n, l) (Acquiring p) m =
     (n < nc \<and> l < MAX_LOCK_COUNT \<and>
      (\<exists>b. slot_safe True (reg (n, l)) (cas_slot nc off l n) p b \<and>
           (b \<longrightarrow> m (cas_slot nc off l n) = 2)))"
| "cas_client_inv nc off reg (n, l) Critical m =
     (n < nc \<and> l < MAX_LOCK_COUNT \<and> m (cas_slot nc off l n) = 2)"
| "cas_client_inv nc off reg (n, l) (Releasing p) m =
     (n < nc \<and> l < MAX_LOCK_COUNT \<and>
      (\<exists>b. slot_safe False (reg (n, l)) (cas_slot nc off l n) p b \<and>
           (b \<longrightarrow> m (cas_slot nc off l n) = 2)))"

definition cas_manager_inv ::
  "u32 \<Rightarrow> ShmOffset \<Rightarrow> SharedMemoryRegion \<Rightarrow> LockManager prog \<Rightarrow> mem \<Rightarrow> bool"
where
  "cas_manager_inv nc off mreg q m \<longleftrightarrow>
     (\<exists>K. manager_safe nc off mreg (manager_ready (CasAlgorithm \<lparr>cas_node_count = nc\<rparr>) mreg nc off) q K \<and>
          (\<forall>(l, n) \<in> K. l < MAX_LOCK_COUNT \<and> n < nc \<and> m (cas_slot nc off l n) \<noteq> 2))"

lemma cas_global_inv_fits:
  assumes "cas_global_inv nc off reg mreg m"
  shows "cas_fits (reg t) nc off" and "cas_fits mreg nc off" and "nc \<le> MAX_NODE_COUNT"
  using assms by (cases t; auto simp: cas_global_inv_def cas_fits_def)+

lemma cas_global_inv_unique:
  "cas_global_inv nc off reg mreg m \<Longrightarrow> l < MAX_LOCK_COUNT \<Longrightarrow> n < nc \<Longrightarrow> n' < nc \<Longrightarrow>
   m (cas_slot nc off l n) = 2 \<Longrightarrow> m (cas_slot nc off l n') = 2 \<Longrightarrow> n = n'"
  by (simp add: cas_global_inv_def)

text \<open>
  What a move of a client does: its own invariant is kept, and the memory changes at most at
  its own slot, not to \<open>LOCKED\<close>.
\<close>

lemma cas_client_move:
  assumes "client_move (lock_protocol (CasAlgorithm \<lparr>cas_node_count = nc\<rparr>) nc off reg mreg) (n, l) c m c' m'"
    and "cas_global_inv nc off reg mreg m" and "cas_client_inv nc off reg (n, l) c m"
  shows "cas_client_inv nc off reg (n, l) c' m' \<and>
         (\<forall>x. m' x \<noteq> m x \<longrightarrow> n < nc \<and> l < MAX_LOCK_COUNT \<and> x = cas_slot nc off l n \<and> m' x \<noteq> 2)"
proof -
  note fits = cas_global_inv_fits [OF assms(2)]
  from assms(1) show ?thesis
  proof (cases rule: client_move.cases)
    case (start_acquire p)
    then show ?thesis
      using tt_global_acquire_slot_safe [OF fits(1) [of "(n, l)"], where b = False]
      by (auto simp: lock_protocol_def intro!: exI [of _ False])
  next
    case (acquire_access p p')
    then have step: "pstep (reg (n, l)) p m = (p', m')" by (simp add: lock_protocol_def)
    obtain b where b: "slot_safe True (reg (n, l)) (cas_slot nc off l n) p b"
        "b \<longrightarrow> m (cas_slot nc off l n) = 2" and valid: "n < nc" "l < MAX_LOCK_COUNT"
      using assms(3) acquire_access(1) by auto
    show ?thesis
      using slot_safe_step [OF step b] valid acquire_access(2) by simp
  next
    case acquire_success
    then show ?thesis using assms(3) by auto
  next
    case (acquire_failure rc)
    then show ?thesis by simp
  next
    case (start_release p)
    then show ?thesis
      using tt_global_release_slot_safe [OF fits(1) [of "(n, l)"], where b = False] assms(3)
      by (auto simp: lock_protocol_def intro!: exI [of _ False])
  next
    case (release_access p p')
    then have step: "pstep (reg (n, l)) p m = (p', m')" by (simp add: lock_protocol_def)
    obtain b where b: "slot_safe False (reg (n, l)) (cas_slot nc off l n) p b"
        "b \<longrightarrow> m (cas_slot nc off l n) = 2" and valid: "n < nc" "l < MAX_LOCK_COUNT"
      using assms(3) release_access(1) by auto
    show ?thesis
      using slot_safe_step [OF step b] valid release_access(2) by simp
  next
    case (release_done rc)
    then show ?thesis by simp
  qed
qed

lemma cas_client_inv_slot:
  assumes "cas_client_inv nc off reg (n, l) c m"
    and "n < nc \<Longrightarrow> l < MAX_LOCK_COUNT \<Longrightarrow> m (cas_slot nc off l n) = 2 \<Longrightarrow> m' (cas_slot nc off l n) = 2"
  shows "cas_client_inv nc off reg (n, l) c m'"
  using assms by (cases c) auto

text \<open>
  What a move of the manager does: nothing, or it sets one slot to \<open>LOCKED\<close> in a row without
  a \<open>LOCKED\<close> slot.
\<close>

lemma manager_safe_step:
  assumes "pstep sh q m = (q', m')" and "manager_safe nc off sh Q q K"
    and "\<forall>(l, n) \<in> K. l < MAX_LOCK_COUNT \<and> n < nc \<and> m (cas_slot nc off l n) \<noteq> 2"
  shows "(\<exists>K'. manager_safe nc off sh Q q' K' \<and>
            (\<forall>(l, n) \<in> K'. l < MAX_LOCK_COUNT \<and> n < nc \<and> m' (cas_slot nc off l n) \<noteq> 2)) \<and>
         (m' = m \<or> (\<exists>l n. l < MAX_LOCK_COUNT \<and> n < nc \<and> m' = m(cas_slot nc off l n := 2) \<and>
                          (\<forall>n' < nc. m (cas_slot nc off l n') \<noteq> 2)))"
proof (cases q)
  case (Load p k)
  let ?v = "m (cell_of sh p)"
  let ?K = "if ?v = 2 then K
    else K \<union> {(l, n). l < MAX_LOCK_COUNT \<and> n < nc \<and> cas_slot nc off l n = cell_of sh p}"
  show ?thesis
  proof (cases "in_bounds sh p 4")
    case True
    have "manager_safe nc off sh Q (k ?v) ?K" using assms(2) Load by simp
    moreover have "\<forall>(l, n) \<in> ?K. l < MAX_LOCK_COUNT \<and> n < nc \<and> m (cas_slot nc off l n) \<noteq> 2"
      using assms(3) by auto
    moreover have "q' = k ?v" "m' = m" using assms(1) Load True by auto
    ultimately show ?thesis by blast
  next
    case False
    then have "q' = Crash" "m' = m" using assms(1) Load by auto
    then show ?thesis using assms(3) by auto
  qed
next
  case (CompareExchange p e d k)
  with assms(2) obtain l n where ln: "l < MAX_LOCK_COUNT" "n < nc" "cell_of sh p = cas_slot nc off l n"
      "\<forall>n' < nc. (l, n') \<in> K"
    and safe: "e = 1" "d = 2" "manager_safe nc off sh Q (k True) {}" "manager_safe nc off sh Q (k False) K"
    by auto
  have free: "\<forall>n' < nc. m (cas_slot nc off l n') \<noteq> 2" using ln(4) assms(3) by auto
  consider "q' = Crash \<and> m' = m" | "q' = k True \<and> m' = m(cas_slot nc off l n := 2)"
    | "q' = k False \<and> m' = m"
    using assms(1) CompareExchange ln(3) safe(2) by (auto split: if_splits)
  then show ?thesis
  proof cases
    case 1
    then show ?thesis using assms(3) by auto
  next
    case 2
    then show ?thesis using safe(3) ln(1,2) free by auto
  next
    case 3
    then show ?thesis using safe(4) assms(3) by auto
  qed
qed (use assms in auto)

lemma cas_manager_move:
  assumes "manager_move (lock_protocol (CasAlgorithm \<lparr>cas_node_count = nc\<rparr>) nc off reg mreg) q m q' m'"
    and "cas_global_inv nc off reg mreg m" and "cas_manager_inv nc off mreg q m"
  shows "cas_manager_inv nc off mreg q' m' \<and>
         (m' = m \<or> (\<exists>l n. l < MAX_LOCK_COUNT \<and> n < nc \<and> m' = m(cas_slot nc off l n := 2) \<and>
                          (\<forall>n' < nc. m (cas_slot nc off l n') \<noteq> 2)))"
  using assms(1)
proof (cases rule: manager_move.cases)
  case scan_access
  then show ?thesis
    using assms(3) manager_safe_step [of mreg q m q' m' nc off
        "manager_ready (CasAlgorithm \<lparr>cas_node_count = nc\<rparr>) mreg nc off"]
    unfolding cas_manager_inv_def lock_protocol_def by (elim exE conjE) simp
next
  case (scan_next lm)
  then have ready: "manager_ready (CasAlgorithm \<lparr>cas_node_count = nc\<rparr>) mreg nc off lm"
    using assms(3) by (auto simp: cas_manager_inv_def)
  then show ?thesis
    using run_single_scan_manager_safe [OF cas_global_inv_fits(2) [OF assms(2)] ready, where K = "{}"] scan_next
    by (auto simp: cas_manager_inv_def lock_protocol_def)
qed

interpretation cas_system: interleaved_invariant
  "lock_protocol (CasAlgorithm \<lparr>cas_node_count = nc\<rparr>) nc off reg mreg"
  "cas_global_inv nc off reg mreg" "cas_client_inv nc off reg" "cas_manager_inv nc off mreg"
  for nc off reg mreg
proof unfold_locales
  fix t c m c' m'
  assume move: "client_move (lock_protocol (CasAlgorithm \<lparr>cas_node_count = nc\<rparr>) nc off reg mreg) t c m c' m'"
    and g: "cas_global_inv nc off reg mreg m" and ci: "cas_client_inv nc off reg t c m"
  obtain n l where t: "t = (n, l)" by fastforce
  note eff = cas_client_move [OF move [unfolded t] g ci [unfolded t]]
  have slot: "m' (cas_slot nc off l' n') = 2 \<Longrightarrow> m (cas_slot nc off l' n') = 2" for l' n'
    using eff by metis
  show "cas_global_inv nc off reg mreg m' \<and> cas_client_inv nc off reg t c' m'"
    using g eff slot unfolding t cas_global_inv_def by blast
  show "cas_client_inv nc off reg t' d m'"
    if "t' \<noteq> t" and "cas_client_inv nc off reg t' d m" for t' d
  proof -
    obtain n' l' where t': "t' = (n', l')" by fastforce
    have same: "m' (cas_slot nc off l' n') = m (cas_slot nc off l' n')" if "n' < nc" "l' < MAX_LOCK_COUNT"
      using eff cas_slot_inj [OF cas_global_inv_fits(3) [OF g], of l n l' n' off] that \<open>t' \<noteq> t\<close>
      unfolding t t' by metis
    show ?thesis
      unfolding t' by (rule cas_client_inv_slot [OF that(2) [unfolded t']]) (simp add: same)
  qed
  show "cas_manager_inv nc off mreg q m'" if "cas_manager_inv nc off mreg q m" for q
    using that slot unfolding cas_manager_inv_def by blast
next
  fix q m q' m'
  assume move: "manager_move (lock_protocol (CasAlgorithm \<lparr>cas_node_count = nc\<rparr>) nc off reg mreg) q m q' m'"
    and g: "cas_global_inv nc off reg mreg m" and mi: "cas_manager_inv nc off mreg q m"
  note eff = cas_manager_move [OF move g mi]
  show "cas_client_inv nc off reg t d m'" if "cas_client_inv nc off reg t d m" for t d
  proof -
    obtain n l where t: "t = (n, l)" by fastforce
    show ?thesis
      unfolding t by (rule cas_client_inv_slot [OF that [unfolded t]]) (use eff in auto)
  qed
  have "m' = m \<or> cas_global_inv nc off reg mreg m'"
  proof (cases "m' = m")
    case False
    then obtain l n where ln: "l < MAX_LOCK_COUNT" "n < nc" "m' = m(cas_slot nc off l n := 2)"
        "\<forall>n' < nc. m (cas_slot nc off l n') \<noteq> 2"
      using eff by blast
    have "n1 = n2" if "l' < MAX_LOCK_COUNT" "n1 < nc" "n2 < nc"
        "m' (cas_slot nc off l' n1) = 2" "m' (cas_slot nc off l' n2) = 2" for l' n1 n2
      using that ln cas_slot_inj [OF cas_global_inv_fits(3) [OF g]] cas_global_inv_unique [OF g]
      by (metis fun_upd_apply)
    then show ?thesis using g by (simp add: cas_global_inv_def)
  qed simp
  then show "cas_global_inv nc off reg mreg m' \<and> cas_manager_inv nc off mreg q' m'"
    using g eff by blast
qed

section \<open>Mutual exclusion\<close>

text \<open>A node that asks for a free lock is let in by the next scan.\<close>

lemma cas_can_enter:
  assumes "cas_fits (reg (n, l)) nc off" and "cas_fits mreg nc off"
    and "manager_ready (CasAlgorithm \<lparr>cas_node_count = nc\<rparr>) mreg nc off lm"
    and "client_lock (CasAlgorithm \<lparr>cas_node_count = nc\<rparr>) (reg (n, l)) nc off n tt"
    and "n < nc" and "l < lm_max_locks lm" and "\<And>n'. n' < nc \<Longrightarrow> m (cas_slot nc off l n') = 0"
  shows "\<exists>s. reachable (lock_protocol (CasAlgorithm \<lparr>cas_node_count = nc\<rparr>) nc off reg mreg)
               (initial_system m lm) s \<and> clients s = (\<lambda>_. Idle)((n, l) := Critical)"
proof -
  let ?alg = "CasAlgorithm \<lparr>cas_node_count = nc\<rparr>" and ?c = "cas_slot nc off l n"
  let ?P = "lock_protocol ?alg nc off reg mreg" and ?sh = "reg (n, l)"
  let ?A = "cas_acquire_lock \<lparr>cas_node_count = nc\<rparr> n l (Some ?sh) off"
  let ?B = "tt_poll 1 tt l 0 (\<lambda>_. 0) 0 0"
  have tt: "tt_node_id tt = n" "tt_shm tt = Some ?sh" "tt_state_offset tt = off"
    using assms(4) by (simp_all add: client_lock_def)
  have l: "l < MAX_LOCK_COUNT"
    using assms(3,6) unfolding manager_ready_def by (blast intro: order.strict_trans2)
  have nc: "nc \<le> MAX_NODE_COUNT" using assms(2) by (simp add: cas_fits_def)
  obtain F G where req: "tt_global_acquire 1 tt ?alg (\<lambda>_. 0) l 0 = bind ?A F"
      and F: "F SUCCESS = bind ?B G" and G: "G SUCCESS = Ret SUCCESS"
    using tt that by (simp add: tt_global_acquire_def alg_acquire_lock_def poll_for_grant_def)
  have acq: "acquisition ?P (n, l) (bind ?A F)"
    unfolding req [symmetric] using assms(4,5) l by (auto simp: lock_protocol_def)
  have pick: "cas_pick nc (cas_row nc off (m(?c := 1)) l) = Some n"
    using assms(5,7) cas_slot_inj [OF nc l _ l] by (auto simp: cas_pick_Some)
  define m2 where "m2 = fold (cas_grant_row nc off) (u32_upto (lm_max_locks lm)) (m(?c := 1))"
  have m2: "m2 ?c = 2"
    unfolding m2_def using assms(3,5,6) pick nc l
    by (subst fold_cas_grant_row) (auto simp: manager_ready_def)
  have scan: "\<exists>lm'. run (manager_region ?P) (next_scan ?P lm) (m(?c := 1)) = Result lm' m2"
    using assms(2,3) by (simp add: lock_protocol_def manager_ready_def run_cas_single_scan Let_def m2_def)
  have poll: "run (region_of ?P (n, l)) ?B m2 = Result SUCCESS m2"
    using m2 cas_slot_addr [OF assms(1) l assms(5)]
    by (simp add: lock_protocol_def tt_granted_cas [OF assms(4)] prog_simps prog_assoc)
  have ask: "run (region_of ?P (n, l)) ?A m = Result SUCCESS (m(?c := 1))"
    using assms(1,5) l by (simp add: lock_protocol_def run_cas_acquire)
  from scan obtain lm' where "run (manager_region ?P) (next_scan ?P lm) (m(?c := 1)) = Result lm' m2" ..
  from can_enter [OF acq ask F this poll G] show ?thesis by blast
qed

text \<open>The locks of a two-node system over the concrete mapping.\<close>

definition cas_demo_lock :: "NodeId \<Rightarrow> TwoTierLock" where
  "cas_demo_lock n = new_two_tier_lock\<lparr>tt_node_id := n, tt_has_local_locks := True,
     tt_shm := Some demo_region, tt_algorithm := Some (CasAlgorithm \<lparr>cas_node_count = 2\<rparr>),
     tt_max_locks := 1, tt_node_count := 2, tt_initialized := True\<rparr>"

definition cas_demo_manager :: LockManager where
  "cas_demo_manager = new_lock_manager\<lparr>lm_shm := Some demo_region,
     lm_algorithm := Some (CasAlgorithm \<lparr>cas_node_count = 2\<rparr>), lm_max_locks := 1,
     lm_node_count := 2, lm_initialized := True, lm_is_manager := True\<rparr>"

abbreviation cas_demo_protocol :: "(NodeId \<times> LockId, LockManager) protocol" where
  "cas_demo_protocol \<equiv>
     lock_protocol (CasAlgorithm \<lparr>cas_node_count = 2\<rparr>) 2 0 (\<lambda>_. demo_region) demo_region"

lemma cas_demo_ready:
  "client_lock (CasAlgorithm \<lparr>cas_node_count = 2\<rparr>) demo_region 2 0 n (cas_demo_lock n)"
  "manager_ready (CasAlgorithm \<lparr>cas_node_count = 2\<rparr>) demo_region 2 0 cas_demo_manager"
  "cas_fits demo_region 2 0"
  by (simp_all add: client_lock_def manager_ready_def cas_demo_lock_def cas_demo_manager_def
      new_two_tier_lock_def new_lock_manager_def demo_cas_fits MAX_NODE_COUNT_def MAX_LOCK_COUNT_def)

lemma cas_exclusive:
  assumes "\<forall>t. cas_fits (reg t) nc off" and "cas_fits mreg nc off"
    and "manager_ready (CasAlgorithm \<lparr>cas_node_count = nc\<rparr>) mreg nc off lm"
    and "\<forall>l n. l < MAX_LOCK_COUNT \<longrightarrow> n < nc \<longrightarrow> m (cas_get_slot_offset l n nc off) \<noteq> u32_of_slot LOCKED"
    and "reachable (lock_protocol (CasAlgorithm \<lparr>cas_node_count = nc\<rparr>) nc off reg mreg)
           (initial_system m lm) s"
    and "clients s (n, l) = Critical" and "clients s (n', l) = Critical"
  shows "n = n'"
proof -
  have g: "cas_global_inv nc off reg mreg m"
    using assms(1,2,4) by (simp add: cas_global_inv_def)
  have q: "cas_manager_inv nc off mreg (Ret lm) m"
    using assms(3) by (auto simp: cas_manager_inv_def intro!: exI [of _ "{}"])
  have c: "cas_client_inv nc off reg t Idle m" for t
    by (cases t) simp
  note inv = cas_system.reachable_client [OF assms(5) g q c]
  from inv(2) [of "(n, l)"] inv(2) [of "(n', l)"] show ?thesis
    using assms(6,7) by (auto dest: cas_global_inv_unique [OF inv(1)])
qed

text \<open>
  C1. At most one node is inside the critical section of a lock: in every state that the
  two-tier locks of all nodes and the lock manager can reach by interleaving single accesses
  to shared memory, under the CAS algorithm, from a memory in which no slot is \<open>LOCKED\<close>.
\<close>

theorem cas_mutual_exclusion:
  assumes "\<forall>t. cas_fits (reg t) nc off" and "cas_fits mreg nc off"
    and "manager_ready (CasAlgorithm \<lparr>cas_node_count = nc\<rparr>) mreg nc off lm"
    and "\<forall>l n. l < MAX_LOCK_COUNT \<longrightarrow> n < nc \<longrightarrow> m (cas_get_slot_offset l n nc off) \<noteq> u32_of_slot LOCKED"
    and "reachable (lock_protocol (CasAlgorithm \<lparr>cas_node_count = nc\<rparr>) nc off reg mreg)
           (initial_system m lm) s"
    and "clients s (n, l) = Critical" and "clients s (n', l) = Critical"
  shows "n = n'"
  by (rule cas_exclusive [OF assms])

theorem cas_mutual_exclusion_witness:
  "\<exists>s. reachable cas_demo_protocol (initial_system (\<lambda>_. 0) cas_demo_manager) s \<and>
       {n. clients s (n, 0) = Critical} = {1}"
proof -
  obtain s where s: "reachable cas_demo_protocol (initial_system (\<lambda>_. 0) cas_demo_manager) s"
      "clients s = (\<lambda>_. Idle)((1, 0) := Critical)"
    using cas_can_enter [of "\<lambda>_. demo_region" 1 0 2 0 demo_region cas_demo_manager "cas_demo_lock 1" "\<lambda>_. 0"]
      cas_demo_ready by (auto simp: cas_demo_manager_def new_lock_manager_def)
  have one: "clients s (1, 0) = Critical" using s(2) by simp
  have only: "n = 1" if "clients s (n, 0) = Critical" for n
    using cas_mutual_exclusion [of "\<lambda>_. demo_region" 2 0 demo_region cas_demo_manager "\<lambda>_. 0" s n 0 1]
      s(1) cas_demo_ready that one by simp
  have "{n. clients s (n, 0) = Critical} = {1}"
    using one only by blast
  with s(1) show ?thesis by blast
qed

end
