(* ===== verification/System_Session.thy ===== *)
theory System_Session
  imports System_Start Cas_Mutex Mcs_Mutex
begin

text \<open>
  The public class \<open>DistributedLockSystem\<close> (\<open>src/distributed_lock.cpp\<close>, the forwarding functions at its end) as an object
  that answers calls, one after the other: what any sequence of calls does to the resources and the parts of the
  system. Then what the lock theorems give for the state that \<open>initialize\<close> leaves, under the CAS and the MCS algorithm:
  the nodes exclude each other and get in. \<open>Thread_Calls\<close> puts the two together.
\<close>

section \<open>The public interface\<close>

text \<open>
  A call carries what its execution depends on beside the arguments: the calling thread, the clock and the fuel of the
  loops, for \<open>initialize\<close> the operating system and the success of allocations.
\<close>

datatype call =
    Initialize os bool "nat \<Rightarrow> bool" Config bool
  | Shutdown
  | AcquireLock nat thread "nat \<Rightarrow> u64" LockId u64
  | ReleaseLock nat thread LockId
  | TryLock nat thread "nat \<Rightarrow> u64" LockId
  | AcquireDataLock nat thread "nat \<Rightarrow> u64" "8 word list" u64
  | ReleaseDataLock nat thread "8 word list"
  | GetDataLockId "8 word list"
  | IsLockManager
  | GetNodeId
  | GetAlgorithmName
  | GetLockManagerStats
  | InitiateFaultRecovery
  | CheckNodeHealth NodeId
  | IsInitialized

datatype reply = Void | Code LockResult | Lock LockId | Flag bool | Node NodeId | Name string | Statistics Stats

text \<open>The constructor makes a new \<open>Impl\<close>, the destructor deletes it; no function changes the pointer.\<close>

definition system_construct :: DistributedLockSystem where
  "system_construct = new_system"

definition system_destruct :: "DistributedLockSystem \<Rightarrow> os_event list prog" where
  "system_destruct sys = sys_destroy sys"

abbreviation (input) "answer r sys \<equiv> Ret (r, [], sys)"

definition code_of :: "(LockResult \<times> DistributedLockSystem) prog \<Rightarrow> (reply \<times> os_event list \<times> DistributedLockSystem) prog" where
  "code_of p = bind p (\<lambda>(rc, sys). answer (Code rc) sys)"

text \<open>\<open>None\<close>: the call blocks in a local mutex.\<close>

fun system_call :: "call \<Rightarrow> DistributedLockSystem \<Rightarrow> (reply \<times> os_event list \<times> DistributedLockSystem) prog option" where
  "system_call (Initialize os alloc ini config as_lock_manager) sys =
     Some (bind (sys_initialize os alloc ini config as_lock_manager sys) (\<lambda>(rc, evs, sys'). Ret (Code rc, evs, sys')))"
| "system_call Shutdown sys = Some (bind (sys_shutdown sys) (\<lambda>(evs, sys'). Ret (Void, evs, sys')))"
| "system_call (AcquireLock fuel t clk lock_id timeout_ms) sys = map_option code_of (sys_acquire_lock fuel t clk lock_id timeout_ms sys)"
| "system_call (ReleaseLock fuel t lock_id) sys = Some (code_of (sys_release_lock fuel t lock_id sys))"
| "system_call (TryLock fuel t clk lock_id) sys = Some (code_of (sys_try_lock fuel t clk lock_id sys))"
| "system_call (AcquireDataLock fuel t clk key timeout_ms) sys =
     map_option code_of (sys_acquire_data_lock fuel t clk key timeout_ms sys)"
| "system_call (ReleaseDataLock fuel t key) sys = Some (code_of (sys_release_data_lock fuel t key sys))"
| "system_call (GetDataLockId key) sys =
     Some (case sys_get_data_lock_id key sys of None \<Rightarrow> Crash | Some lid \<Rightarrow> answer (Lock lid) sys)"
| "system_call IsLockManager sys = Some (answer (Flag (sys_is_lock_manager sys)) sys)"
| "system_call GetNodeId sys = Some (answer (Node (sys_node_id sys)) sys)"
| "system_call GetAlgorithmName sys = Some (answer (Name (sys_get_algorithm_name sys)) sys)"
| "system_call GetLockManagerStats sys = Some (answer (Statistics (sys_get_lock_manager_stats sys)) sys)"
| "system_call InitiateFaultRecovery sys = Some (answer (Code (sys_initiate_fault_recovery sys)) sys)"
| "system_call (CheckNodeHealth node_id) sys = Some (answer (Code (sys_check_node_health node_id sys)) sys)"
| "system_call IsInitialized sys = Some (answer (Flag (sys_initialized sys)) sys)"

text \<open>
  A session is a sequence of calls. It ends early with \<open>None\<close> if a call blocks, and with \<open>Fault\<close> or \<open>NoFuel\<close> as the call does. The
  region is where the process has mapped the shared memory.
\<close>

fun run_calls ::
  "SharedMemoryRegion \<Rightarrow> call list \<Rightarrow> DistributedLockSystem \<Rightarrow> mem \<Rightarrow> (reply list \<times> os_event list \<times> DistributedLockSystem) outcome option"
where
  "run_calls sh [] sys m = Some (Result ([], [], sys) m)"
| "run_calls sh (c # cs) sys m =
     (case system_call c sys of
        None \<Rightarrow> None
      | Some p \<Rightarrow>
          (case run sh p m of
             Result (r, evs, sys1) m1 \<Rightarrow>
               (case run_calls sh cs sys1 m1 of
                  Some (Result (rs, evs', sys2) m2) \<Rightarrow> Some (Result (r # rs, evs @ evs', sys2) m2)
                | other \<Rightarrow> other)
           | Fault \<Rightarrow> Some Fault
           | NoFuel \<Rightarrow> Some NoFuel))"

section \<open>What the lock operations keep\<close>

definition same_locks :: "LocalLockArray \<Rightarrow> LocalLockArray \<Rightarrow> bool" where
  "same_locks ll ll' \<longleftrightarrow> ll_initialized ll' = ll_initialized ll \<and> ll_lock_count ll' = ll_lock_count ll"

lemma ll_same_locks:
  "ll_acquire t l ll = Returns rc ll' \<Longrightarrow> same_locks ll ll'"
  "ll_release t l ll = Some (rc, ll') \<Longrightarrow> same_locks ll ll'"
  "ll_try_acquire t l ll = Some (rc, ll') \<Longrightarrow> same_locks ll ll'"
  by (auto simp: same_locks_def ll_acquire_def ll_release_def ll_try_acquire_def split: if_splits option.splits prod.splits)

lemma same_locks_refl [simp]: "same_locks ll ll"
  by (simp add: same_locks_def)

lemma same_locks_trans [trans]: "same_locks a b \<Longrightarrow> same_locks b c \<Longrightarrow> same_locks a c"
  by (simp add: same_locks_def)

lemma tt_acquire_same_locks:
  assumes "tt_acquire fuel t clk l timeout tt ll = Some p" and "run sh p m = Result (rc, ll') m'"
  shows "same_locks ll ll'"
  using assms ll_same_locks(1) [of t l ll]
  by (auto simp: tt_acquire_def split: if_splits option.splits ll_acquired.splits elim!: run_bind_ResultE
      dest!: ll_same_locks(2))
     (blast intro: same_locks_trans)+

lemma tt_release_same_locks:
  assumes "run sh (tt_release fuel t l tt ll) m = Result (rc, ll') m'"
  shows "same_locks ll ll'"
  using assms ll_same_locks(2) [of t l ll]
  by (auto simp: tt_release_def split: if_splits option.splits elim!: run_bind_ResultE)

lemma tt_try_acquire_same_locks:
  assumes "run sh (tt_try_acquire fuel t clk l tt ll) m = Result (rc, ll') m'"
  shows "same_locks ll ll'"
  using assms ll_same_locks(3) [of t l ll]
  by (auto simp: tt_try_acquire_def split: if_splits option.splits prod.splits elim!: run_bind_ResultE
      dest!: ll_same_locks(2))
     (blast intro: same_locks_trans)+

text \<open>A lock operation changes the local locks only, and these only in who holds them.\<close>

definition lock_change :: "DistributedLockSystem \<Rightarrow> DistributedLockSystem \<Rightarrow> bool" where
  "lock_change sys sys' \<longleftrightarrow> sys' = sys \<or>
     (\<exists>ll ll'. sys_local_locks sys = Some ll \<and> same_locks ll ll' \<and> sys' = sys\<lparr>sys_local_locks := Some ll'\<rparr>)"

lemma lock_change_wf:
  "lock_change sys sys' \<Longrightarrow> sys_wf sys \<Longrightarrow> sys_wf sys' \<and> sys_held sys' = sys_held sys \<and> sys_initialized sys' = sys_initialized sys"
  by (auto simp: lock_change_def sys_wf_def sys_held_def same_locks_def)

lemma sys_acquire_lock_change:
  assumes "sys_acquire_lock fuel t clk l timeout sys = Some p" and "run sh p m = Result (rc, sys') m'"
  shows "lock_change sys sys'"
  using assms tt_acquire_same_locks
  by (fastforce simp: sys_acquire_lock_def lock_change_def split: if_splits option.splits elim!: run_bind_ResultE)

lemma sys_release_lock_change:
  assumes "run sh (sys_release_lock fuel t l sys) m = Result (rc, sys') m'"
  shows "lock_change sys sys'"
  using assms tt_release_same_locks
  by (fastforce simp: sys_release_lock_def lock_change_def split: if_splits option.splits elim!: run_bind_ResultE)

lemma sys_try_lock_change:
  assumes "run sh (sys_try_lock fuel t clk l sys) m = Result (rc, sys') m'"
  shows "lock_change sys sys'"
  using assms tt_try_acquire_same_locks
  by (fastforce simp: sys_try_lock_def lock_change_def split: if_splits option.splits elim!: run_bind_ResultE)

lemma run_code_of:
  assumes "run sh (code_of p) m = Result (r, evs, sys') m'"
  obtains rc where "r = Code rc" and "evs = []" and "run sh p m = Result (rc, sys') m'"
  using assms by (auto simp: code_of_def elim!: run_bind_ResultE)

section \<open>What every call keeps\<close>

fun documented_call :: "call \<Rightarrow> bool" where
  "documented_call (Initialize os alloc ini config as_lock_manager) = os_documented os"
| "documented_call _ = True"

lemma system_call_balanced:
  assumes "system_call c sys = Some p" and "documented_call c" and "sys_wf sys" and "run sh p m = Result (r, evs, sys') m'"
  shows "sys_wf sys' \<and> account_all evs (sys_held sys) = sys_held sys'"
proof (cases c)
  case (Initialize os alloc ini config as_lock_manager)
  then obtain rc where "run sh (sys_initialize os alloc ini config as_lock_manager sys) m = Result (rc, evs, sys') m'"
    using assms(1,4) by (auto elim!: run_bind_ResultE)
  then show ?thesis
    using sys_initialize_result [OF assms(3)] assms(2,3) Initialize
    by (cases "sys_initialized sys") (auto simp: sys_initialize_def)
next
  case Shutdown
  then show ?thesis using assms sys_shutdown_result [OF assms(3)] by (auto elim!: run_bind_ResultE)
next
  case (AcquireLock fuel t clk l timeout)
  then show ?thesis
    using assms sys_acquire_lock_change lock_change_wf by (fastforce elim!: run_code_of)
next
  case (ReleaseLock fuel t l)
  then show ?thesis
    using assms sys_release_lock_change lock_change_wf by (fastforce elim!: run_code_of)
next
  case (TryLock fuel t clk l)
  then show ?thesis
    using assms sys_try_lock_change lock_change_wf by (fastforce elim!: run_code_of)
next
  case (AcquireDataLock fuel t clk key timeout)
  then obtain q where q: "sys_acquire_data_lock fuel t clk key timeout sys = Some q" "p = code_of q"
    using assms(1) by auto
  then obtain rc where "run sh q m = Result (rc, sys') m'" "evs = []"
    using assms(4) by (auto elim!: run_code_of)
  moreover from this q(1) obtain l where "sys_acquire_lock fuel t clk l timeout sys = Some q"
    by (auto simp: sys_acquire_data_lock_def split: option.splits)
  ultimately show ?thesis using lock_change_wf [OF sys_acquire_lock_change assms(3)] by auto
next
  case (ReleaseDataLock fuel t key)
  then obtain rc where "run sh (sys_release_data_lock fuel t key sys) m = Result (rc, sys') m'" "evs = []"
    using assms(1,4) by (auto elim!: run_code_of)
  moreover from this(1) obtain l where "sys_release_data_lock fuel t key sys = sys_release_lock fuel t l sys"
    by (auto simp: sys_release_data_lock_def split: option.splits)
  ultimately show ?thesis using lock_change_wf [OF sys_release_lock_change assms(3)] by auto
qed (use assms in \<open>auto split: option.splits\<close>)

lemma run_calls_Cons:
  assumes "run_calls sh (c # cs) sys m = Some (Result (rs, evs, sys2) m2)"
  obtains p r evs1 sys1 m1 rs' evs' where "system_call c sys = Some p" and "run sh p m = Result (r, evs1, sys1) m1"
    and "run_calls sh cs sys1 m1 = Some (Result (rs', evs', sys2) m2)" and "rs = r # rs'" and "evs = evs1 @ evs'"
  using assms by (auto split: option.splits outcome.splits)

lemma run_calls_balanced:
  assumes "list_all documented_call cs" and "sys_wf sys" and "run_calls sh cs sys m = Some (Result (rs, evs, sys') m')"
  shows "sys_wf sys' \<and> account_all evs (sys_held sys) = sys_held sys'"
  using assms
proof (induction cs arbitrary: sys m rs evs)
  case Nil
  then show ?case by simp
next
  case (Cons c cs)
  from Cons.prems(3) obtain p r evs1 sys1 m1 rs' evs' where
      c: "system_call c sys = Some p" "run sh p m = Result (r, evs1, sys1) m1"
    and cs: "run_calls sh cs sys1 m1 = Some (Result (rs', evs', sys') m')" "evs = evs1 @ evs'"
    by (rule run_calls_Cons)
  have one: "sys_wf sys1 \<and> account_all evs1 (sys_held sys) = sys_held sys1"
    using system_call_balanced [OF c(1) _ _ c(2)] Cons.prems(1,2) by simp
  from Cons.IH [OF _ _ cs(1)] one Cons.prems(1) show ?case by (simp add: cs(2))
qed

lemma sys_wf_new: "sys_wf new_system" "sys_held new_system = {#}"
  by (simp_all add: sys_wf_def new_system_def sys_held_def)

text \<open>The destructor succeeds and gives everything back.\<close>

lemma run_replace_pool_returns:
  assumes "pred_option pool_wf (sys_pool sys)"
  shows "\<exists>evs. run sh (replace_pool sys) m = Result evs m"
proof (cases "sys_pool sys")
  case (Some pool)
  then show ?thesis using assms run_pool_close [of pool sh m] by (auto simp: replace_pool_def pool_destroy_def run_bind)
qed (simp add: replace_pool_def)

lemma run_sys_shutdown_returns:
  assumes "sys_wf sys"
  shows "\<exists>evs sys'. run sh (sys_shutdown sys) m = Result (evs, sys') m"
proof (cases "sys_initialized sys")
  case True
  define sys2 where "sys2 = (if sys_lock_manager_started sys \<and> sys_lock_manager sys \<noteq> None
                    then sys\<lparr>sys_lock_manager := map_option (\<lambda>lm. snd (lm_stop lm)) (sys_lock_manager sys),
                             sys_lock_manager_started := False\<rparr>
                    else sys)\<lparr>sys_two_tier_lock := None, sys_local_locks := None, sys_algorithm := None\<rparr>"
  have "pred_option pool_wf (sys_pool sys2)" using assms by (auto simp: sys2_def sys_wf_def)
  from run_replace_pool_returns [OF this] obtain evs where "run sh (replace_pool sys2) m = Result evs m" by blast
  then have "run sh (sys_shutdown sys) m = Result (evs, sys2\<lparr>sys_pool := None, sys_lock_manager := None, sys_initialized := False\<rparr>) m"
    using True by (simp add: sys_shutdown_def Let_def run_bind sys2_def)
  then show ?thesis by blast
qed (simp add: sys_shutdown_def)

lemma run_system_destruct:
  assumes "sys_wf sys"
  shows "\<exists>evs. run sh (system_destruct sys) m = Result evs m \<and> account_all evs (sys_held sys) = {#}"
proof -
  obtain evs1 sys1 where one: "run sh (sys_shutdown sys) m = Result (evs1, sys1) m"
    using run_sys_shutdown_returns [OF assms] by blast
  note kept = sys_shutdown_result [OF assms one]
  then have wf: "pred_option pool_wf (sys_pool sys1)" by (simp add: sys_wf_def)
  obtain evs2 where two: "run sh (replace_pool sys1) m = Result evs2 m"
    using run_replace_pool_returns [OF wf] by blast
  have "account_all evs2 (sys_held sys1) = {#}" by (rule run_replace_pool [OF wf two])
  then show ?thesis
    using one two kept by (simp add: system_destruct_def sys_destroy_def run_bind)
qed

text \<open>
  C20. No use of the public class leaks: for every sequence of calls, in any order and with any arguments and results, the events so far
  account exactly for the descriptor and the mapping that the system holds, its parts are as they should be, and the
  destructor returns and gives everything back, also after failed or repeated \<open>initialize\<close>s.
\<close>

theorem session_never_leaks:
  assumes "list_all documented_call cs" and "run_calls sh cs system_construct m = Some (Result (rs, evs, sys) m')"
  shows "sys_wf sys \<and> account_all evs {#} = sys_held sys \<and>
    (\<exists>evs'. run sh (system_destruct sys) m' = Result evs' m' \<and> account_all (evs @ evs') {#} = {#})"
proof -
  have kept: "sys_wf sys" "account_all evs {#} = sys_held sys"
    using run_calls_balanced [OF assms(1) _ assms(2) [unfolded system_construct_def]] sys_wf_new by simp_all
  with run_system_destruct [OF kept(1)] show ?thesis by auto
qed

section \<open>Calls outside the life of a system\<close>

lemma sys_initialize_no_locks:
  assumes "\<not> sys_initialized sys" and "dl_max_locks config = 0"
    and "run sh (sys_initialize os alloc ini config as_lock_manager sys) m = Result (rc, evs, sys') m'"
  shows "rc \<noteq> SUCCESS \<and> \<not> sys_initialized sys' \<and> sys_config sys' = config"
proof -
  have close: "sys_initialized sys'' = sys_initialized sys1 \<and> sys_config sys'' = sys_config sys1 \<and> rc' = rc1"
    if "run sh (sys_close_pool rc1 evs1 sys1) m1 = Result (rc', evs', sys'') m2" for rc1 rc' evs1 evs' sys1 sys'' m1 m2
    using that by (auto simp: sys_close_pool_def split: option.splits elim!: run_bind_ResultE)
  show ?thesis
    using assms close
    by (fastforce simp: sys_initialize_def sys_initialize_locks_def ll_initialize_def Let_def
        split: prod.splits if_splits option.splits elim!: run_bind_ResultE)
qed

text \<open>
  C21. Calls on a system that is not initialised: the lock functions answer \<open>ERROR_LOCK_NOT_INITIALIZED\<close> and change nothing,
  and so do the functions for data keys with the default configuration. But after an \<open>initialize\<close> that was refused for
  \<open>max_locks = 0\<close> the latter divide by zero: they compute the lock of the key before they test whether the system is
  initialised, from the configuration of the failed call.
\<close>

theorem calls_before_initialize:
  assumes "dl_max_locks config = 0"
    and "run sh (sys_initialize os alloc ini config as_lock_manager system_construct) m = Result (rc, evs, sys) m'"
  shows "(\<forall>c \<in> {AcquireLock fuel t clk l timeout, ReleaseLock fuel t l, TryLock fuel t clk l}.
       run_calls sh [c] system_construct m = Some (Result ([Code ERROR_LOCK_NOT_INITIALIZED], [], system_construct) m) \<and>
       run_calls sh [c] sys m' = Some (Result ([Code ERROR_LOCK_NOT_INITIALIZED], [], sys) m')) \<and>
     (\<forall>c \<in> {AcquireDataLock fuel t clk key timeout, ReleaseDataLock fuel t key}.
       run_calls sh [c] system_construct m = Some (Result ([Code ERROR_LOCK_NOT_INITIALIZED], [], system_construct) m) \<and>
       run_calls sh [c] sys m' = Some Fault) \<and>
     rc \<noteq> SUCCESS"
proof -
  have new: "\<not> sys_initialized system_construct" "dl_max_locks (sys_config system_construct) = 256"
    by (simp_all add: system_construct_def new_system_def default_config_def)
  have sys: "rc \<noteq> SUCCESS" "\<not> sys_initialized sys" "dl_max_locks (sys_config sys) = 0"
    using sys_initialize_no_locks [OF new(1) assms] assms(1) by simp_all
  have lock: "run_calls sh [c] x k = Some (Result ([Code ERROR_LOCK_NOT_INITIALIZED], [], x) k)"
    if "\<not> sys_initialized x" "c \<in> {AcquireLock fuel t clk l timeout, ReleaseLock fuel t l, TryLock fuel t clk l}" for x c k
    using that by (auto simp: sys_acquire_lock_def sys_release_lock_def sys_try_lock_def code_of_def)
  have data: "run_calls sh [c] system_construct m = Some (Result ([Code ERROR_LOCK_NOT_INITIALIZED], [], system_construct) m)"
      "run_calls sh [c] sys m' = Some Fault"
    if "c \<in> {AcquireDataLock fuel t clk key timeout, ReleaseDataLock fuel t key}" for c
    using that new sys
    by (auto simp: sys_acquire_data_lock_def sys_release_data_lock_def sys_get_data_lock_id_def hash_bytes_to_lock_id_def
        sys_acquire_lock_def sys_release_lock_def code_of_def)
  show ?thesis using lock new(1) sys(1,2) data by simp
qed

section \<open>The system from its start\<close>

text \<open>
  The nodes and the manager after \<open>initialize\<close>, as far as the algorithm keeps its promise: without further conditions under the
  CAS algorithm, with one lock per node and without timeouts under the MCS algorithm.
\<close>

definition trusted_protocol ::
  "GlobalLockAlgorithm \<Rightarrow> u32 \<Rightarrow> (NodeId \<times> LockId \<Rightarrow> SharedMemoryRegion) \<Rightarrow> SharedMemoryRegion \<Rightarrow> (NodeId \<Rightarrow> LockId) \<Rightarrow>
   (NodeId \<times> LockId, LockManager) protocol"
where
  "trusted_protocol alg nc reg mreg lk =
     (case alg of CasAlgorithm a \<Rightarrow> lock_protocol alg nc 0 reg mreg | _ \<Rightarrow> steady_protocol alg nc 0 reg mreg lk)"

lemma state_fits_cas: "state_fits (CasAlgorithm a) sh nc off \<longleftrightarrow> cas_fits sh nc off"
  by (simp add: state_fits_def cas_fits_def alg_get_state_size_def)

lemma state_fits_mcs: "state_fits (McsAlgorithm a) sh nc off \<longleftrightarrow> lines_fit sh nc off"
  using lines_state_size [of nc]
  by (auto simp: state_fits_def lines_fit_def alg_get_state_size_def mcs_get_state_size_def)

lemma trusted_exclusive:
  assumes "alg = new_cas \<or> alg = new_mcs" and "\<forall>t. state_fits alg (reg t) nc 0" and "state_fits alg mreg nc 0"
    and "manager_ready (with_nodes nc alg) mreg nc 0 lm" and "fresh_state alg mreg nc 0 m"
    and "reachable (trusted_protocol (with_nodes nc alg) nc reg mreg lk) (initial_system m lm) s"
    and "clients s (n, l) = Critical" and "clients s (n', l) = Critical"
  shows "n = n'"
  using assms(1)
proof
  assume alg: "alg = new_cas"
  have impl: "cas_impl mreg nc 0 m new_service" using assms(5) alg by (simp add: new_cas_def)
  have "m (cas_get_slot_offset l n nc 0) \<noteq> u32_of_slot LOCKED" if "l < MAX_LOCK_COUNT" "n < nc" for l n
    using cas_impl_holder [OF impl that(1), of n] that(2) by (auto simp: new_service_def)
  note free = this
  show ?thesis
    by (rule cas_exclusive [of reg nc 0 mreg lm m s n l n'])
       (use assms alg free in \<open>auto simp: new_cas_def state_fits_cas trusted_protocol_def\<close>)
next
  assume alg: "alg = new_mcs"
  show ?thesis
    by (rule mcs_exclusive [of reg nc 0 mreg lm m lk s n l n'])
       (use assms alg in \<open>auto simp: new_mcs_def state_fits_mcs trusted_protocol_def\<close>)
qed

lemma trusted_acquisition:
  assumes "client_lock alg (reg (n, l)) nc 0 n tt" and "n < nc" and "l < MAX_LOCK_COUNT" and "l = lk n"
    and "\<And>i :: nat. clk i < timeout"
  shows "acquisition (trusted_protocol alg nc reg sh lk) (n, l) (tt_global_acquire fuel tt alg clk l timeout)"
proof (cases "\<exists>a. alg = CasAlgorithm a")
  case True
  then have P: "trusted_protocol alg nc reg sh lk = lock_protocol alg nc 0 reg sh" by (auto simp: trusted_protocol_def)
  show ?thesis unfolding P lock_protocol_def using assms by auto
next
  case False
  then have P: "trusted_protocol alg nc reg sh lk = steady_protocol alg nc 0 reg sh lk"
    by (auto simp: trusted_protocol_def split: GlobalLockAlgorithm.split)
  show ?thesis unfolding P steady_protocol_def using assms by auto
qed

lemma algorithm_serves:
  fixes P :: "(NodeId \<times> LockId, LockManager) protocol"
  assumes "alg = new_cas \<or> alg = new_mcs" and "state_fits alg sh nc 0"
    and "manager_ready (with_nodes nc alg) sh nc 0 lm" and "fresh_state alg sh nc 0 m"
    and "client_lock (with_nodes nc alg) sh nc 0 n tt" and "n < nc" and "l < lm_max_locks lm"
    and P: "region_of P (n, l) = sh" "manager_region P = sh" "next_scan P = run_single_scan"
    and acq: "acquisition P (n, l) (tt_global_acquire 2 tt (with_nodes nc alg) (\<lambda>_. 0) l 1)"
  shows "\<exists>s. reachable P (initial_system m lm) s \<and> clients s = (\<lambda>_. Idle)((n, l) := Critical)"
proof -
  have ml: "lm_max_locks lm \<le> MAX_LOCK_COUNT" using assms(3) by (simp add: manager_ready_def)
  then have l: "l < MAX_LOCK_COUNT" and locks: "{l. l < lm_max_locks lm} \<subseteq> {l. l < MAX_LOCK_COUNT}"
    using assms(7) by (auto intro: order.strict_trans2)
  show ?thesis
    using assms(1)
  proof
    assume alg: "alg = new_cas"
    then have nodes: "with_nodes nc alg = CasAlgorithm \<lparr>cas_node_count = nc\<rparr>" by (simp add: new_cas_def)
    show ?thesis
      by (rule can_enter_free_lock [OF cas.lock_live_axioms, of sh nc 0 m new_service])
         (use assms nodes alg l locks P acq in \<open>simp_all add: new_service_def new_cas_def\<close>)
  next
    assume alg: "alg = new_mcs"
    then have nodes: "with_nodes nc alg = McsAlgorithm \<lparr>mcs_node_count = nc\<rparr>" by (simp add: new_mcs_def)
    have fit: "lines_fit sh nc 0" using assms(2) alg state_fits_mcs by (auto simp: new_mcs_def)
    have fresh: "\<forall>l < MAX_LOCK_COUNT. mcs_entry 0 m l =
        \<lparr>tail_node = INVALID_NODE_ID, head_node = INVALID_NODE_ID, mcs_owner = INVALID_NODE_ID\<rparr>"
      using assms(4) alg by (simp add: new_mcs_def)
    show ?thesis
      by (rule mcs_can_enter [OF fit fresh assms(3) [unfolded nodes] assms(6,7) assms(5) [unfolded nodes] P])
         (use acq nodes in \<open>simp add: numeral_2_eq_2\<close>)
  qed
qed

section \<open>Concrete sessions\<close>

lemma page_initialize:
  assumes "make_algorithm name = None"
  shows "\<exists>sys m'. run page_region (sys_initialize one_mapping_os True (\<lambda>_. True) (page_config name) False system_construct) m =
    Result (ERROR_INVALID_PARAM, [Opened 5, Mapped 65536 4096], sys) m' \<and> sys_pool sys = Some page_pool \<and> \<not> sys_initialized sys"
  using assms
  by (simp add: system_construct_def sys_initialize_def new_system_def replace_pool_def run_bind page_open Let_def)

theorem session_never_leaks_witness:
  "\<exists>sys m' evs'. run_calls page_region
      [Initialize one_mapping_os True (\<lambda>_. True) (page_config ''ticket'') False, IsInitialized] system_construct (\<lambda>_. 7) =
      Some (Result ([Code ERROR_INVALID_PARAM, Flag False], [Opened 5, Mapped 65536 4096], sys) m') \<and>
    sys_held sys \<noteq> {#} \<and> run page_region (system_destruct sys) m' = Result evs' m' \<and>
    account_all ([Opened 5, Mapped 65536 4096] @ evs') {#} = {#}"
proof -
  have none: "make_algorithm ''ticket'' = None" by (simp add: make_algorithm_def)
  obtain sys m' where i: "run page_region (sys_initialize one_mapping_os True (\<lambda>_. True) (page_config ''ticket'') False system_construct)
      (\<lambda>_. 7) = Result (ERROR_INVALID_PARAM, [Opened 5, Mapped 65536 4096], sys) m'" "sys_pool sys = Some page_pool" "\<not> sys_initialized sys"
    using page_initialize [OF none] by blast
  then have r: "run_calls page_region
      [Initialize one_mapping_os True (\<lambda>_. True) (page_config ''ticket'') False, IsInitialized] system_construct (\<lambda>_. 7) =
      Some (Result ([Code ERROR_INVALID_PARAM, Flag False], [Opened 5, Mapped 65536 4096], sys) m')"
    by (simp add: run_bind)
  have "sys_held sys \<noteq> {#}" using i(2) by (simp add: sys_held_def pool_held_def page_pool_def held_def page_region_def)
  with r session_never_leaks [OF _ r] one_mapping_os_documented show ?thesis by auto
qed

theorem calls_before_initialize_witness:
  "\<exists>evs sys m'. run page_region (sys_initialize one_mapping_os True (\<lambda>_. True) (page_config ''cas''\<lparr>dl_max_locks := 0\<rparr>) False
      system_construct) (\<lambda>_. 7) = Result (ERROR_INVALID_PARAM, evs, sys) m' \<and>
    run_calls page_region [AcquireDataLock 1 0 (\<lambda>_. 0) [97] 0] sys m' = Some Fault"
proof -
  define config where "config = page_config ''cas''\<lparr>dl_max_locks := 0\<rparr>"
  have f: "dl_max_locks config = 0" "make_algorithm (dl_lock_algorithm config) = Some new_cas"
    by (simp_all add: config_def make_algorithm_def)
  have open_config: "open_pool one_mapping_os config new_pool = open_pool one_mapping_os (page_config ''cas'') new_pool"
    by (simp add: open_pool_def config_def page_config_def default_config_def)
  have wf: "pool_wf page_pool"
    by (simp add: pool_wf_def page_pool_def region_wf_def page_region_def MAP_FAILED_def)
  define m1 :: mem where "m1 = (\<lambda>x. if unat x < 4096 then 0 else 7)"
  obtain evs pool where c: "run page_region (pool_close page_pool) m1 = Result (evs, pool) m1"
    using run_pool_close [OF wf] by blast
  have "run page_region (sys_initialize one_mapping_os True (\<lambda>_. True) config False system_construct) (\<lambda>_. 7) =
      Result (ERROR_INVALID_PARAM, [Opened 5, Mapped 65536 4096] @ evs, new_system\<lparr>sys_config := config, sys_node_id := dl_node_id config,
        sys_is_lock_manager := False, sys_pool := Some pool, sys_algorithm := Some new_cas, sys_local_locks := Some new_local_locks\<rparr>) m1"
    using c f
    by (simp add: system_construct_def sys_initialize_def new_system_def replace_pool_def run_bind open_config page_open Let_def
        sys_initialize_locks_def ll_initialize_def sys_close_pool_def m1_def)
  note i = this [unfolded config_def]
  have "dl_max_locks (page_config ''cas''\<lparr>dl_max_locks := 0\<rparr>) = 0" by simp
  from calls_before_initialize [OF this i, where key = "[97]" and fuel = 1 and t = 0 and clk = "\<lambda>_. 0" and timeout = 0] i
  show ?thesis by blast
qed

end
