(* ===== verification/Thread_Calls.thy ===== *)
theory Thread_Calls
  imports Thread_System System_Session
begin

text \<open>
  The functions of \<open>TwoTierLock\<close> (\<open>src/two_tier_lock.cpp\<close>) as threads of \<open>Thread_System\<close>: a call that nobody interferes with is
  a run of the thread system with the same result, the same local locks and the same memory; a release of a lock that the thread does not
  own, which \<open>Thread_System\<close> does not have, is a run of a looser system. Then the whole system at the level of threads, from the
  public \<open>initialize\<close> on.
\<close>

section \<open>Steps of one thread, one after the other\<close>

lemma threads_reachable_trans:
  "threads_reachable P s1 s2 \<Longrightarrow> threads_reachable P s0 s1 \<Longrightarrow> threads_reachable P s0 s2"
  by (induction rule: threads_reachable.induct) (auto intro: threads_reachable.intros)

lemma put_thread_simps [simp]:
  "memory (put_thread s n t v ll m) = m" "locals (put_thread s n t v ll m) n = ll"
  "threads (put_thread s n t v ll m) n t = v" "scanner (put_thread s n t v ll m) = scanner s"
  "put_thread (put_thread s n t v ll m) n t v' ll' m' = put_thread s n t v' ll' m'"
  "put_thread s n t (threads s n t) (locals s n) (memory s) = s"
  by (simp_all add: put_thread_def)

lemma threads_reachable_put:
  assumes "threads_reachable P s (put_thread s n t v ll m)" and "thread_move P n t v ll m v' ll' m'"
  shows "threads_reachable P s (put_thread s n t v' ll' m')"
  using threads_more [OF assms(1) thread_step [of P n t "put_thread s n t v ll m"]] assms(2) by simp

lemma threads_reachable_self: "threads_reachable P s (put_thread s n t (threads s n t) (locals s n) (memory s))"
  by (simp add: threads_start)

lemma asking_runs:
  assumes "threads_reachable P s (put_thread s n t (v\<lparr>activity := Asking l p\<rparr>) ll m)"
    and "run (region_of P (n, l)) p m = Result r m'"
  shows "threads_reachable P s (put_thread s n t (v\<lparr>activity := Asking l (Ret r)\<rparr>) ll m')"
proof -
  obtain k where "advance_prog_by k (region_of P (n, l)) p m = (Ret r, m')" using prog_runs_by [OF assms(2)] ..
  with assms(1) show ?thesis
  proof (induction k arbitrary: p m)
    case (Suc k)
    obtain p1 m1 where one: "pstep (region_of P (n, l)) p m = (p1, m1)" by fastforce
    have "thread_move P n t (v\<lparr>activity := Asking l p\<rparr>) ll m (v\<lparr>activity := Asking l p1\<rparr>) ll m1"
      using thread_move.ask_access [of "v\<lparr>activity := Asking l p\<rparr>" l p P n m p1 m1 t ll] one by simp
    from Suc.IH [OF threads_reachable_put [OF Suc.prems(1) this]] Suc.prems(2) one show ?case by simp
  qed simp
qed

lemma giving_runs:
  assumes "threads_reachable P s (put_thread s n t (v\<lparr>activity := Giving l p\<rparr>) ll m)"
    and "run (region_of P (n, l)) p m = Result r m'"
  shows "threads_reachable P s (put_thread s n t (v\<lparr>activity := Giving l (Ret r)\<rparr>) ll m')"
proof -
  obtain k where "advance_prog_by k (region_of P (n, l)) p m = (Ret r, m')" using prog_runs_by [OF assms(2)] ..
  with assms(1) show ?thesis
  proof (induction k arbitrary: p m)
    case (Suc k)
    obtain p1 m1 where one: "pstep (region_of P (n, l)) p m = (p1, m1)" by fastforce
    have "thread_move P n t (v\<lparr>activity := Giving l p\<rparr>) ll m (v\<lparr>activity := Giving l p1\<rparr>) ll m1"
      using thread_move.give_access [of "v\<lparr>activity := Giving l p\<rparr>" l p P n m p1 m1 t ll] one by simp
    from Suc.IH [OF threads_reachable_put [OF Suc.prems(1) this]] Suc.prems(2) one show ?case by simp
  qed simp
qed

section \<open>Calls without interference\<close>

text \<open>What a call that returned leaves in the view of its thread.\<close>

definition acquired_view :: "thread_view \<Rightarrow> LockId \<Rightarrow> LockResult \<Rightarrow> thread_view" where
  "acquired_view v l rc =
     \<lparr>activity = Ready (Some rc), owned = (if rc = SUCCESS then insert l (owned v) else owned v)\<rparr>"

lemma acquired_view_cases:
  "acquired_view v l SUCCESS = \<lparr>activity = Ready (Some SUCCESS), owned = insert l (owned v)\<rparr>"
  "rc \<noteq> SUCCESS \<Longrightarrow> acquired_view v l rc = v\<lparr>activity := Ready (Some rc)\<rparr>"
  by (cases v, simp add: acquired_view_def)+

definition released_view :: "thread_view \<Rightarrow> LockId \<Rightarrow> LockResult \<Rightarrow> thread_view" where
  "released_view v l rc = \<lparr>activity = Ready (Some rc), owned = owned v - {l}\<rparr>"

lemma acquisition_runs:
  assumes "activity (threads s n t) = Ready r"
    and "ll_acquire t l (locals s n) = Returns SUCCESS ll1 \<or> ll_try_acquire t l (locals s n) = Some (SUCCESS, ll1)"
    and "acquisition P (n, l) p" and "run (region_of P (n, l)) p (memory s) = Result rc m'"
    and "if rc = SUCCESS then ll' = ll1 else \<exists>rc2. ll_release t l ll1 = Some (rc2, ll')"
  shows "threads_reachable P s (put_thread s n t (acquired_view (threads s n t) l rc) ll' m')"
proof -
  let ?v = "threads s n t"
  have "threads_reachable P s (put_thread s n t (?v\<lparr>activity := Asking l p\<rparr>) ll1 (memory s))"
    by (rule threads_reachable_put [OF threads_reachable_self thread_move.locked [OF assms(1-3)]])
  from asking_runs [OF this assms(4)]
  have ran: "threads_reachable P s (put_thread s n t (?v\<lparr>activity := Asking l (Ret rc)\<rparr>) ll1 m')" .
  show ?thesis
  proof (cases "rc = SUCCESS")
    case True
    then show ?thesis
      using threads_reachable_put [OF ran thread_move.granted [of _ l]] assms(5) by (simp add: acquired_view_cases)
  next
    case False
    then obtain rc2 where "ll_release t l ll1 = Some (rc2, ll')" using assms(5) by auto
    with False show ?thesis
      using threads_reachable_put [OF ran thread_move.failed [of _ l rc]] by (simp add: acquired_view_cases)
  qed
qed

lemma refusal_runs:
  assumes "activity (threads s n t) = Ready r" and "rc \<noteq> SUCCESS"
    and "ll_acquire t l (locals s n) = Returns rc ll1 \<or> ll_try_acquire t l (locals s n) = Some (rc, ll1)"
  shows "threads_reachable P s (put_thread s n t (acquired_view (threads s n t) l rc) ll1 (memory s))"
  using threads_reachable_put [OF threads_reachable_self thread_move.refused [OF assms(1,3,2)]] assms(2)
  by (simp add: acquired_view_cases)

text \<open>After the global part of an acquisition: a failed one gives the local mutex back.\<close>

definition finish_acquire :: "thread \<Rightarrow> LockId \<Rightarrow> LocalLockArray \<Rightarrow> LockResult \<Rightarrow> (LockResult \<times> LocalLockArray) prog" where
  "finish_acquire t l ll1 rc =
     (if rc \<noteq> SUCCESS then bind (tt_local_release t l ll1) (\<lambda>(_, ll2). Ret (rc, ll2)) else Ret (SUCCESS, ll1))"

lemma run_finish_acquire:
  assumes "run sh (bind p (finish_acquire t l ll1)) m = Result (rc, ll') m'"
  shows "run sh p m = Result rc m' \<and> (if rc = SUCCESS then ll' = ll1 else \<exists>rc2. ll_release t l ll1 = Some (rc2, ll'))"
  using assms by (auto simp: finish_acquire_def split: if_splits option.splits elim!: run_bind_ResultE)

lemma acquire_runs:
  assumes "activity (threads s n t) = Ready r" and "tt_initialized tt" and "l < tt_max_locks tt" and "tt_algorithm tt = Some alg"
    and "acquisition P (n, l) (tt_global_acquire fuel tt alg clk l timeout)"
    and "tt_acquire fuel t clk l timeout tt (locals s n) = Some p"
    and "run (region_of P (n, l)) p (memory s) = Result (rc, ll') m'"
  shows "threads_reachable P s (put_thread s n t (acquired_view (threads s n t) l rc) ll' m')"
proof -
  obtain rc1 ll1 where a: "ll_acquire t l (locals s n) = Returns rc1 ll1"
      "p = (if rc1 \<noteq> SUCCESS then Ret (rc1, ll1)
            else bind (tt_global_acquire fuel tt alg clk l timeout) (finish_acquire t l ll1))"
    using assms(2-4,6,7) by (auto simp: tt_acquire_def finish_acquire_def [abs_def] not_le [symmetric] split: ll_acquired.splits)
  show ?thesis
  proof (cases "rc1 = SUCCESS")
    case True
    then have "run (region_of P (n, l)) (bind (tt_global_acquire fuel tt alg clk l timeout) (finish_acquire t l ll1)) (memory s) =
        Result (rc, ll') m'" using a(2) assms(7) by simp
    note ran = run_finish_acquire [OF this]
    show ?thesis
      by (rule acquisition_runs [OF assms(1) disjI1 [OF a(1) [unfolded True]] assms(5) ran [THEN conjunct1] ran [THEN conjunct2]])
  next
    case False
    then show ?thesis using a assms(7) refusal_runs [OF assms(1) False] by auto
  qed
qed

text \<open>
  \<open>try_acquire\<close> is \<open>acquire\<close> with timeout 0 once it has the mutex: a poll with timeout 0 fails with \<open>ERROR_BUSY\<close> only.
\<close>

lemma tt_poll_zero:
  assumes "f SUCCESS = g SUCCESS" and "f ERROR_BUSY = g ERROR_BUSY"
  shows "bind (tt_poll fuel tt l 0 clk i spin) f = bind (tt_poll fuel tt l 0 clk i spin) g"
proof (induction fuel arbitrary: i spin)
  case (Suc fuel)
  have "(\<lambda>x. bind (if x then Ret SUCCESS
      else if spin > 1000 then Ret ERROR_BUSY else tt_poll fuel tt l 0 clk (Suc i) (snd (adaptive_backoff spin))) f) =
    (\<lambda>x. bind (if x then Ret SUCCESS
      else if spin > 1000 then Ret ERROR_BUSY else tt_poll fuel tt l 0 clk (Suc i) (snd (adaptive_backoff spin))) g)"
    by (rule ext) (simp add: assms Suc)
  then show ?case by (simp only: tt_poll.simps bind_assoc word_greater_zero_iff simp_thms if_False)
qed simp

lemma tt_try_acquire_eq:
  assumes "tt_initialized tt" and "l < tt_max_locks tt" and "tt_algorithm tt = Some alg"
  shows "tt_try_acquire fuel t clk l tt ll =
    (case ll_try_acquire t l ll of
       None \<Rightarrow> Crash
     | Some (rc, ll1) \<Rightarrow>
         if rc \<noteq> SUCCESS then Ret (rc, ll1) else bind (tt_global_acquire fuel tt alg clk l 0) (finish_acquire t l ll1))"
proof -
  have "bind (poll_for_grant fuel tt clk l 0) (\<lambda>rc.
      if rc \<noteq> SUCCESS then bind (alg_release_lock fuel alg (tt_node_id tt) l (tt_shm tt) (tt_state_offset tt))
        (\<lambda>_. bind (tt_local_release t l ll1) (\<lambda>(_, ll2). Ret (ERROR_BUSY, ll2))) else Ret (SUCCESS, ll1)) =
    bind (bind (poll_for_grant fuel tt clk l 0) (\<lambda>rc.
      if rc \<noteq> SUCCESS then bind (alg_release_lock fuel alg (tt_node_id tt) l (tt_shm tt) (tt_state_offset tt)) (\<lambda>_. Ret rc)
      else Ret SUCCESS)) (finish_acquire t l ll1)" for ll1
    unfolding poll_for_grant_def bind_assoc by (rule tt_poll_zero) (simp_all add: bind_assoc finish_acquire_def)
  note poll = this
  show ?thesis
    using assms
    by (auto simp: tt_try_acquire_def tt_global_acquire_def not_le [symmetric] bind_assoc poll finish_acquire_def
        split: option.split intro!: arg_cong [where f = "bind _"])
qed

lemma try_acquire_runs:
  assumes "activity (threads s n t) = Ready r" and "tt_initialized tt" and "l < tt_max_locks tt" and "tt_algorithm tt = Some alg"
    and "acquisition P (n, l) (tt_global_acquire fuel tt alg clk l 0)"
    and "run (region_of P (n, l)) (tt_try_acquire fuel t clk l tt (locals s n)) (memory s) = Result (rc, ll') m'"
  shows "threads_reachable P s (put_thread s n t (acquired_view (threads s n t) l rc) ll' m')"
proof -
  obtain rc1 ll1 where a: "ll_try_acquire t l (locals s n) = Some (rc1, ll1)"
    using assms(6) by (auto simp: tt_try_acquire_eq [OF assms(2-4)] split: option.splits)
  show ?thesis
  proof (cases "rc1 = SUCCESS")
    case True
    then have "run (region_of P (n, l)) (bind (tt_global_acquire fuel tt alg clk l 0) (finish_acquire t l ll1)) (memory s) =
        Result (rc, ll') m'" using a assms(6) by (simp add: tt_try_acquire_eq [OF assms(2-4)])
    note ran = run_finish_acquire [OF this]
    show ?thesis
      by (rule acquisition_runs [OF assms(1) disjI2 [OF a [unfolded True]] assms(5) ran [THEN conjunct1] ran [THEN conjunct2]])
  next
    case False
    then show ?thesis
      using a assms(6) refusal_runs [OF assms(1) False] by (auto simp: tt_try_acquire_eq [OF assms(2-4)])
  qed
qed

text \<open>A call of \<open>release\<close> after it has begun, whoever holds the local mutex.\<close>

lemma release_returns:
  assumes "tt_initialized tt" and "l < tt_max_locks tt" and "tt_algorithm tt = Some alg"
    and "run (region_of P (n, l)) (tt_release fuel t l tt (locals s n)) (memory s) = Result (rc, ll') m'"
  shows "threads_reachable P
    (put_thread s n t ((threads s n t)\<lparr>activity := Giving l (tt_global_release fuel tt alg l)\<rparr>) (locals s n) (memory s))
    (put_thread s n t (released_view (threads s n t) l rc) ll' m')"
proof -
  let ?v = "threads s n t" and ?p = "tt_global_release fuel tt alg l"
  let ?s = "put_thread s n t (?v\<lparr>activity := Giving l ?p\<rparr>) (locals s n) (memory s)"
  obtain rc1 rc2 where r: "run (region_of P (n, l)) ?p (memory s) = Result rc1 m'"
      "ll_release t l (locals s n) = Some (rc2, ll')" "rc = (if rc1 \<noteq> SUCCESS then rc1 else rc2)"
    using assms
    by (auto simp: tt_release_def not_le [symmetric] split: if_splits option.splits elim!: run_bind_ResultE)
  have "threads_reachable P ?s (put_thread ?s n t (?v\<lparr>activity := Giving l ?p\<rparr>) (locals s n) (memory s))"
    by (simp add: threads_start)
  from giving_runs [OF this r(1)]
  have ran: "threads_reachable P ?s (put_thread ?s n t (?v\<lparr>activity := Giving l (Ret rc1)\<rparr>) (locals s n) m')" .
  show ?thesis
    using threads_reachable_put [OF ran thread_move.given [of _ l rc1 t "locals s n" rc2 ll']] r by (simp add: released_view_def)
qed

lemma release_runs:
  assumes "activity (threads s n t) = Ready r" and "tt_initialized tt" and "l < tt_max_locks tt" and "tt_algorithm tt = Some alg"
    and "l \<in> owned (threads s n t)" and "release P (n, l) (tt_global_release fuel tt alg l)"
    and "run (region_of P (n, l)) (tt_release fuel t l tt (locals s n)) (memory s) = Result (rc, ll') m'"
  shows "threads_reachable P s (put_thread s n t (released_view (threads s n t) l rc) ll' m')"
  by (rule threads_reachable_trans [OF release_returns [OF assms(2-4,7)]
        threads_reachable_put [OF threads_reachable_self thread_move.giving [OF assms(1,5,6)]]])

section \<open>Releases by threads that do not own the lock\<close>

text \<open>
  The threads of \<open>Thread_System\<close> keep a discipline that the code does not enforce: they release only locks that they own. In the
  loose system a thread may call \<open>release\<close> for any lock at any time; the call then runs as for an owner, and the local mutex
  refuses it only at the end (\<open>thread_move.given\<close>).
\<close>

inductive loose_step :: "(NodeId \<times> LockId, 'm) protocol \<Rightarrow> 'm threads \<Rightarrow> 'm threads \<Rightarrow> bool"
  for P :: "(NodeId \<times> LockId, 'm) protocol"
where
  disciplined: "threads_step P s s' \<Longrightarrow> loose_step P s s'"
| stray: "activity (threads s n t) = Ready r \<Longrightarrow> release P (n, l) p \<Longrightarrow>
     loose_step P s (put_thread s n t ((threads s n t)\<lparr>activity := Giving l p\<rparr>) (locals s n) (memory s))"

definition loosely_reachable :: "(NodeId \<times> LockId, 'm) protocol \<Rightarrow> 'm threads \<Rightarrow> 'm threads \<Rightarrow> bool" where
  "loosely_reachable P = (loose_step P)\<^sup>*\<^sup>*"

lemma loosely_reachable_disciplined: "threads_reachable P s s' \<Longrightarrow> loosely_reachable P s s'"
  unfolding loosely_reachable_def
  by (induction rule: threads_reachable.induct) (auto intro: rtranclp.rtrancl_into_rtrancl disciplined)

lemma stray_release_runs:
  assumes "activity (threads s n t) = Ready r" and "tt_initialized tt" and "l < tt_max_locks tt" and "tt_algorithm tt = Some alg"
    and "release P (n, l) (tt_global_release fuel tt alg l)"
    and "run (region_of P (n, l)) (tt_release fuel t l tt (locals s n)) (memory s) = Result (rc, ll') m'"
  shows "loosely_reachable P s (put_thread s n t (released_view (threads s n t) l rc) ll' m')"
  using stray [OF assms(1,5)] loosely_reachable_disciplined [OF release_returns [OF assms(2-4,6)]]
  unfolding loosely_reachable_def by (rule converse_rtranclp_into_rtranclp)

section \<open>The public calls\<close>

text \<open>The lock a public call is about, with the thread, the clock and the fuel of the call.\<close>

fun call_takes :: "DistributedLockSystem \<Rightarrow> call \<Rightarrow> (nat \<times> thread \<times> (nat \<Rightarrow> u64) \<times> LockId) option" where
  "call_takes sys (AcquireLock fuel t clk l timeout) = Some (fuel, t, clk, l)"
| "call_takes sys (TryLock fuel t clk l) = Some (fuel, t, clk, l)"
| "call_takes sys (AcquireDataLock fuel t clk key timeout) =
     map_option (\<lambda>l. (fuel, t, clk, l)) (sys_get_data_lock_id key sys)"
| "call_takes sys c = None"

fun call_gives :: "DistributedLockSystem \<Rightarrow> call \<Rightarrow> (nat \<times> thread \<times> LockId) option" where
  "call_gives sys (ReleaseLock fuel t l) = Some (fuel, t, l)"
| "call_gives sys (ReleaseDataLock fuel t key) = map_option (\<lambda>l. (fuel, t, l)) (sys_get_data_lock_id key sys)"
| "call_gives sys c = None"

text \<open>What the call changes in the system object, and what it did to the two-tier lock.\<close>

lemma takes_two_tier:
  assumes "sys_initialized sys" and "sys_two_tier_lock sys = Some tt" and "sys_local_locks sys = Some ll"
    and "call_takes sys c = Some (fuel, t, clk, l)" and "system_call c sys = Some p" and "run sh p m = Result (r, evs, sys') m'"
  shows "\<exists>rc ll'. r = Code rc \<and> evs = [] \<and> sys' = sys\<lparr>sys_local_locks := Some ll'\<rparr> \<and>
    ((\<exists>q timeout. tt_acquire fuel t clk l timeout tt ll = Some q \<and> run sh q m = Result (rc, ll') m') \<or>
     run sh (tt_try_acquire fuel t clk l tt ll) m = Result (rc, ll') m')"
proof -
  have acquire: ?thesis if a: "map_option code_of (sys_acquire_lock fuel t clk l timeout sys) = Some p" for timeout
  proof -
    obtain q where "tt_acquire fuel t clk l timeout tt ll = Some q"
        "p = code_of (bind q (\<lambda>(rc, ll'). Ret (rc, sys\<lparr>sys_local_locks := Some ll'\<rparr>)))"
      using a assms(1-3) by (auto simp: sys_acquire_lock_def)
    then show ?thesis using assms(6) by (fastforce elim!: run_code_of run_bind_ResultE)
  qed
  show ?thesis
  proof (cases c)
    case (AcquireLock fuel' t' clk' l' timeout)
    then show ?thesis using assms(4,5) acquire by simp
  next
    case (TryLock fuel' t' clk' l')
    then have "p = code_of (sys_try_lock fuel t clk l sys)" using assms(4,5) by simp
    then show ?thesis
      using assms(1-3,6) by (fastforce simp: sys_try_lock_def elim!: run_code_of run_bind_ResultE)
  next
    case (AcquireDataLock fuel' t' clk' key timeout)
    then show ?thesis using assms(4,5) acquire by (auto simp: sys_acquire_data_lock_def)
  qed (use assms(4) in auto)
qed

lemma gives_two_tier:
  assumes "sys_initialized sys" and "sys_two_tier_lock sys = Some tt" and "sys_local_locks sys = Some ll"
    and "call_gives sys c = Some (fuel, t, l)" and "system_call c sys = Some p" and "run sh p m = Result (r, evs, sys') m'"
  shows "\<exists>rc ll'. r = Code rc \<and> evs = [] \<and> sys' = sys\<lparr>sys_local_locks := Some ll'\<rparr> \<and>
    run sh (tt_release fuel t l tt ll) m = Result (rc, ll') m'"
proof -
  have "p = code_of (sys_release_lock fuel t l sys)"
    using assms(4,5) by (cases c) (auto simp: sys_release_data_lock_def)
  then show ?thesis
    using assms(1-3,6) by (fastforce simp: sys_release_lock_def elim!: run_code_of run_bind_ResultE)
qed

text \<open>
  C5. The public lock calls refine to steps of the threads: a call of \<open>acquire_lock\<close>, \<open>try_lock\<close>, \<open>release_lock\<close> or one of the two for
  data keys on an initialised system, for a lock that the system has, that runs to its end without interference, whatever it returns, is
  a sequence of steps of its thread in the loose system that ends in the same result, the same local locks and the same memory, and
  the thread has the lock afterwards exactly as the result says. Unless the call is a release by a thread that does not own
  the lock, it is a sequence of steps of the disciplined system, the one whose threads exclude each other.
\<close>

theorem public_calls_are_thread_steps:
  assumes "sys_initialized sys" and "sys_two_tier_lock sys = Some tt" and "sys_local_locks sys = Some (locals s n)"
    and "activity (threads s n t) = Ready a" and "tt_initialized tt" and "l < tt_max_locks tt" and "tt_algorithm tt = Some alg"
    and "\<And>timeout. acquisition P (n, l) (tt_global_acquire fuel tt alg clk l timeout)"
    and "release P (n, l) (tt_global_release fuel tt alg l)"
    and "system_call c sys = Some p" and "run (region_of P (n, l)) p (memory s) = Result (r, evs, sys') m'"
    and "call_takes sys c = Some (fuel, t, clk, l) \<or> call_gives sys c = Some (fuel, t, l)"
  shows "\<exists>rc ll' s'. r = Code rc \<and> evs = [] \<and> sys' = sys\<lparr>sys_local_locks := Some ll'\<rparr> \<and>
    s' = put_thread s n t
      (if call_takes sys c = None then released_view (threads s n t) l rc else acquired_view (threads s n t) l rc) ll' m' \<and>
    loosely_reachable P s s' \<and>
    (call_takes sys c \<noteq> None \<or> l \<in> owned (threads s n t) \<longrightarrow> threads_reachable P s s')"
  using assms(12)
proof
  assume c: "call_takes sys c = Some (fuel, t, clk, l)"
  obtain rc ll' where r: "r = Code rc" "evs = []" "sys' = sys\<lparr>sys_local_locks := Some ll'\<rparr>"
      "(\<exists>q timeout. tt_acquire fuel t clk l timeout tt (locals s n) = Some q \<and> run (region_of P (n, l)) q (memory s) = Result (rc, ll') m') \<or>
       run (region_of P (n, l)) (tt_try_acquire fuel t clk l tt (locals s n)) (memory s) = Result (rc, ll') m'"
    using takes_two_tier [OF assms(1-3) c assms(10,11)] by blast
  then have "threads_reachable P s (put_thread s n t (acquired_view (threads s n t) l rc) ll' m')"
    using acquire_runs [OF assms(4-8)] try_acquire_runs [OF assms(4-8)] by blast
  with loosely_reachable_disciplined [OF this] c r(1-3) show ?thesis
    by (intro exI [of _ rc] exI [of _ ll'] exI conjI) (rule refl | simp)+
next
  assume c: "call_gives sys c = Some (fuel, t, l)"
  then have none: "call_takes sys c = None" by (cases c) auto
  obtain rc ll' where r: "r = Code rc" "evs = []" "sys' = sys\<lparr>sys_local_locks := Some ll'\<rparr>"
      "run (region_of P (n, l)) (tt_release fuel t l tt (locals s n)) (memory s) = Result (rc, ll') m'"
    using gives_two_tier [OF assms(1-3) c assms(10,11)] by blast
  with none stray_release_runs [OF assms(4-7,9) r(4)] release_runs [OF assms(4-7) _ assms(9) r(4)] show ?thesis
    by (intro exI [of _ rc] exI [of _ ll'] exI conjI) (rule refl | simp)+
qed

definition owning_thread :: "LockManager threads" where
  "owning_thread =
     put_thread (initial_threads (\<lambda>_. two_local_locks) (\<lambda>_. 0) (demo_manager new_cas)) 1 7
       \<lparr>activity = Ready (Some SUCCESS), owned = {0}\<rparr> two_local_locks (\<lambda>_. 0)"

definition owning_system :: DistributedLockSystem where
  "owning_system = new_system\<lparr>sys_initialized := True, sys_local_locks := Some two_local_locks,
     sys_two_tier_lock := Some (demo_lock (CasAlgorithm \<lparr>cas_node_count = 2\<rparr>) 1)\<rparr>"

theorem public_calls_are_thread_steps_witness:
  "\<exists>ll' sys' m'. run_calls demo_region [ReleaseLock 0 7 0] owning_system (\<lambda>_. 0) = Some (Result ([Code SUCCESS], [], sys') m') \<and>
    sys_local_locks sys' = Some ll' \<and>
    threads_reachable (open_protocol (\<lambda>_. demo_region) demo_region) owning_thread
      (put_thread owning_thread 1 7 \<lparr>activity = Ready (Some SUCCESS), owned = {}\<rparr> ll' m')"
proof -
  let ?tt = "demo_lock (CasAlgorithm \<lparr>cas_node_count = 2\<rparr>) 1" and ?P = "open_protocol (\<lambda>_. demo_region) demo_region"
  have fits: "cas_fits demo_region 2 0" by (simp add: demo_cas_fits MAX_NODE_COUNT_def)
  obtain ll' m' where r: "run demo_region (tt_release 0 7 0 ?tt two_local_locks) (\<lambda>_. 0) = Result (SUCCESS, ll') m'"
    using run_cas_release [OF fits, of 0 1]
    by (simp add: tt_release_def tt_global_release_def alg_release_lock_def demo_lock_def
        new_two_tier_lock_def two_local_locks_def ll_release_def pthread_mutex_unlock_def run_bind
        MAX_LOCK_COUNT_def)
  have y: "sys_initialized owning_system" "sys_two_tier_lock owning_system = Some ?tt"
    "sys_local_locks owning_system = Some two_local_locks"
    by (simp_all add: owning_system_def)
  let ?sys' = "owning_system\<lparr>sys_local_locks := Some ll'\<rparr>"
  have call: "system_call (ReleaseLock 0 7 0) owning_system = Some (code_of (sys_release_lock 0 7 0 owning_system))"
    "run demo_region (code_of (sys_release_lock 0 7 0 owning_system)) (\<lambda>_. 0) = Result (Code SUCCESS, [], ?sys') m'"
    using r y by (simp_all add: sys_release_lock_def code_of_def run_bind)
  have s: "activity (threads owning_thread 1 7) = Ready (Some SUCCESS)" "owned (threads owning_thread 1 7) = {0}"
    "locals owning_thread 1 = two_local_locks" "memory owning_thread = (\<lambda>_. 0)"
    by (simp_all add: owning_thread_def)
  have tt: "tt_initialized ?tt" "0 < tt_max_locks ?tt" "tt_algorithm ?tt = Some (CasAlgorithm \<lparr>cas_node_count = 2\<rparr>)"
    by (simp_all add: demo_lock_def)
  have any: "acquisition ?P t p" "release ?P t p" "region_of ?P t = demo_region" for t p
    by (simp_all add: open_protocol_def)
  have "\<exists>rc ll'' s'. Code SUCCESS = Code rc \<and> ([] :: os_event list) = [] \<and> ?sys' = owning_system\<lparr>sys_local_locks := Some ll''\<rparr> \<and>
    s' = put_thread owning_thread 1 7
      (if call_takes owning_system (ReleaseLock 0 7 0) = None then released_view (threads owning_thread 1 7) 0 rc
       else acquired_view (threads owning_thread 1 7) 0 rc) ll'' m' \<and>
    loosely_reachable ?P owning_thread s' \<and>
    (call_takes owning_system (ReleaseLock 0 7 0) \<noteq> None \<or> 0 \<in> owned (threads owning_thread 1 7) \<longrightarrow>
       threads_reachable ?P owning_thread s')"
    by (rule public_calls_are_thread_steps [where clk = "\<lambda>_. 0" and fuel = 0, OF y(1,2) _ s(1) tt any(1,2) call(1)])
       (use y s call any(3) in simp_all)
  then obtain ll'' where q: "?sys' = owning_system\<lparr>sys_local_locks := Some ll''\<rparr>"
      "threads_reachable ?P owning_thread (put_thread owning_thread 1 7 \<lparr>activity = Ready (Some SUCCESS), owned = {}\<rparr> ll'' m')"
    by (auto simp: released_view_def s)
  moreover have "ll'' = ll'" using arg_cong [OF q(1), of sys_local_locks] by simp
  ultimately show ?thesis using call by (intro exI [of _ ll'] exI [of _ ?sys'] exI [of _ m']) simp
qed

section \<open>The whole system\<close>

lemma threads_get_in:
  assumes "\<forall>n. fresh_locks (lls n)"
    and "reachable (limited (\<lambda>n. ll_lock_count (lls n)) P) (initial_system m x) S" and "clients S (n, l) = Critical"
  shows "\<exists>s t. threads_reachable P (initial_threads lls m x) s \<and> inside s n t l"
proof -
  note inv0 = initial_threads_inv [OF assms(1), of m x]
  from dedicated_reaches [OF _ inv0 dedicated_initial] assms(2) clients_of_initial [OF assms(1), of m x]
  obtain s where s: "threads_reachable P (initial_threads lls m x) s" "dedicated s" "clients_of s = S" by metis
  have "clients (clients_of s) (n, l) = Critical" using s(3) assms(3) by simp
  from dedicated_inside [OF threads_reachable_inv [OF s(1) inv0] s(2) this] have "inside s n (unat l) l"
    by (auto simp: inside_def)
  with s(1) show ?thesis by blast
qed

text \<open>
  C3. The whole system, from its public \<open>initialize\<close> on: if the manager node starts with the CAS or the MCS algorithm, then from
  the memory, the lock manager and the local locks that the call leaves a thread of node \<open>n\<close> can get into lock \<open>l\<close> by its own call and
  scans of the manager, and whatever the threads of all nodes and the manager do, access by access, no two threads, of one node or of
  different nodes, are ever inside one lock. The conditions: the pool is backed by a file, the local locks of the other nodes are fresh, no
  node initialises the region a second time, threads release only locks that they own, and, under the MCS algorithm
  but not under CAS, each node uses one lock and no request times out.
\<close>

theorem threads_serve_and_exclude:
  assumes "make_algorithm (dl_lock_algorithm config) = Some alg" and "alg = new_cas \<or> alg = new_mcs"
    and "dl_use_file_backed_shm config"
    and "shm_init os \<lparr>cfg_device_path = dl_shm_backing_file config, cfg_size = dl_shm_size config,
      cfg_consistency = dl_consistency_mode config, cfg_create = True\<rparr> new_region = (SUCCESS, evs, sh)"
    and "os_documented os" and "state_fits alg sh (dl_max_nodes config) 0"
    and "0 < dl_max_locks config" and "dl_max_locks config \<le> MAX_LOCK_COUNT"
    and "n = dl_node_id config" and "n < dl_max_nodes config" and "l < dl_max_locks config" and "lk n = l"
    and "\<forall>t. state_fits alg (reg t) (dl_max_nodes config) 0" and "reg (n, l) = sh" and "\<forall>a. fresh_locks (others a)"
  shows "\<exists>sys lm ll m'.
    run_calls sh [Initialize os True (\<lambda>_. True) config True] system_construct m = Some (Result ([Code SUCCESS], evs, sys) m') \<and>
    sys_lock_manager sys = Some lm \<and> sys_local_locks sys = Some ll \<and>
    (\<exists>s t. threads_reachable (trusted_protocol (with_nodes (dl_max_nodes config) alg) (dl_max_nodes config) reg sh lk)
       (initial_threads (others(n := ll)) m' lm) s \<and> inside s n t l) \<and>
    (\<forall>s a b t t' l'. threads_reachable (trusted_protocol (with_nodes (dl_max_nodes config) alg) (dl_max_nodes config) reg sh lk)
       (initial_threads (others(n := ll)) m' lm) s \<longrightarrow> inside s a t l' \<longrightarrow> inside s b t' l' \<longrightarrow> a = b \<and> t = t')"
proof -
  let ?nc = "dl_max_nodes config"
  let ?P = "trusted_protocol (with_nodes ?nc alg) ?nc reg sh lk"
  have "?nc \<le> MAX_NODE_COUNT" using assms(6) by (simp add: state_fits_def)
  with assms(10) have "n < MAX_NODE_COUNT" by (rule order.strict_trans2)
  then have n: "dl_node_id config \<noteq> INVALID_NODE_ID"
    using assms(9) by (auto simp: MAX_NODE_COUNT_def INVALID_NODE_ID_def)
  obtain sys tt ll lm m' where init: "run sh (sys_initialize os True (\<lambda>_. True) config True new_system) m = Result (SUCCESS, evs, sys) m'"
      "fresh_state alg sh ?nc 0 m'" "sys_lock_manager sys = Some lm"
      "client_lock (with_nodes ?nc alg) sh ?nc 0 n tt" "manager_ready (with_nodes ?nc alg) sh ?nc 0 lm"
      "lm_max_locks lm = dl_max_locks config" "sys_local_locks sys = Some ll" "fresh_locks ll" "ll_lock_count ll = dl_max_locks config"
    using sys_initialize_ready [OF assms(1,3-8) n, of True m] assms(9) by auto
  define lls where "lls = others(n := ll)"
  have fresh: "\<forall>a. fresh_locks (lls a)" using assms(15) init(8) by (simp add: lls_def)
  let ?Q = "limited (\<lambda>n. ll_lock_count (lls n)) ?P"
  have l: "l < lm_max_locks lm" "l < MAX_LOCK_COUNT" using assms(8,11) init(6) by (auto intro: order.strict_trans2)
  have P: "region_of ?Q (n, l) = sh" "manager_region ?Q = sh" "next_scan ?Q = run_single_scan"
    using assms(14) by (simp_all add: trusted_protocol_def steady_protocol_def lock_protocol_def split: GlobalLockAlgorithm.split)
  have "acquisition ?P (n, l) (tt_global_acquire 2 tt (with_nodes ?nc alg) (\<lambda>_. 0) l 1)"
    by (rule trusted_acquisition) (use assms(10,12,14) init(4) l in simp_all)
  then have acq: "acquisition ?Q (n, l) (tt_global_acquire 2 tt (with_nodes ?nc alg) (\<lambda>_. 0) l 1)"
    using assms(11) init(9) by (simp add: lls_def)
  obtain S where "reachable ?Q (initial_system m' lm) S" "clients S = (\<lambda>_. Idle)((n, l) := Critical)"
    using algorithm_serves [OF assms(2,6) init(5,2,4) assms(10) l(1) P acq] by blast
  then have S: "reachable ?Q (initial_system m' lm) S" "clients S (n, l) = Critical" by simp_all
  have "\<exists>s t. threads_reachable ?P (initial_threads lls m' lm) s \<and> inside s n t l"
    by (rule threads_get_in [OF fresh S])
  moreover have "a = b \<and> t = t'"
    if "threads_reachable ?P (initial_threads lls m' lm) s" "inside s a t l'" "inside s b t' l'" for s a b t t' l'
    by (rule threads_exclude [OF fresh that(1) trusted_exclusive [OF assms(2,13,6) init(5,2)] that(2,3)])
  moreover have "run_calls sh [Initialize os True (\<lambda>_. True) config True] system_construct m = Some (Result ([Code SUCCESS], evs, sys) m')"
    using init(1) by (simp add: system_construct_def run_bind)
  ultimately show ?thesis using init(3,7) unfolding lls_def by blast
qed

definition mcs_config :: Config where
  "mcs_config = megabyte_config\<lparr>dl_lock_algorithm := ''mcs''\<rparr>"

theorem threads_serve_and_exclude_witness:
  "\<exists>sys lm ll m'.
    run_calls demo_region [Initialize megabyte_os True (\<lambda>_. True) mcs_config True] system_construct (\<lambda>_. 9) =
      Some (Result ([Code SUCCESS], [Opened 3, Mapped 65536 1048576], sys) m') \<and> sys_lock_manager sys = Some lm \<and>
    (\<exists>s t. threads_reachable (trusted_protocol (McsAlgorithm \<lparr>mcs_node_count = 16\<rparr>) 16 (\<lambda>_. demo_region) demo_region (\<lambda>_. 5))
      (initial_threads ((\<lambda>_. new_local_locks)(0 := ll)) m' lm) s \<and> inside s 0 t 5)"
proof -
  have f: "make_algorithm (dl_lock_algorithm mcs_config) = Some new_mcs" "dl_use_file_backed_shm mcs_config"
    "dl_max_nodes mcs_config = 16" "dl_max_locks mcs_config = 256" "dl_node_id mcs_config = 0"
    by (simp_all add: mcs_config_def megabyte_config_def default_config_def make_algorithm_def)
  have i: "shm_init megabyte_os \<lparr>cfg_device_path = dl_shm_backing_file mcs_config,
      cfg_size = dl_shm_size mcs_config, cfg_consistency = dl_consistency_mode mcs_config,
      cfg_create = True\<rparr> new_region = (SUCCESS, [Opened 3, Mapped 65536 1048576], demo_region)"
    by (simp add: shm_init_def Let_def megabyte_os_def one_mapping_os_def new_region_def map_backing_store_def
        MAP_FAILED_def is_dax_device_def sublist_Cons_right mcs_config_def megabyte_config_def demo_region_def)
  have os: "os_documented megabyte_os"
    by (simp add: os_documented_def megabyte_os_def one_mapping_os_def)
  have fits: "state_fits new_mcs demo_region (dl_max_nodes mcs_config) 0"
    by (simp add: f state_fits_def new_mcs_def alg_get_state_size_def mcs_get_state_size_def MAX_LOCK_COUNT_def MAX_NODE_COUNT_def)
  have c: "0 < dl_max_locks mcs_config" "dl_max_locks mcs_config \<le> MAX_LOCK_COUNT" "0 = dl_node_id mcs_config"
    "0 < dl_max_nodes mcs_config" "5 < dl_max_locks mcs_config" by (simp_all add: f MAX_LOCK_COUNT_def)
  have others: "\<forall>a :: NodeId. fresh_locks new_local_locks"
    by (simp add: fresh_locks_def new_local_locks_def ll_wf_def)
  have w: "with_nodes 16 new_mcs = McsAlgorithm \<lparr>mcs_node_count = 16\<rparr>" by (simp add: new_mcs_def)
  from threads_serve_and_exclude [where lk = "\<lambda>_. 5" and reg = "\<lambda>_. demo_region" and others = "\<lambda>_. new_local_locks" and m = "\<lambda>_. 9",
      OF f(1) disjI2 [OF refl] f(2) i os fits c refl allI [OF fits] refl others]
  show ?thesis unfolding f(3) w by (elim exE conjE) (intro exI conjI)
qed

end
