(* ===== verification/Spec2Isabelle.thy ===== *)
theory Spec2Isabelle
  imports Software_Consistency Mcs_Order Mcs_Races Faa_Races Qspin_Races Wait_Freedom Two_Tier_Properties Region_Properties
    Node_Registry Algorithm_Registry Manager_Session Thread_Calls
begin

text \<open>
  \<^bold>\<open>A verification library for a distributed lock system over CXL shared memory.\<close>

  The program (C++, \<open>include/\<close> and \<open>src/\<close>) lets the threads of several nodes share locks that live in
  one CXL memory region. A thread first takes a mutex of its node (\<open>LocalLockArray\<close>), then asks for
  the lock in shared memory by one of four algorithms behind the interface \<open>GlobalLockAlgorithm\<close>
  (CAS slots, FAA tickets, an MCS queue, a queued spin lock), and polls until it is granted
  (\<open>TwoTierLock\<close>). One node runs the \<open>LockManager\<close>, whose thread scans all locks and grants free ones.
  \<open>CxlMemoryPool\<close> and \<open>SharedMemoryRegion\<close> map the memory, \<open>NodeRegistry\<close> keeps the list of live nodes
  in it, \<open>LockAlgorithmRegistry\<close> creates algorithms by name, and \<open>DistributedLockSystem\<close> puts all
  parts together.

  \<^bold>\<open>How the code is modelled.\<close> Integers have their width (\<open>u32\<close>, \<open>u64\<close>), pointers are 64-bit words and
  null is \<open>None\<close>. A routine that works on shared memory is a tree of memory accesses
  (\<open>prog\<close> in \<open>Shm_Prog\<close>), in the order of the code. \<open>run\<close> executes a tree without interference, with
  \<open>Fault\<close> for a null dereference or an access outside the mapping; \<open>pstep\<close> executes one access, so that
  the trees of several nodes and of the manager can be interleaved (\<open>Interleave\<close>). The shared memory
  maps offsets to 32-bit cells; only the node registry, which copies whole structures, uses bytes.
  Atomics are sequentially consistent, as requested everywhere in the source. Flushes and
  fences are nodes of the trees; they have no effect on the coherent memory of \<open>run\<close> and \<open>pstep\<close>, while
  \<open>crun\<close> (\<open>Cached_Memory\<close>) executes the same trees on a host with caches that are not coherent. Undefined behaviour in local memory is a value too: an access
  outside the array of mutexes is \<open>Overrun\<close> or \<open>None\<close> in \<open>Local_Lock\<close> and \<open>Crash\<close> above. The operating system (\<open>os\<close>), the
  clock (\<open>clk\<close>, \<open>now\<close>), the file system and the success of allocations are parameters.

  \<^bold>\<open>Theories and sources.\<close>
  \<^item> \<open>Prelude\<close>, \<open>Lock_Types\<close> (\<open>include/lock_types.h\<close>): word lemmas, collections of facts, constants.
  \<^item> \<open>Shared_Memory\<close>, \<open>Shm_Prog\<close>, \<open>Region_Properties\<close> (\<open>src/shared_memory.cpp\<close>): mapping, pointers,
    accesses; resources, pointer round trips and cache lines.
  \<^item> \<open>Memory_Pool\<close> (\<open>src/cxl_memory_pool.cpp\<close>): opening, closing, moving; its invariant and resources.
  \<^item> \<open>Line_Layout\<close>, \<open>Cas_Lock\<close>, \<open>Faa_Lock\<close>, \<open>Mcs_Lock\<close>, \<open>Qspin_Lock\<close> (\<open>src/cas_global_lock.cpp\<close> and the three
    files like it): layout of the lock state and every operation of the algorithms.
  \<^item> \<open>Lock_Interface\<close>, \<open>Algorithm_Registry\<close> (\<open>src/lock_interface.cpp\<close>): virtual calls, and the registry
    as a sorted association list that refines a partial map.
  \<^item> \<open>Lock_Manager\<close> (\<open>src/lock_manager.cpp\<close>), \<open>Local_Lock\<close> (\<open>src/local_lock.cpp\<close>), \<open>Two_Tier_Lock\<close>
    (\<open>src/two_tier_lock.cpp\<close>).
  \<^item> \<open>Node_Config\<close>, \<open>Node_Registry\<close> (\<open>src/node_registry.cpp\<close>): the reader of the configuration file and
    its inverse; registration, heartbeats and queries.
  \<^item> \<open>Distributed_Lock\<close>, \<open>System_Resources\<close>, \<open>System_Start\<close>, \<open>System_Session\<close> (\<open>src/distributed_lock.cpp\<close>): the
    facade, what it takes and gives back, the state in which initialisation leaves its parts, and the public class as
    sequences of calls.
  \<^item> \<open>Interleave\<close>, \<open>Cas_Mutex\<close>, \<open>Mcs_Protocol\<close>, \<open>Mcs_Mutex\<close>, \<open>Mcs_Order\<close>, \<open>Faa_Races\<close>, \<open>Mcs_Races\<close>, \<open>Qspin_Races\<close>: two-tier
    locks, algorithm and manager together, one access at a time; a client there is a node and a lock.
  \<^item> \<open>Thread_System\<close>, \<open>Thread_Calls\<close>: the threads behind the clients, with the local mutexes of their nodes; \<open>Thread_System\<close> proves
    that clients and threads are the same system, \<open>Thread_Calls\<close> that the functions of \<open>Two_Tier_Lock\<close> are its steps.
  \<^item> \<open>Manager_Session\<close>: the lock manager as sequences of its public calls, its statistics and its main loop.
  \<^item> \<open>Cached_Memory\<close>, \<open>Software_Consistency\<close>: the software-consistency mode of the shared memory.

  \<^bold>\<open>Interfaces.\<close> \<open>Lock_Contract\<close> states what a client may expect of an algorithm as locales over an
  abstract lock service (who waits for a lock, who holds it): \<open>lock_safe\<close> (requests, releases, scans
  and polls keep the represented service in step), \<open>lock_live\<close> (a scan serves a free lock somebody
  waits for) and \<open>lock_cancel\<close> (a failed request leaves no trace). Their consequences for sequences
  of calls are proved once. \<open>Cas_Service\<close>, \<open>Faa_Service\<close>, \<open>Mcs_Service\<close> and \<open>Qspin_Service\<close> give the
  representation of the service in memory and interpret the locales, as far as each algorithm
  satisfies them: FAA only with a single lock, MCS without cancellation, the queued spin lock for
  at most one waiter. \<open>Interleave\<close> has two locales of interleaved programs: \<open>interleaved_invariant\<close>, an invariant that every access keeps, which
  \<open>Cas_Mutex\<close> interprets, and \<open>interleaved_simulation\<close>, an abstract state that follows every access, which \<open>Mcs_Mutex\<close>
  and \<open>Mcs_Order\<close> interpret on the protocol of \<open>Mcs_Protocol\<close>.

  \<^bold>\<open>What is shown.\<close>
  \<^item> Mutual exclusion for all interleavings of single accesses of any number of nodes and the manager: of the CAS algorithm
    without conditions (\<open>Cas_Mutex\<close>), of the MCS algorithm if each node uses one lock and no request times out (\<open>Mcs_Mutex\<close>). Neither
    condition can be dropped (\<open>Mcs_Races\<close>). Both results hold for the threads of all nodes, from the public \<open>initialize\<close>
    on (\<open>Thread_Calls\<close>), because the threads of a node are kept apart by its mutexes (\<open>Thread_System\<close>).
  \<^item> The order in which nodes enter an MCS lock, for all interleavings under the same conditions: that of the queue
    (\<open>Mcs_Order\<close>).
  \<^item> Where the threads break it: a release by a thread that does not hold the lock is refused only after it has released the
    lock of its node (\<open>Two_Tier_Properties\<close>). Such calls are outside the thread system whose threads exclude each other, and steps of a
    looser one (\<open>Thread_Calls\<close>).
  \<^item> No operation of the local lock array accesses a mutex outside of it, for any lock id (\<open>Local_Lock\<close>).
  \<^item> Concrete schedules, from initialised memory, on which the FAA algorithm and the queued spin lock let two nodes into one
    lock, and on which the queued spin lock and the MCS algorithm lose a waiter or leave a lock locked with nobody
    inside (\<open>Faa_Races\<close>, \<open>Qspin_Races\<close>, \<open>Mcs_Races\<close>).
  \<^item> Without coherent caches: grants that are not seen before the hardware evicts the line, requests that are lost, a ticket that is drawn
    twice (\<open>Software_Consistency\<close>); with a single host the cached memory behaves like the coherent one.
  \<^item> Service order and progress of a scan, hand-over on release, and what a failed request leaves
    behind, for each algorithm (the \<open>_Service\<close> theories); under the CAS algorithm a waiter can be overtaken for ever (\<open>Cas_Service\<close>).
  \<^item> Termination of polling, scans and releases whatever other nodes write, and the one release that can
    block for ever (\<open>Wait_Freedom\<close>, \<open>Mcs_Service\<close>); the main loop of the manager ends once it is told to stop, and its worker
    thread and statistics are consistent after any calls (\<open>Manager_Session\<close>).
  \<^item> The local mutex is kept exactly by a successful acquisition; the hash functions stay in range;
    a late initialisation grants a lock that is held (\<open>Two_Tier_Properties\<close>).
  \<^item> Resources are neither leaked nor released twice by the region, the pool and the whole system, with
    the one exception of an unknown algorithm name (\<open>Region_Properties\<close>, \<open>Memory_Pool\<close>,
    \<open>System_Resources\<close>), which the next \<open>initialize\<close> or the destructor makes good (\<open>System_Session\<close>); initialisation
    establishes what the lock theorems assume (\<open>System_Start\<close>).
  \<^item> The configuration format round trip, the exact contents of registry entries after each
    operation, the agreement of count and discovery, and the exact liveness test with its
    wrap-around (\<open>Node_Config\<close>, \<open>Node_Registry\<close>).

  \<^bold>\<open>Fuel.\<close> Three loops have no bound of their own: the retry of the tail swap and the wait for the
  successor in MCS, and \<open>poll_for_grant\<close>. They carry fuel, and running out is \<open>OutOfFuel\<close>, never a
  result. Polling needs 1002 tests for a zero timeout and otherwise one more than the clock readings
  below the timeout (\<open>poll_ends\<close>); without interference one unit is enough for the others. The
  bounded spin of the queued spin lock keeps the limit of the code.

  \<^bold>\<open>Not modelled.\<close> The tests and benchmarks under \<open>tests/\<close> (drivers of the library). Reordering of plain accesses: they are
  single sequentially consistent accesses, and the caches of \<open>Cached_Memory\<close> serve whole runs of one host at a time; \<open>crun\<close> loses a line only
  by a flush or an invalidation, \<open>crun_env\<close>, which follows a poll, also by evictions, with other hosts writing in between. Atomics at other widths than 32 bits, which the library does not use. Copying of objects, which the
  classes forbid. The four algorithms are fixed: user-defined subclasses of the interface are not values of the datatype. In
  \<open>System_Session\<close> the calls of one system object follow each other; the calls of several threads interleave only below, in
  \<open>Thread_System\<close>, where every node has been initialised before and no thread shuts its system down.

  \<^bold>\<open>Plan.\<close> What is left: caches under interleaved accesses; the time a waiter of an MCS lock may have to wait.
\<close>

end
